(* ===== verification/Prelude.thy ===== *)
theory Prelude
  imports Main "HOL-Library.Word" "HOL-Library.Multiset" "HOL-Library.Sublist"
begin

section \<open>Prelude\<close>

text \<open>
  What the component theories share: the error codes of \<open>std::errc\<close> and the shape of a
  fallible result, the few operations of \<open>std::string_view\<close> the program uses, and the
  generic lemmas on lists and words the component proofs rest on. A C++ \<open>char\<close> is a
  \<^typ>\<open>char\<close> (a byte), a \<open>std::string\<close> or \<open>std::string_view\<close> is a \<^typ>\<open>string\<close>;
  \<open>std::string_view::npos\<close> is \<^const>\<open>None\<close>.
\<close>

named_theorems remmy_defs "the definitions a component unfolds by default"

subsection \<open>Errors and results\<close>

text \<open>
  The values of \<open>errno\<close> the program distinguishes have a constructor of their own; every
  other one is \<open>Errno n\<close>. The numbers themselves differ between Darwin and Linux and no
  code depends on them.
\<close>

datatype errc =
    ENOENT
  | EINTR
  | EMFILE
  | ENFILE
  | ENAMETOOLONG
  | EIO
  | EINVAL
  | ERANGE
  | Errno nat

text \<open>\<open>std::expected<T, E>\<close>: \<^const>\<open>Inl\<close> is \<open>std::unexpected\<close>, \<^const>\<open>Inr\<close> a value.\<close>

type_synonym ('a, 'e) expected = "'e + 'a"

definition value_or :: "('a, 'e) expected \<Rightarrow> 'a \<Rightarrow> 'a" where
  "value_or r d = (case r of Inl _ \<Rightarrow> d | Inr v \<Rightarrow> v)"

lemma value_or_simps [simp]: "value_or (Inl e) d = d" "value_or (Inr v) d = v"
  by (simp_all add: value_or_def)

lemma bind_SomeE:
  assumes "Option.bind x f = Some y"
  obtains a where "x = Some a" and "f a = Some y"
  using assms by (cases x) auto

subsection \<open>Searching a string view\<close>

text \<open>\<open>rfind(c, pos)\<close>: the last index not after \<open>pos\<close> that holds \<open>c\<close>.\<close>

fun rfind_below :: "char \<Rightarrow> string \<Rightarrow> nat \<Rightarrow> nat option" where
  "rfind_below c s 0 = None"
| "rfind_below c s (Suc n) = (if s ! n = c then Some n else rfind_below c s n)"

definition rfind_from :: "char \<Rightarrow> nat \<Rightarrow> string \<Rightarrow> nat option" where
  "rfind_from c pos s = rfind_below c s (min (Suc pos) (length s))"

definition rfind :: "char \<Rightarrow> string \<Rightarrow> nat option" where
  "rfind c s = rfind_from c (length s) s"

lemma rfind_below_None: "rfind_below c s n = None \<longleftrightarrow> (\<forall>i < n. s ! i \<noteq> c)"
  by (induction n) (auto simp: less_Suc_eq)

lemma rfind_below_Some:
  "rfind_below c s n = Some i \<longleftrightarrow> i < n \<and> s ! i = c \<and> (\<forall>j. i < j \<longrightarrow> j < n \<longrightarrow> s ! j \<noteq> c)"
  by (induction n) (auto simp: less_Suc_eq)

lemma rfind_from_None:
  "rfind_from c pos s = None \<longleftrightarrow> (\<forall>i < length s. i \<le> pos \<longrightarrow> s ! i \<noteq> c)"
  by (simp add: rfind_from_def rfind_below_None less_Suc_eq_le) blast

lemma rfind_from_Some:
  assumes "rfind_from c pos s = Some i"
  shows "i < length s" "i \<le> pos" "s ! i = c"
    "\<And>j. i < j \<Longrightarrow> j \<le> pos \<Longrightarrow> j < length s \<Longrightarrow> s ! j \<noteq> c"
  using assms by (auto simp: rfind_from_def rfind_below_Some)

lemma rfind_None: "rfind c s = None \<longleftrightarrow> c \<notin> set s"
  by (auto simp: rfind_def rfind_from_None in_set_conv_nth)

lemma rfind_SomeD:
  assumes "rfind c s = Some i"
  shows "s = take i s @ c # drop (Suc i) s" and "c \<notin> set (drop (Suc i) s)" and "i < length s"
proof -
  note facts = rfind_from_Some [OF assms [unfolded rfind_def]]
  show len: "i < length s" by (rule facts(1))
  show "s = take i s @ c # drop (Suc i) s"
    using len facts(3) by (metis id_take_nth_drop)
  show "c \<notin> set (drop (Suc i) s)"
  proof
    assume "c \<in> set (drop (Suc i) s)"
    then obtain k where "k < length s - Suc i" "s ! (Suc i + k) = c"
      by (auto simp: in_set_conv_nth)
    then show False using facts(4) [of "Suc i + k"] by (simp add: less_diff_conv)
  qed
qed

lemma last_sep_unique:
  assumes "p @ c # u = q @ c # v" and "c \<notin> set u" and "c \<notin> set v"
  shows "u = v"
  using assms by (auto simp: append_eq_append_conv2 append_eq_Cons_conv Cons_eq_append_conv)

lemma rfind_last: "c \<notin> set b \<Longrightarrow> rfind c (a @ c # b) = Some (length a)"
proof -
  assume b: "c \<notin> set b"
  obtain i where i: "rfind c (a @ c # b) = Some i"
    using rfind_None [of c "a @ c # b"] by fastforce
  note d = rfind_SomeD [OF i]
  from last_sep_unique [OF d(1) b d(2)] have "b = drop (Suc i) (a @ c # b)" .
  from arg_cong [OF this, of length, unfolded length_drop] d(3)
  have "i = length a" unfolding length_append length_Cons by arith
  with i show ?thesis by simp
qed

text \<open>The part after the last separator, the whole view when there is none.\<close>

definition after_last :: "char \<Rightarrow> string \<Rightarrow> string" where
  "after_last c s = (case rfind c s of None \<Rightarrow> s | Some i \<Rightarrow> drop (Suc i) s)"

lemma after_last_notin: "c \<notin> set (after_last c s)"
  by (auto simp: after_last_def rfind_None split: option.splits dest: rfind_SomeD(2))

lemma after_last_decomp:
  "\<exists>pre. s = pre @ after_last c s \<and> (pre = [] \<or> last pre = c)"
proof (cases "rfind c s")
  case None
  then show ?thesis by (intro exI [of _ "[]"]) (simp add: after_last_def)
next
  case (Some i)
  from rfind_SomeD(1) [OF Some] Some show ?thesis
    by (intro exI [of _ "take i s @ [c]"]) (simp add: after_last_def)
qed

lemma after_last_unique:
  assumes "c \<notin> set w" and "pre = [] \<or> last pre = c"
  shows "after_last c (pre @ w) = w"
proof (cases "pre = []")
  case True
  with assms show ?thesis by (simp add: after_last_def rfind_None [THEN iffD2])
next
  case False
  with assms(2) have pre: "pre @ w = butlast pre @ c # w"
    by (metis append.assoc append_Cons append_Nil append_butlast_last_id)
  from False assms(2) have "c \<in> set (pre @ w)" using last_in_set [of pre] by auto
  then obtain i where i: "rfind c (pre @ w) = Some i" using rfind_None by fastforce
  note d = rfind_SomeD [OF i]
  have "butlast pre @ c # w = take i (pre @ w) @ c # drop (Suc i) (pre @ w)"
    using pre d(1) by metis
  then have "w = drop (Suc i) (pre @ w)"
    using assms(1) d(2) by (rule last_sep_unique)
  with i show ?thesis by (simp add: after_last_def)
qed

subsection \<open>Lists\<close>

text \<open>\<open>std::copy_n\<close> into the middle of a buffer.\<close>

definition copy_n :: "string \<Rightarrow> string \<Rightarrow> nat \<Rightarrow> string" where
  "copy_n src data cursor = take cursor data @ src @ drop (cursor + length src) data"

lemma length_copy_n: "cursor + length src \<le> length data \<Longrightarrow> length (copy_n src data cursor) = length data"
  by (simp add: copy_n_def)

lemma take_copy_n:
  "cursor + length src \<le> length data \<Longrightarrow> take (cursor + length src) (copy_n src data cursor) = take cursor data @ src"
  by (simp add: copy_n_def)

lemma foldl_add_length: "foldl (\<lambda>acc p. acc + length p) n ps = n + length (concat ps)"
  by (induction ps arbitrary: n) auto

lemma take_takeWhile_drop: "drop (length (takeWhile P xs)) xs = dropWhile P xs"
  by (simp add: dropWhile_eq_drop)

lemma prefix_take: "prefix (take n xs) xs"
  by (rule take_is_prefix)

lemma length_takeWhile_ge:
  "k \<le> length xs \<Longrightarrow> \<forall>i < k. P (xs ! i) \<Longrightarrow> k \<le> length (takeWhile P xs)"
proof (induction xs arbitrary: k)
  case (Cons x xs)
  then show ?case by (cases k) (auto simp: All_less_Suc2)
qed simp

subsection \<open>Counting\<close>

text \<open>How many elements of a list satisfy a predicate, and how an update changes that.\<close>

definition cnt :: "('a \<Rightarrow> bool) \<Rightarrow> 'a list \<Rightarrow> nat" where
  "cnt P xs = length (filter P xs)"

lemma cnt_simps [simp]:
  "cnt P [] = 0" "cnt P (x # xs) = of_bool (P x) + cnt P xs" "cnt P (xs @ ys) = cnt P xs + cnt P ys"
  by (simp_all add: cnt_def)

lemma cnt_update:
  "i < length xs \<Longrightarrow> cnt P (xs[i := y]) + of_bool (P (xs ! i)) = cnt P xs + of_bool (P y)"
proof (induction xs arbitrary: i)
  case (Cons x xs)
  then show ?case by (cases i) auto
qed simp

lemma cnt_le: "cnt P xs \<le> length xs"
  by (simp add: cnt_def)

lemma cnt_zero: "cnt P xs = 0 \<longleftrightarrow> (\<forall>x \<in> set xs. \<not> P x)"
  by (simp add: cnt_def filter_empty_conv)

lemma cnt_pos: "i < length xs \<Longrightarrow> P (xs ! i) \<Longrightarrow> 0 < cnt P xs"
  using cnt_zero [of P xs] by (metis neq0_conv nth_mem)

lemma cnt_cong: "(\<And>x. x \<in> set xs \<Longrightarrow> P x = Q x) \<Longrightarrow> cnt P xs = cnt Q xs"
  unfolding cnt_def by (metis filter_cong)

lemma cnt_upt_change:
  assumes "c < n" and "\<And>x. x \<noteq> c \<Longrightarrow> P x = Q x"
  shows "cnt Q [0..<n] + of_bool (P c) = cnt P [0..<n] + of_bool (Q c)"
proof -
  have "[0..<n] = [0..<c] @ c # [Suc c..<n]"
    using assms(1) upt_add_eq_append [of 0 c "n - c"] by (simp add: upt_conv_Cons)
  moreover have "cnt P [0..<c] = cnt Q [0..<c]" "cnt P [Suc c..<n] = cnt Q [Suc c..<n]"
    by (auto intro!: cnt_cong simp: assms(2))
  ultimately show ?thesis by simp
qed

text \<open>Sums over a list of which one element changes.\<close>

lemma sum_list_update_add:
  fixes f :: "'a \<Rightarrow> 'b :: comm_monoid_add"
  shows "i < length xs \<Longrightarrow> (\<Sum>x\<leftarrow>xs[i := y]. f x) + f (xs ! i) = (\<Sum>x\<leftarrow>xs. f x) + f y"
proof (induction xs arbitrary: i)
  case (Cons x xs)
  show ?case
  proof (cases i)
    case 0
    then show ?thesis by (simp add: ac_simps)
  next
    case (Suc j)
    with Cons.IH [of j] Cons.prems have "(\<Sum>x\<leftarrow>xs[j := y]. f x) + f (xs ! j) = (\<Sum>x\<leftarrow>xs. f x) + f y" by simp
    with Suc show ?thesis by (simp add: add.assoc)
  qed
qed simp

end
