(* ===== verification/Syscalls.thy ===== *)
theory Syscalls
  imports Prelude
begin

section \<open>The operating system\<close>

text \<open>
  The system calls and the few library calls whose code is not in the repository, as one
  record of functions over an abstract world \<open>'w\<close>. Every component that calls the system
  takes such a record as its argument, so a theorem holds for whatever the system answers
  unless it names a hypothesis on the record. A call that fails returns the value of
  \<open>errno\<close> the code reads right after it.
\<close>

type_synonym u32 = "32 word"
type_synonym u64 = "64 word"

datatype platform = Linux | Darwin

record rlimit =
  rlim_cur :: u64
  rlim_max :: u64

text \<open>The flags the program passes to \<open>open\<close> and \<open>openat\<close>; it always adds the other two.\<close>

datatype oflags =
    OpenDir         \<comment> \<open>\<open>O_RDONLY | O_DIRECTORY | O_CLOEXEC\<close>\<close>
  | OpenDirNoFollow \<comment> \<open>\<open>O_RDONLY | O_DIRECTORY | O_NOFOLLOW | O_CLOEXEC\<close>\<close>

text \<open>What the program looks at in a \<open>stat\<close>: \<open>S_ISDIR(st_mode)\<close>.\<close>

datatype file_kind = Directory | NotDirectory

datatype dirent_type = DT_DIR | DT_UNKNOWN | DT_OTHER nat

text \<open>A record of the directory-read call: name, type and stride in bytes.\<close>

record dirent =
  d_name :: string
  d_type :: dirent_type
  d_reclen :: nat

record 'w sys =
  sys_platform :: platform
  sys_getrlimit :: "'w \<Rightarrow> (rlimit, errc) expected"
  sys_setrlimit :: "rlimit \<Rightarrow> 'w \<Rightarrow> errc option \<times> 'w"
  sys_maxfilesperproc :: "'w \<Rightarrow> (int, errc) expected"
  sys_open :: "string \<Rightarrow> oflags \<Rightarrow> 'w \<Rightarrow> (nat, errc) expected \<times> 'w"
  sys_openat :: "int \<Rightarrow> string \<Rightarrow> oflags \<Rightarrow> 'w \<Rightarrow> (nat, errc) expected \<times> 'w"
  sys_close :: "int \<Rightarrow> 'w \<Rightarrow> 'w"
  sys_lstat :: "string \<Rightarrow> 'w \<Rightarrow> (file_kind, errc) expected \<times> 'w"
  sys_fstatat :: "int \<Rightarrow> string \<Rightarrow> 'w \<Rightarrow> (file_kind, errc) expected \<times> 'w"
  sys_unlink :: "string \<Rightarrow> 'w \<Rightarrow> errc option \<times> 'w"
  sys_rmdir :: "string \<Rightarrow> 'w \<Rightarrow> errc option \<times> 'w"
  sys_unlinkat :: "int \<Rightarrow> string \<Rightarrow> bool \<Rightarrow> 'w \<Rightarrow> errc option \<times> 'w"
  sys_getdents :: "int \<Rightarrow> nat \<Rightarrow> 'w \<Rightarrow> (dirent list, errc) expected \<times> 'w"
  sys_read :: "int \<Rightarrow> nat \<Rightarrow> 'w \<Rightarrow> (string, errc) expected \<times> 'w"
  sys_writev :: "int \<Rightarrow> string list \<Rightarrow> 'w \<Rightarrow> (nat, errc) expected \<times> 'w"
  sys_geteuid :: "'w \<Rightarrow> nat"
  sys_isatty :: "int \<Rightarrow> 'w \<Rightarrow> bool"
  sys_getenv :: "string \<Rightarrow> string option"
  sys_strerror :: "errc \<Rightarrow> string"
  sys_progname :: "string option"
  sys_hardware_concurrency :: nat

text \<open>The system on which every call fails: the record that the examples update.\<close>

definition null_sys :: "'w sys" where
  "null_sys = \<lparr>
     sys_platform = Linux,
     sys_getrlimit = (\<lambda>w. Inl EIO),
     sys_setrlimit = (\<lambda>l w. (Some EIO, w)),
     sys_maxfilesperproc = (\<lambda>w. Inl EIO),
     sys_open = (\<lambda>p f w. (Inl EIO, w)),
     sys_openat = (\<lambda>d p f w. (Inl EIO, w)),
     sys_close = (\<lambda>d w. w),
     sys_lstat = (\<lambda>p w. (Inl EIO, w)),
     sys_fstatat = (\<lambda>d p w. (Inl EIO, w)),
     sys_unlink = (\<lambda>p w. (Some EIO, w)),
     sys_rmdir = (\<lambda>p w. (Some EIO, w)),
     sys_unlinkat = (\<lambda>d p r w. (Some EIO, w)),
     sys_getdents = (\<lambda>d n w. (Inl EIO, w)),
     sys_read = (\<lambda>d n w. (Inl EIO, w)),
     sys_writev = (\<lambda>d ps w. (Inl EIO, w)),
     sys_geteuid = (\<lambda>w. 0),
     sys_isatty = (\<lambda>d w. False),
     sys_getenv = (\<lambda>v. None),
     sys_strerror = (\<lambda>e. []),
     sys_progname = None,
     sys_hardware_concurrency = 1\<rparr>"

end
