(* ===== verification/Fd_Limits.thy ===== *)
theory Fd_Limits
  imports Syscalls
begin

unbundle bit_operations_syntax

section \<open>The pool of file descriptors\<close>

text \<open>
  \<open>cutils/os/limits/fd.hpp\<close> and \<open>fd.cpp\<close>: the soft limit on descriptors, and the pool that
  counts the descriptors the process leases against it. The count of live leases and the
  count of releases (the epoch) share one 64-bit atomic; every operation is a single
  \<open>fetch_add\<close> or \<open>fetch_sub\<close> on it.
\<close>

subsection \<open>The packed lease counter\<close>

record leases =
  live :: u32
  epoch :: u32

definition k_acquire :: u64 where "k_acquire = 1"
definition k_release :: u64 where "k_release = push_bit 32 1 - k_acquire"

definition unpack :: "u64 \<Rightarrow> leases" where
  "unpack bits = \<lparr>live = ucast bits, epoch = ucast (drop_bit 32 bits)\<rparr>"

definition leases_acquire :: "u64 \<Rightarrow> leases \<times> u64" where
  "leases_acquire bits = (unpack bits, bits + k_acquire)"

definition leases_release :: "u64 \<Rightarrow> u64" where
  "leases_release bits = bits + k_release"

definition leases_forget :: "u64 \<Rightarrow> u64" where
  "leases_forget bits = bits - k_acquire"

subsection \<open>The limit\<close>

definition max_files_per_proc :: "'w sys \<Rightarrow> 'w \<Rightarrow> (u64, errc) expected" where
  "max_files_per_proc sys w =
     (case sys_platform sys of
        Linux \<Rightarrow> Inr (- 1)
      | Darwin \<Rightarrow>
          (case sys_maxfilesperproc sys w of
             Inl e \<Rightarrow> Inl e
           | Inr v \<Rightarrow> if v \<le> 0 then Inl EINVAL else Inr (word_of_int v)))"

definition get_limit :: "'w sys \<Rightarrow> 'w \<Rightarrow> (u64, errc) expected" where
  "get_limit sys w =
     (case sys_getrlimit sys w of
        Inl e \<Rightarrow> Inl e
      | Inr current \<Rightarrow>
          (case max_files_per_proc sys w of
             Inl e \<Rightarrow> Inl e
           | Inr cap \<Rightarrow> Inr (min (rlim_cur current) cap)))"

definition set_limit :: "'w sys \<Rightarrow> u64 \<Rightarrow> 'w \<Rightarrow> (unit, errc) expected \<times> 'w" where
  "set_limit sys soft w =
     (case sys_getrlimit sys w of
        Inl e \<Rightarrow> (Inl e, w)
      | Inr current \<Rightarrow>
          (case sys_setrlimit sys (current\<lparr>rlim_cur := soft\<rparr>) w of
             (Some e, w') \<Rightarrow> (Inl e, w')
           | (None, w') \<Rightarrow> (Inr (), w')))"

definition set_max :: "'w sys \<Rightarrow> 'w \<Rightarrow> (u64, errc) expected \<times> 'w" where
  "set_max sys w =
     (case sys_getrlimit sys w of
        Inl e \<Rightarrow> (Inl e, w)
      | Inr current \<Rightarrow>
          (case max_files_per_proc sys w of
             Inl e \<Rightarrow> (Inl e, w)
           | Inr cap \<Rightarrow>
               (let target = min (rlim_max current) cap
                in case set_limit sys target w of
                     (Inl e, w') \<Rightarrow> (Inl e, w')
                   | (Inr _, w') \<Rightarrow> (Inr target, w'))))"

subsection \<open>The pool\<close>

text \<open>The file's global variables.\<close>

record pool =
  bits :: u64
  known_capacity :: u64
  observed_ceiling :: u64
  raise_attempted :: bool

definition initial_pool :: pool where
  "initial_pool = \<lparr>bits = 0, known_capacity = 0, observed_ceiling = 0, raise_attempted = False\<rparr>"

definition capacity_impl :: "'w sys \<Rightarrow> pool \<Rightarrow> 'w \<Rightarrow> u64 \<times> pool" where
  "capacity_impl sys p w =
     (let cached = known_capacity p
      in if cached = 0 then
           (let cached = value_or (get_limit sys w) 0 in (cached, p\<lparr>known_capacity := cached\<rparr>))
         else (cached, p))"

definition raise_if_needed :: "'w sys \<Rightarrow> u64 \<Rightarrow> pool \<Rightarrow> 'w \<Rightarrow> pool \<times> 'w" where
  "raise_if_needed sys live' p w =
     (case capacity_impl sys p w of (capacity, p) \<Rightarrow>
        if capacity = 0 \<or> live' * 100 < capacity * 50 then (p, w)
        else if raise_attempted p then (p, w)
        else
          (let p = p\<lparr>raise_attempted := True\<rparr>
           in case set_max sys w of
                (Inl _, w') \<Rightarrow> (p, w')
              | (Inr raised, w') \<Rightarrow> (p\<lparr>known_capacity := raised, observed_ceiling := 0\<rparr>, w')))"

definition pool_capacity :: "'w sys \<Rightarrow> pool \<Rightarrow> 'w \<Rightarrow> u64 \<times> pool" where
  "pool_capacity sys p w = capacity_impl sys p w"

definition pool_exhausted :: "pool \<Rightarrow> bool" where
  "pool_exhausted p \<longleftrightarrow>
     observed_ceiling p \<noteq> 0 \<and> observed_ceiling p \<le> ucast (live (unpack (bits p)))"

subsection \<open>Reservations\<close>

record reservation =
  before :: leases
  armed :: bool

definition pool_reserve :: "'w sys \<Rightarrow> pool \<Rightarrow> 'w \<Rightarrow> reservation \<times> pool \<times> 'w" where
  "pool_reserve sys p w =
     (case leases_acquire (bits p) of (b, bits') \<Rightarrow>
      case raise_if_needed sys (ucast (live b) + 1) (p\<lparr>bits := bits'\<rparr>) w of (p', w') \<Rightarrow>
        (\<lparr>before = b, armed = True\<rparr>, p', w'))"

definition pool_release :: "pool \<Rightarrow> pool" where
  "pool_release p = p\<lparr>bits := leases_release (bits p)\<rparr>"

definition pool_forget :: "pool \<Rightarrow> pool" where
  "pool_forget p = p\<lparr>bits := leases_forget (bits p)\<rparr>"

definition reservation_destroy :: "reservation \<Rightarrow> pool \<Rightarrow> pool" where
  "reservation_destroy r p = (if armed r then pool_forget p else p)"

definition reservation_claim :: "reservation \<Rightarrow> reservation" where
  "reservation_claim r = r\<lparr>armed := False\<rparr>"

text \<open>
  The ceiling is lowered by a compare-and-swap loop that retries until it wins or another
  thread has lowered it further: an atomic minimum, with 0 for "none observed".
\<close>

definition lower_ceiling :: "u64 \<Rightarrow> pool \<Rightarrow> pool" where
  "lower_ceiling held p =
     (if observed_ceiling p = 0 \<or> held < observed_ceiling p
      then p\<lparr>observed_ceiling := held\<rparr> else p)"

definition reservation_refused :: "reservation \<Rightarrow> pool \<Rightarrow> bool \<times> reservation \<times> pool" where
  "reservation_refused r p =
     (let r' = r\<lparr>armed := False\<rparr>;
          p1 = pool_forget p;
          held = ucast (live (before r));
          p2 = (if held \<noteq> 0 then lower_ceiling held p1 else p1);
          now = unpack (bits p2)
      in (live now \<noteq> 0 \<or> epoch now \<noteq> epoch (before r), r', p2))"

subsection \<open>The counter as a pair\<close>

text \<open>\<open>packed l e\<close>: \<open>l\<close> leases are live and \<open>e\<close> have been released.\<close>

definition packed :: "nat \<Rightarrow> nat \<Rightarrow> u64" where
  "packed l e = of_nat (l + 2 ^ 32 * e)"

lemma k_release_eq: "k_release = of_nat (2 ^ 32) - 1"
  by (simp add: k_release_def k_acquire_def)

lemma packed_acquire [simp]: "packed l e + k_acquire = packed (Suc l) e"
  by (simp add: packed_def k_acquire_def)

lemma packed_release [simp]: "0 < l \<Longrightarrow> packed l e + k_release = packed (l - 1) (Suc e)"
  by (cases l) (simp_all add: packed_def k_release_eq algebra_simps)

lemma packed_forget [simp]: "0 < l \<Longrightarrow> packed l e - k_acquire = packed (l - 1) e"
  by (cases l) (simp_all add: packed_def k_acquire_def)

lemma unat_packed:
  assumes "l < 2 ^ 32"
  shows "unat (packed l e) = l + 2 ^ 32 * (e mod 2 ^ 32)"
proof -
  have "unat (packed l e) = (l + 2 ^ 32 * e) mod 2 ^ 64"
    unfolding packed_def by (simp only: unat_of_nat word_size) simp
  also have "\<dots> = (l + 2 ^ 32 * (e mod 2 ^ 32)) mod 2 ^ 64"
  proof -
    have "2 ^ 32 * e mod 2 ^ 64 = 2 ^ 32 * (e mod 2 ^ 32)"
      by (simp add: mult_mod_right)
    moreover have "(l + 2 ^ 32 * e) mod 2 ^ 64 = (l + (2 ^ 32 * e mod 2 ^ 64)) mod 2 ^ 64"
      by (simp only: mod_add_right_eq)
    ultimately show ?thesis by (simp only:)
  qed
  also have "\<dots> = l + 2 ^ 32 * (e mod 2 ^ 32)"
  proof -
    define m where "m = e mod 2 ^ 32"
    have "m < 4294967296" by (simp add: m_def)
    with assms have "l + 4294967296 * m < 18446744073709551616" by simp
    then have "l + 2 ^ 32 * (e mod 2 ^ 32) < 2 ^ 64" by (simp add: m_def)
    then show ?thesis by simp
  qed
  finally show ?thesis .
qed

lemma unpack_packed:
  assumes "l < 2 ^ 32"
  shows "unpack (packed l e) = \<lparr>live = of_nat l, epoch = of_nat e\<rparr>"
proof -
  let ?x = "packed l e"
  have "(ucast ?x :: u32) = of_nat (l + 2 ^ 32 * (e mod 2 ^ 32))"
    by (metis unat_packed [OF assms] of_nat_unat)
  then have live: "(ucast ?x :: u32) = of_nat l"
    by (simp add: word_of_nat_eq_iff take_bit_eq_mod del: of_nat_add of_nat_mult)
  have "unat (drop_bit 32 ?x) = e mod 2 ^ 32"
    using assms by (simp add: unat_drop_bit_eq unat_packed) (simp add: drop_bit_eq_div)
  then have "(ucast (drop_bit 32 ?x) :: u32) = of_nat (e mod 2 ^ 32)"
    by (metis of_nat_unat)
  then have "(ucast (drop_bit 32 ?x) :: u32) = of_nat e"
    by (simp add: word_of_nat_eq_iff take_bit_eq_mod)
  with live show ?thesis by (simp add: unpack_def)
qed

subsection \<open>Interleaved operations\<close>

text \<open>
  The operations of all threads on the counter are a sequence of atomic updates.
  \<open>tally\<close> counts live leases and releases without wrap-around and is \<^const>\<open>None\<close> where a
  lease would be given back that nobody holds, or the live count would reach \<open>2 ^ 32\<close>.
\<close>

datatype lease_op = Acquire | Release | Forget

fun apply_lease_op :: "u64 \<Rightarrow> lease_op \<Rightarrow> u64" where
  "apply_lease_op b Acquire = snd (leases_acquire b)"
| "apply_lease_op b Release = leases_release b"
| "apply_lease_op b Forget = leases_forget b"

fun tally :: "nat \<Rightarrow> nat \<Rightarrow> lease_op list \<Rightarrow> (nat \<times> nat) option" where
  "tally l e [] = Some (l, e)"
| "tally l e (Acquire # ops) = (if Suc l < 2 ^ 32 then tally (Suc l) e ops else None)"
| "tally l e (Release # ops) = (if l = 0 then None else tally (l - 1) (Suc e) ops)"
| "tally l e (Forget # ops) = (if l = 0 then None else tally (l - 1) e ops)"

lemma tally_packed:
  "tally l e ops = Some (l', e') \<Longrightarrow>
     foldl apply_lease_op (packed l e) ops = packed l' e' \<and> (l < 2 ^ 32 \<longrightarrow> l' < 2 ^ 32)"
  by (induction l e ops rule: tally.induct)
    (auto simp: leases_acquire_def leases_release_def leases_forget_def split: if_splits)

lemma tally_releases: "tally l e ops = Some (l', e') \<Longrightarrow> e' = e + count_list ops Release"
  by (induction l e ops rule: tally.induct) (auto split: if_splits)

lemma tally_live:
  "tally l e ops = Some (l', e') \<Longrightarrow>
     l' + count_list ops Release + count_list ops Forget = l + count_list ops Acquire"
  by (induction l e ops rule: tally.induct) (auto split: if_splits)

subsection \<open>A refused open\<close>

lemma of_nat_u32_eq_0: "l < 2 ^ 32 \<Longrightarrow> (of_nat l :: u32) = 0 \<longleftrightarrow> l = 0"
  by (simp add: word_of_nat_eq_0_iff dvd_def) (metis le_add1 mult_0_right mult_Suc_right not0_implies_Suc not_le)

lemma of_nat_u32_eq_add:
  "k < 2 ^ 32 \<Longrightarrow> (of_nat (e + k) :: u32) = of_nat e \<longleftrightarrow> k = 0"
  using of_nat_u32_eq_0 [of k] by simp

lemma refused_packed:
  assumes "bits p = packed l e" and "0 < l" and "l < 2 ^ 32"
    and "reservation_refused r p = (retry, r', p')"
  shows "bits p' = packed (l - 1) e" and "\<not> armed r'"
    and "retry \<longleftrightarrow> of_nat (l - 1) \<noteq> (0 :: u32) \<or> of_nat e \<noteq> epoch (before r)"
proof -
  from assms have "unpack (packed (l - 1) e) = \<lparr>live = of_nat (l - 1), epoch = of_nat e\<rparr>"
    by (intro unpack_packed) simp
  with assms show "bits p' = packed (l - 1) e" and "\<not> armed r'"
    and "retry \<longleftrightarrow> of_nat (l - 1) \<noteq> (0 :: u32) \<or> of_nat e \<noteq> epoch (before r)"
    by (auto simp: reservation_refused_def lower_ceiling_def pool_forget_def leases_forget_def
        Let_def split: if_splits)
qed

lemma refused_verdict:
  assumes "bits p = packed l0 e0" and "l0 < 2 ^ 32"
    and "tally (Suc l0) e0 ops = Some (l, e)" and "0 < l" and "Suc l0 < 2 ^ 32"
    and "count_list ops Release < 2 ^ 32"
    and "bits q = foldl apply_lease_op (packed (Suc l0) e0) ops"
    and "reservation_refused \<lparr>before = unpack (bits p), armed = True\<rparr> q = (retry, r', q')"
  shows "retry \<longleftrightarrow> 1 < l \<or> Release \<in> set ops"
proof -
  from assms(3,5,7) have q: "bits q = packed l e" "l < 2 ^ 32"
    using tally_packed by auto
  have e: "e = e0 + count_list ops Release" using assms(3) by (rule tally_releases)
  have "epoch (before \<lparr>before = unpack (bits p), armed = True\<rparr>) = of_nat e0"
    using assms(1,2) by (simp add: unpack_packed)
  with refused_packed(3) [OF q(1) assms(4) q(2) assms(8)]
  have "retry \<longleftrightarrow> (of_nat (l - 1) :: u32) \<noteq> 0 \<or> (of_nat e :: u32) \<noteq> of_nat e0" by simp
  also have "\<dots> \<longleftrightarrow> l - 1 \<noteq> 0 \<or> count_list ops Release \<noteq> 0"
    using of_nat_u32_eq_0 [of "l - 1"] of_nat_u32_eq_add [OF assms(6), of e0] q(2) e by simp
  finally show ?thesis by (auto simp: count_list_0_iff)
qed

lemma ucast_u32_eq_0: "(ucast (x :: u32) :: u64) = 0 \<longleftrightarrow> x = 0"
  by transfer (simp add: take_bit_take_bit)

lemma exhausted_after_refusal:
  assumes "reservation_refused r p = (retry, r', p')" and "live (before r) \<noteq> 0"
  shows "observed_ceiling p' \<noteq> 0" and "observed_ceiling p' \<le> ucast (live (before r))"
    and "observed_ceiling p \<noteq> 0 \<Longrightarrow> observed_ceiling p' \<le> observed_ceiling p"
proof -
  have "(ucast (live (before r)) :: u64) \<noteq> 0"
    using assms(2) by (simp add: ucast_u32_eq_0)
  with assms(1) show "observed_ceiling p' \<noteq> 0" and "observed_ceiling p' \<le> ucast (live (before r))"
    and "observed_ceiling p \<noteq> 0 \<Longrightarrow> observed_ceiling p' \<le> observed_ceiling p"
    by (auto simp: reservation_refused_def lower_ceiling_def pool_forget_def Let_def
        split: if_splits)
qed

subsection \<open>Raising the limit\<close>

lemma capacity_impl_bits: "capacity_impl sys p w = (c, p') \<Longrightarrow>
  bits p' = bits p \<and> raise_attempted p' = raise_attempted p \<and> observed_ceiling p' = observed_ceiling p"
  by (auto simp: capacity_impl_def Let_def split: if_splits)

lemma raise_bits: "raise_if_needed sys n p w = (p', w') \<Longrightarrow> bits p' = bits p"
  by (auto simp: raise_if_needed_def Let_def dest!: capacity_impl_bits
      split: prod.splits if_splits sum.splits)

lemma raise_cases:
  assumes "raise_if_needed sys n p w = (p', w')"
  shows "(w' = w \<and> observed_ceiling p' = observed_ceiling p \<and> raise_attempted p' = raise_attempted p) \<or>
    (\<not> raise_attempted p \<and> raise_attempted p' \<and>
     ((\<exists>e. set_max sys w = (Inl e, w') \<and> observed_ceiling p' = observed_ceiling p) \<or>
      (set_max sys w = (Inr (known_capacity p'), w') \<and> observed_ceiling p' = 0)))"
  using assms
  by (auto simp: raise_if_needed_def Let_def dest!: capacity_impl_bits
      split: prod.splits if_splits sum.splits)

lemma set_max_Inr:
  assumes "set_max sys w = (Inr target, w')"
  shows "\<exists>current cap. sys_getrlimit sys w = Inr current \<and> max_files_per_proc sys w = Inr cap \<and>
    target = min (rlim_max current) cap \<and>
    sys_setrlimit sys (current\<lparr>rlim_cur := target\<rparr>) w = (None, w')"
  using assms
  by (auto simp: set_max_def set_limit_def Let_def split: sum.splits prod.splits option.splits)

subsection \<open>Properties\<close>

text \<open>
  Whatever the threads do to the packed counter, in any interleaving, it reads as the
  exact number of live leases and the number of releases modulo \<open>2 ^ 32\<close>: a lease given back
  never borrows from the epoch and a lease taken never carries into it.
\<close>

theorem lease_counter_exact:
  assumes "tally 0 0 ops = Some (l, e)"
  shows "unpack (foldl apply_lease_op 0 ops) = \<lparr>live = of_nat l, epoch = of_nat e\<rparr> \<and>
    l + count_list ops Release + count_list ops Forget = count_list ops Acquire \<and>
    e = count_list ops Release"
proof -
  have "foldl apply_lease_op 0 ops = packed l e \<and> l < 2 ^ 32"
    using tally_packed [OF assms] by (simp add: packed_def)
  with tally_live [OF assms] tally_releases [OF assms] show ?thesis
    by (simp add: unpack_packed)
qed

theorem lease_counter_exact_witness:
  "unpack (foldl apply_lease_op 0 [Acquire, Acquire, Release]) = \<lparr>live = of_nat 1, epoch = of_nat 1\<rparr> \<and>
    1 + count_list [Acquire, Acquire, Release] Release +
      count_list [Acquire, Acquire, Release] Forget =
      count_list [Acquire, Acquire, Release] Acquire \<and>
    1 = count_list [Acquire, Acquire, Release] Release"
  by (rule lease_counter_exact) simp

text \<open>
  C26: an open that was refused for lack of descriptors is reported as retryable exactly
  when another lease of the process is live at that moment or one was released since the
  reservation was made, so that a descriptor of ours may have held, or may free, the slot.
  The epoch only counts modulo \<open>2 ^ 32\<close>, hence the bound on the releases in between.
\<close>

theorem refused_is_retryable:
  assumes "bits p = packed l0 e0" and "Suc l0 < 2 ^ 32"
    and "tally (Suc l0) e0 ops = Some (l, e)" and "0 < l"
    and "count_list ops Release < 2 ^ 32"
    and "bits q = foldl apply_lease_op (packed (Suc l0) e0) ops"
    and "reservation_refused \<lparr>before = unpack (bits p), armed = True\<rparr> q = (retry, r', q')"
  shows "(retry \<longleftrightarrow> 1 < l \<or> Release \<in> set ops) \<and> \<not> armed r'"
proof -
  have l0: "l0 < 2 ^ 32" using assms(2) by simp
  from assms(7) have "\<not> armed r'" by (auto simp: reservation_refused_def Let_def)
  with refused_verdict [OF assms(1) l0 assms(3,4,2,5,6,7)] show ?thesis by simp
qed

theorem refused_is_retryable_witness:
  "\<exists>retry r' q'. reservation_refused \<lparr>before = unpack (bits initial_pool), armed = True\<rparr>
       (initial_pool\<lparr>bits := foldl apply_lease_op (packed (Suc 0) 0) [Acquire, Release]\<rparr>)
       = (retry, r', q') \<and>
     (retry \<longleftrightarrow> (1::nat) < 1 \<or> Release \<in> set [Acquire, Release]) \<and> \<not> armed r'"
proof -
  obtain retry r' q' where r: "reservation_refused \<lparr>before = unpack (bits initial_pool), armed = True\<rparr>
       (initial_pool\<lparr>bits := foldl apply_lease_op (packed (Suc 0) 0) [Acquire, Release]\<rparr>)
       = (retry, r', q')" using prod_cases3 by blast
  have "(retry \<longleftrightarrow> (1::nat) < 1 \<or> Release \<in> set [Acquire, Release]) \<and> \<not> armed r'"
    using refused_is_retryable [of initial_pool 0 0 "[Acquire, Release]" 1 1
        "initial_pool\<lparr>bits := foldl apply_lease_op (packed (Suc 0) 0) [Acquire, Release]\<rparr>"
        retry r' q'] r
    by (simp add: initial_pool_def packed_def)
  with r show ?thesis by blast
qed

text \<open>
  A refusal with other leases outstanding records a ceiling no higher than what was
  held and never raises the ceiling already observed.
\<close>

theorem refusal_lowers_ceiling:
  assumes "reservation_refused r p = (retry, r', p')" and "live (before r) \<noteq> 0"
  shows "observed_ceiling p' \<noteq> 0 \<and> observed_ceiling p' \<le> ucast (live (before r)) \<and>
    (observed_ceiling p = 0 \<or> observed_ceiling p' \<le> observed_ceiling p)"
  using exhausted_after_refusal [OF assms] by blast

theorem refusal_lowers_ceiling_witness:
  "\<exists>retry r' p'. reservation_refused \<lparr>before = \<lparr>live = 7, epoch = 0\<rparr>, armed = True\<rparr>
      (initial_pool\<lparr>bits := 8\<rparr>) = (retry, r', p') \<and>
    (observed_ceiling p' \<noteq> 0 \<and> observed_ceiling p' \<le> ucast (7 :: u32) \<and>
     (observed_ceiling (initial_pool\<lparr>bits := 8\<rparr>) = 0 \<or>
      observed_ceiling p' \<le> observed_ceiling (initial_pool\<lparr>bits := 8\<rparr>)))"
proof -
  obtain retry r' p' where r: "reservation_refused \<lparr>before = \<lparr>live = 7, epoch = 0\<rparr>, armed = True\<rparr>
      (initial_pool\<lparr>bits := 8\<rparr>) = (retry, r', p')" using prod_cases3 by blast
  from refusal_lowers_ceiling [OF r] show ?thesis using r by auto
qed

text \<open>
  Reserving a descriptor touches the system's limit at most once in the life of the
  pool, and a raise that succeeds sets the soft limit to the lesser of the hard limit and
  the per-process ceiling and forgets the ceiling observed before.
\<close>

theorem raise_at_most_once:
  assumes "raise_if_needed sys n p w = (p', w')"
  shows "bits p' = bits p \<and>
    ((w' = w \<and> observed_ceiling p' = observed_ceiling p) \<or>
     (\<not> raise_attempted p \<and> raise_attempted p' \<and>
      (observed_ceiling p' = observed_ceiling p \<or>
       (observed_ceiling p' = 0 \<and>
        (\<exists>current cap. sys_getrlimit sys w = Inr current \<and> max_files_per_proc sys w = Inr cap \<and>
           known_capacity p' = min (rlim_max current) cap \<and>
           sys_setrlimit sys (current\<lparr>rlim_cur := known_capacity p'\<rparr>) w = (None, w'))))))"
  using raise_bits [OF assms] raise_cases [OF assms] set_max_Inr by metis

theorem raise_at_most_once_witness:
  "\<exists>p' w'. raise_if_needed
      (null_sys\<lparr>sys_platform := Linux, sys_getrlimit := (\<lambda>w. Inr \<lparr>rlim_cur = w, rlim_max = 4096\<rparr>),
         sys_setrlimit := (\<lambda>l w. (None, rlim_cur l))\<rparr>) 200 initial_pool (256 :: u64) = (p', w') \<and>
     w' \<noteq> 256 \<and> raise_attempted p'"
proof -
  let ?sys = "null_sys\<lparr>sys_platform := Linux,
    sys_getrlimit := (\<lambda>w. Inr \<lparr>rlim_cur = w, rlim_max = 4096\<rparr>),
    sys_setrlimit := (\<lambda>l w. (None, rlim_cur l))\<rparr> :: u64 sys"
  obtain p' w' where r: "raise_if_needed ?sys 200 initial_pool 256 = (p', w')" by fastforce
  then have "w' = 4096"
    by (simp add: raise_if_needed_def capacity_impl_def get_limit_def max_files_per_proc_def
        set_max_def set_limit_def initial_pool_def Let_def min_def)
  with raise_at_most_once [OF r] r show ?thesis by auto
qed

end
