(* ===== verification/Fd.thy ===== *)
theory Fd
  imports Fd_Limits
begin

section \<open>Owned file descriptors\<close>

text \<open>
  \<open>cutils/os/fd.hpp\<close>: the class \<open>Fd\<close>, which owns a descriptor, closes it and counts it
  against the pool, and its niche-optimised \<open>std::optional\<close>. An \<open>Fd\<close> object is the value of
  its only member; an operation takes and returns the objects it changes, the pool and the
  world.
\<close>

type_synonym fd = int

definition k_invalid :: fd where "k_invalid = - 1"
definition k_reserved :: fd where "k_reserved = - (2 ^ 31)"

record open_error =
  oe_code :: errc
  oe_retryable :: bool

lemma k_invalid_neg [simp]: "\<not> 0 \<le> k_invalid" "k_invalid < 0" "k_invalid \<noteq> k_reserved"
  and k_reserved_neg [simp]: "\<not> 0 \<le> k_reserved" "k_reserved < 0"
  by (simp_all add: k_invalid_def k_reserved_def)

subsection \<open>Fd\<close>

definition fd_is_open :: "fd \<Rightarrow> bool" where
  "fd_is_open d \<longleftrightarrow> d \<ge> 0"

definition fd_open ::
  "'w sys \<Rightarrow> ('w \<Rightarrow> (nat, errc) expected \<times> 'w) \<Rightarrow> pool \<Rightarrow> 'w
    \<Rightarrow> (fd, open_error) expected \<times> pool \<times> 'w" where
  "fd_open sys open_fn p w =
     (case pool_reserve sys p w of (r, p, w) \<Rightarrow>
      case open_fn w of
        (Inr descriptor, w) \<Rightarrow>
          (let r = reservation_claim r
           in (Inr (int descriptor), reservation_destroy r p, w))
      | (Inl code, w) \<Rightarrow>
          (let out_of_descriptors = code = EMFILE \<or> code = ENFILE
           in if out_of_descriptors then
                (case reservation_refused r p of (refused, r, p) \<Rightarrow>
                   (Inl \<lparr>oe_code = code, oe_retryable = refused\<rparr>, reservation_destroy r p, w))
              else (Inl \<lparr>oe_code = code, oe_retryable = False\<rparr>, reservation_destroy r p, w)))"

definition fd_close :: "'w sys \<Rightarrow> fd \<Rightarrow> pool \<Rightarrow> 'w \<Rightarrow> fd \<times> pool \<times> 'w" where
  "fd_close sys d p w =
     (if d \<ge> 0 then (k_invalid, pool_release p, sys_close sys d w) else (k_invalid, p, w))"

definition fd_release :: "fd \<Rightarrow> pool \<Rightarrow> int \<times> fd \<times> pool" where
  "fd_release d p = (d, k_invalid, if d \<ge> 0 then pool_forget p else p)"

definition fd_move :: "fd \<Rightarrow> fd \<times> fd" where
  "fd_move other = (other, k_invalid)"

text \<open>Move assignment between two objects; assigning an object to itself does nothing.\<close>

definition fd_move_assign :: "'w sys \<Rightarrow> fd \<Rightarrow> fd \<Rightarrow> pool \<Rightarrow> 'w \<Rightarrow> fd \<times> fd \<times> pool \<times> 'w" where
  "fd_move_assign sys self other p w =
     (case fd_close sys self p w of (_, p, w) \<Rightarrow> (other, k_invalid, p, w))"

definition fd_destroy :: "'w sys \<Rightarrow> fd \<Rightarrow> pool \<Rightarrow> 'w \<Rightarrow> pool \<times> 'w" where
  "fd_destroy sys d p w = (case fd_close sys d p w of (_, p, w) \<Rightarrow> (p, w))"

definition os_open :: "'w sys \<Rightarrow> string \<Rightarrow> oflags \<Rightarrow> pool \<Rightarrow> 'w
    \<Rightarrow> (fd, open_error) expected \<times> pool \<times> 'w" where
  "os_open sys path flags = fd_open sys (sys_open sys path flags)"

definition os_openat :: "'w sys \<Rightarrow> fd \<Rightarrow> string \<Rightarrow> oflags \<Rightarrow> pool \<Rightarrow> 'w
    \<Rightarrow> (fd, open_error) expected \<times> pool \<times> 'w" where
  "os_openat sys dir name flags = fd_open sys (sys_openat sys dir name flags)"

subsection \<open>Leases of single operations\<close>

lemma pool_reserve_packed:
  assumes "bits p = packed l e" and "pool_reserve sys p w = (r, p', w')"
  shows "bits p' = packed (Suc l) e" and "armed r" and "before r = unpack (packed l e)"
  using assms
  by (auto simp: pool_reserve_def leases_acquire_def dest!: raise_bits split: prod.splits)

lemma reservation_destroy_packed:
  "bits p = packed l e \<Longrightarrow> 0 < l \<Longrightarrow>
     bits (reservation_destroy r p) = packed (if armed r then l - 1 else l) e"
  by (simp add: reservation_destroy_def pool_forget_def leases_forget_def)

lemma fd_open_packed:
  assumes p: "bits p = packed l e" and l: "Suc l < 2 ^ 32"
    and o: "fd_open sys open_fn p w = (res, p', w')"
  shows "bits p' = packed (case res of Inr _ \<Rightarrow> Suc l | Inl _ \<Rightarrow> l) e"
proof -
  obtain r p1 w1 where r: "pool_reserve sys p w = (r, p1, w1)" by (metis prod_cases3)
  note res = pool_reserve_packed [OF p r]
  obtain ans w2 where a: "open_fn w1 = (ans, w2)" by fastforce
  show ?thesis
  proof (cases ans)
    case (Inr d)
    with o r a res show ?thesis
      by (auto simp: fd_open_def reservation_claim_def reservation_destroy_def)
  next
    case (Inl code)
    obtain refused r' p2 where ref: "reservation_refused r p1 = (refused, r', p2)"
      by (metis prod_cases3)
    from refused_packed(1,2) [OF res(1) _ l ref] have "bits p2 = packed l e" "\<not> armed r'" by auto
    with o r a Inl ref res show ?thesis
      by (auto simp: fd_open_def reservation_destroy_def pool_forget_def leases_forget_def Let_def
          split: if_splits)
  qed
qed

lemma fd_open_Inr_nonneg: "fd_open sys open_fn p w = (Inr d, p', w') \<Longrightarrow> 0 \<le> d"
  by (auto simp: fd_open_def Let_def split: prod.splits sum.splits if_splits)

lemma fd_close_packed:
  assumes "bits p = packed l e" and "0 \<le> d \<longrightarrow> 0 < l" and "fd_close sys d p w = (d', p', w')"
  shows "bits p' = packed (if 0 \<le> d then l - 1 else l) (if 0 \<le> d then Suc e else e)"
    and "d' = k_invalid"
  using assms by (auto simp: fd_close_def pool_release_def leases_release_def split: if_splits)

lemma fd_release_packed:
  assumes "bits p = packed l e" and "0 \<le> d \<longrightarrow> 0 < l" and "fd_release d p = (n, d', p')"
  shows "bits p' = packed (if 0 \<le> d then l - 1 else l) e" and "d' = k_invalid" and "n = d"
  using assms by (auto simp: fd_release_def pool_forget_def leases_forget_def split: if_splits)

subsection \<open>Any number of objects\<close>

text \<open>
  The \<open>Fd\<close> objects of a program as a list of cells, and what can happen to them: a
  temporary is opened and move-assigned into a cell, a cell is closed, moved into another
  one, or gives its descriptor up.
\<close>

datatype 'w fd_op =
    OpOpen nat "'w \<Rightarrow> (nat, errc) expected \<times> 'w"
  | OpClose nat
  | OpMove nat nat
  | OpRelease nat

fun fd_step :: "'w sys \<Rightarrow> 'w fd_op \<Rightarrow> fd list \<times> pool \<times> 'w \<Rightarrow> fd list \<times> pool \<times> 'w" where
  "fd_step sys (OpOpen i open_fn) (cells, p, w) =
     (if i < length cells then
        (case fd_open sys open_fn p w of
           (Inl _, p, w) \<Rightarrow> (cells, p, w)
         | (Inr tmp, p, w) \<Rightarrow>
             (case fd_move_assign sys (cells ! i) tmp p w of
                (d, _, p, w) \<Rightarrow> (cells[i := d], p, w)))
      else (cells, p, w))"
| "fd_step sys (OpClose i) (cells, p, w) =
     (if i < length cells then
        (case fd_close sys (cells ! i) p w of (d, p, w) \<Rightarrow> (cells[i := d], p, w))
      else (cells, p, w))"
| "fd_step sys (OpMove i j) (cells, p, w) =
     (if i < length cells \<and> j < length cells \<and> i \<noteq> j then
        (case fd_move_assign sys (cells ! j) (cells ! i) p w of
           (d, d', p, w) \<Rightarrow> (cells[j := d, i := d'], p, w))
      else (cells, p, w))"
| "fd_step sys (OpRelease i) (cells, p, w) =
     (if i < length cells then
        (case fd_release (cells ! i) p of (_, d, p) \<Rightarrow> (cells[i := d], p, w))
      else (cells, p, w))"

definition open_cells :: "fd list \<Rightarrow> nat" where
  "open_cells cells = length (filter fd_is_open cells)"

definition leases_match :: "fd list \<Rightarrow> pool \<Rightarrow> bool" where
  "leases_match cells p \<longleftrightarrow> (\<exists>e. bits p = packed (open_cells cells) e)"

lemma open_cells_update:
  assumes "i < length cells"
  shows "open_cells (cells[i := d]) + of_bool (fd_is_open (cells ! i)) =
    open_cells cells + of_bool (fd_is_open d)"
  using assms
proof (induction cells arbitrary: i)
  case (Cons c cells)
  then show ?case by (cases i) (auto simp: open_cells_def)
qed (simp add: open_cells_def)

lemma open_cells_le: "open_cells cells \<le> length cells"
  by (simp add: open_cells_def)

lemma open_cells_pos: "i < length cells \<Longrightarrow> 0 \<le> cells ! i \<Longrightarrow> 0 < open_cells cells"
  by (auto simp: open_cells_def fd_is_open_def filter_empty_conv intro!: length_pos_if_in_set)

lemma fd_close_cell:
  assumes "leases_match cells p" and "i < length cells"
    and "fd_close sys (cells ! i) p w = (d, p', w')"
  shows "leases_match (cells[i := k_invalid]) p'" and "d = k_invalid"
proof -
  from assms(1) obtain e where e: "bits p = packed (open_cells cells) e"
    by (auto simp: leases_match_def)
  have pos: "0 \<le> cells ! i \<longrightarrow> 0 < open_cells cells" using open_cells_pos assms(2) by blast
  note c = fd_close_packed [OF e pos assms(3)]
  have "open_cells (cells[i := k_invalid]) = (if 0 \<le> cells ! i then open_cells cells - 1 else open_cells cells)"
    using open_cells_update [OF assms(2), of k_invalid] pos by (auto simp: fd_is_open_def)
  with c(1) show "leases_match (cells[i := k_invalid]) p'"
    unfolding leases_match_def by metis
  show "d = k_invalid" by (rule c(2))
qed

lemma fd_step_leases:
  assumes m: "leases_match cells p" and len: "Suc (length cells) < 2 ^ 32"
    and st: "fd_step sys op (cells, p, w) = (cells', p', w')"
  shows "leases_match cells' p' \<and> length cells' = length cells"
proof (cases op)
  case (OpOpen i open_fn)
  show ?thesis
  proof (cases "i < length cells")
    case True
    from m obtain e where e: "bits p = packed (open_cells cells) e" by (auto simp: leases_match_def)
    obtain res p1 w1 where o: "fd_open sys open_fn p w = (res, p1, w1)" by (metis prod_cases3)
    have "Suc (open_cells cells) < 2 ^ 32" using open_cells_le [of cells] len by simp
    note p1 = fd_open_packed [OF e this o]
    show ?thesis
    proof (cases res)
      case (Inl err)
      with p1 o st OpOpen True show ?thesis by (auto simp: leases_match_def)
    next
      case (Inr tmp)
      obtain d p2 w2 where c: "fd_close sys (cells ! i) p1 w1 = (d, p2, w2)" by (metis prod_cases3)
      from Inr p1 have p1': "bits p1 = packed (Suc (open_cells cells)) e" by simp
      note p2 = fd_close_packed(1) [OF p1' _ c]
      have "0 \<le> tmp" using o Inr by (blast dest: fd_open_Inr_nonneg)
      then have n: "open_cells (cells[i := tmp]) =
          (if 0 \<le> cells ! i then open_cells cells else Suc (open_cells cells))"
        using open_cells_update [OF True, of tmp] by (auto simp: fd_is_open_def split: if_splits)
      from st OpOpen True o Inr c have "cells' = cells[i := tmp]" "p' = p2"
        by (auto simp: fd_move_assign_def)
      with n p2 show ?thesis by (auto simp: leases_match_def split: if_splits)
    qed
  qed (use st OpOpen m in auto)
next
  case (OpClose i)
  show ?thesis
  proof (cases "i < length cells")
    case True
    with st OpClose obtain d where c: "fd_close sys (cells ! i) p w = (d, p', w')"
      and "cells' = cells[i := d]" by (auto split: prod.splits)
    with fd_close_cell [OF m True c] show ?thesis by simp
  qed (use st OpClose m in auto)
next
  case (OpMove i j)
  show ?thesis
  proof (cases "i < length cells \<and> j < length cells \<and> i \<noteq> j")
    case True
    obtain d p1 w1 where c: "fd_close sys (cells ! j) p w = (d, p1, w1)" by (metis prod_cases3)
    from True have ij: "i < length cells" "j < length cells" "i \<noteq> j" by auto
    from fd_close_cell(1) [OF m ij(2) c] have m1: "leases_match (cells[j := k_invalid]) p1" .
    have "open_cells (cells[j := cells ! i, i := k_invalid]) = open_cells (cells[j := k_invalid])"
      using open_cells_update [OF ij(2), of k_invalid] open_cells_update [OF ij(2), of "cells ! i"]
        open_cells_update [of i "cells[j := cells ! i]" k_invalid] ij
      by (simp add: fd_is_open_def)
    with m1 st OpMove True c show ?thesis by (auto simp: leases_match_def fd_move_assign_def)
  qed (use st OpMove m in auto)
next
  case (OpRelease i)
  show ?thesis
  proof (cases "i < length cells")
    case True
    from m obtain e where e: "bits p = packed (open_cells cells) e" by (auto simp: leases_match_def)
    have pos: "0 \<le> cells ! i \<longrightarrow> 0 < open_cells cells" using open_cells_pos True by blast
    obtain n d p1 where c: "fd_release (cells ! i) p = (n, d, p1)" by (metis prod_cases3)
    note r = fd_release_packed [OF e pos c]
    have "open_cells (cells[i := k_invalid]) =
        (if 0 \<le> cells ! i then open_cells cells - 1 else open_cells cells)"
      using open_cells_update [OF True, of k_invalid] pos by (auto simp: fd_is_open_def)
    with r st OpRelease True c show ?thesis by (auto simp: leases_match_def)
  qed (use st OpRelease m in auto)
qed

definition fd_run :: "'w sys \<Rightarrow> 'w fd_op list \<Rightarrow> fd list \<times> pool \<times> 'w \<Rightarrow> fd list \<times> pool \<times> 'w" where
  "fd_run sys ops st = foldl (\<lambda>st op. fd_step sys op st) st ops"

lemma fd_run_leases:
  assumes "leases_match cells p" and "Suc (length cells) < 2 ^ 32"
    and "fd_run sys ops (cells, p, w) = (cells', p', w')"
  shows "leases_match cells' p' \<and> length cells' = length cells"
  using assms
proof (induction ops arbitrary: cells p w)
  case (Cons op ops)
  obtain cells1 p1 w1 where s: "fd_step sys op (cells, p, w) = (cells1, p1, w1)"
    by (metis prod_cases3)
  from fd_step_leases [OF Cons.prems(1,2) s] Cons.IH [of cells1 p1 w1] Cons.prems s show ?case
    by (simp add: fd_run_def)
qed (simp add: fd_run_def)

text \<open>
  C24: whatever sequence of opens, closes, moves and releases a program performs on its
  \<open>Fd\<close> objects, the pool's live count stays the number of objects that hold a descriptor.
\<close>

theorem pool_counts_open_fds:
  assumes "bits p = packed 0 e" and "Suc n < 2 ^ 32"
    and "fd_run sys ops (replicate n k_invalid, p, w) = (cells, p', w')"
  shows "live (unpack (bits p')) = of_nat (length (filter fd_is_open cells)) \<and> length cells = n"
proof -
  have "open_cells (replicate n k_invalid) = 0"
    by (simp add: open_cells_def fd_is_open_def)
  with assms(1) have "leases_match (replicate n k_invalid) p" by (auto simp: leases_match_def)
  from fd_run_leases [OF this _ assms(3)] assms(2)
  have m: "leases_match cells p'" and len: "length cells = n" by auto
  from m obtain e' where "bits p' = packed (open_cells cells) e'" by (auto simp: leases_match_def)
  moreover have "open_cells cells < 2 ^ 32" using open_cells_le [of cells] len assms(2) by simp
  ultimately show ?thesis using len by (simp add: unpack_packed open_cells_def)
qed

text \<open>
  Three objects: one opened (descriptor 5) and moved into the second, one opened (6) and
  closed: one descriptor is left, and the live count is 1.
\<close>

definition example_opener :: "nat \<Rightarrow> (nat, errc) expected \<times> nat" where
  "example_opener w = (Inr w, Suc w)"

theorem pool_counts_open_fds_witness:
  "\<exists>cells p' w'. fd_run null_sys [OpOpen 0 example_opener, OpOpen 2 example_opener, OpMove 0 1, OpClose 2]
       (replicate 3 k_invalid, initial_pool, 5) = (cells, p', w') \<and>
     cells = [k_invalid, 5, k_invalid] \<and> live (unpack (bits p')) = 1"
proof -
  let ?ops = "[OpOpen 0 example_opener, OpOpen 2 example_opener, OpMove 0 1, OpClose 2]"
  obtain cells p' w' where r: "fd_run null_sys ?ops (replicate 3 k_invalid, initial_pool, 5) = (cells, p', w')"
    by (metis prod_cases3)
  then have c: "cells = [k_invalid, 5, k_invalid]"
    by (auto simp: fd_run_def example_opener_def fd_open_def fd_move_assign_def fd_close_def
        pool_reserve_def leases_acquire_def raise_if_needed_def capacity_impl_def get_limit_def
        null_sys_def initial_pool_def numeral_3_eq_3 Let_def k_invalid_def split: prod.splits if_splits)
  have "bits initial_pool = packed 0 0" by (simp add: initial_pool_def packed_def)
  from pool_counts_open_fds [OF this _ r] c r show ?thesis by (auto simp: fd_is_open_def)
qed

subsection \<open>The niche-optimised optional\<close>

text \<open>
  \<open>std::optional<Fd>\<close> stores one \<open>Fd\<close>; the reserved sentinel means disengaged. A moved-from
  optional is disengaged here, where the standard's stays engaged; \<open>value\<close> and \<open>value_or\<close> on
  an rvalue leave an engaged, closed object behind. \<open>BadAccess\<close> ends the process, as the
  program is built without exceptions: \<open>opt_value\<close> is then \<^const>\<open>None\<close>.
\<close>

definition opt_nullopt :: fd where "opt_nullopt = k_reserved"

definition opt_in_place :: "fd \<Rightarrow> fd" where "opt_in_place value = value"

definition opt_has_value :: "fd \<Rightarrow> bool" where
  "opt_has_value storage \<longleftrightarrow> storage \<noteq> k_reserved"

definition opt_move :: "fd \<Rightarrow> fd \<times> fd" where
  "opt_move other = (other, k_reserved)"

definition opt_move_assign :: "'w sys \<Rightarrow> fd \<Rightarrow> fd \<Rightarrow> pool \<Rightarrow> 'w \<Rightarrow> fd \<times> fd \<times> pool \<times> 'w" where
  "opt_move_assign sys storage other p w =
     (case fd_move_assign sys storage other p w of (storage, _, p, w) \<Rightarrow>
        (storage, k_reserved, p, w))"

definition opt_assign :: "'w sys \<Rightarrow> fd \<Rightarrow> fd \<Rightarrow> pool \<Rightarrow> 'w \<Rightarrow> fd \<times> pool \<times> 'w" where
  "opt_assign sys storage value p w =
     (case fd_move_assign sys storage value p w of (storage, _, p, w) \<Rightarrow> (storage, p, w))"

definition opt_emplace :: "'w sys \<Rightarrow> fd \<Rightarrow> fd \<Rightarrow> pool \<Rightarrow> 'w \<Rightarrow> fd \<times> pool \<times> 'w" where
  "opt_emplace sys storage value p w =
     (case fd_move_assign sys storage value p w of (storage, _, p, w) \<Rightarrow> (storage, p, w))"

definition opt_reset :: "'w sys \<Rightarrow> fd \<Rightarrow> pool \<Rightarrow> 'w \<Rightarrow> fd \<times> pool \<times> 'w" where
  "opt_reset sys storage p w =
     (case fd_move_assign sys storage k_reserved p w of (storage, _, p, w) \<Rightarrow> (storage, p, w))"

definition opt_swap :: "fd \<Rightarrow> fd \<Rightarrow> fd \<times> fd" where
  "opt_swap a b =
     (let (tmp, _) = fd_move a; (a, _) = fd_move b; (b, _) = fd_move tmp in (a, b))"

definition opt_value :: "fd \<Rightarrow> fd option" where
  "opt_value storage = (if \<not> opt_has_value storage then None else Some storage)"

definition opt_value_or :: "fd \<Rightarrow> fd \<Rightarrow> fd \<times> fd" where
  "opt_value_or storage fallback =
     (if opt_has_value storage then fd_move storage else (fallback, storage))"

definition opt_and_then :: "(fd \<Rightarrow> 'b option) \<Rightarrow> fd \<Rightarrow> 'b option" where
  "opt_and_then f storage = (if opt_has_value storage then f storage else None)"

definition opt_transform :: "(fd \<Rightarrow> 'b) \<Rightarrow> fd \<Rightarrow> 'b option" where
  "opt_transform f storage = (if opt_has_value storage then Some (f storage) else None)"

definition opt_or_else :: "fd \<Rightarrow> fd \<Rightarrow> fd \<times> fd" where
  "opt_or_else storage f_result =
     (if opt_has_value storage then opt_move storage else (f_result, storage))"

definition opt_eq_nullopt :: "fd \<Rightarrow> bool" where
  "opt_eq_nullopt storage \<longleftrightarrow> \<not> opt_has_value storage"

definition opt_assign_nullopt :: "'w sys \<Rightarrow> fd \<Rightarrow> pool \<Rightarrow> 'w \<Rightarrow> fd \<times> pool \<times> 'w" where
  "opt_assign_nullopt sys storage p w = opt_reset sys storage p w"

text \<open>
  The conversion from an optional of what an \<open>Fd\<close> can be made of: the storage it assigns to
  is disengaged, so nothing is closed.
\<close>

definition opt_convert :: "'w sys \<Rightarrow> ('u \<Rightarrow> fd) \<Rightarrow> 'u option \<Rightarrow> pool \<Rightarrow> 'w \<Rightarrow> fd \<times> pool \<times> 'w" where
  "opt_convert sys construct other p w =
     (case other of
        None \<Rightarrow> (k_reserved, p, w)
      | Some u \<Rightarrow> (case fd_move_assign sys k_reserved (construct u) p w of (storage, _, p, w) \<Rightarrow> (storage, p, w)))"

text \<open>\<open>operator*\<close> and \<open>operator->\<close> do not check.\<close>

definition opt_deref :: "fd \<Rightarrow> fd" where "opt_deref storage = storage"

text \<open>\<open>operator<=>\<close> with \<open>nullopt\<close>: whether the optional is greater.\<close>

definition opt_compare_nullopt :: "fd \<Rightarrow> int" where
  "opt_compare_nullopt storage = of_bool (opt_has_value storage) - of_bool False"

definition opt_destroy :: "'w sys \<Rightarrow> fd \<Rightarrow> pool \<Rightarrow> 'w \<Rightarrow> pool \<times> 'w" where
  "opt_destroy sys storage p w = fd_destroy sys storage p w"

text \<open>The optional a storage stands for, and the destruction of such an optional.\<close>

definition opt_abs :: "fd \<Rightarrow> fd option" where
  "opt_abs storage = (if storage = k_reserved then None else Some storage)"

definition drop_option :: "'w sys \<Rightarrow> fd option \<Rightarrow> pool \<Rightarrow> 'w \<Rightarrow> pool \<times> 'w" where
  "drop_option sys d p w = (case d of None \<Rightarrow> (p, w) | Some d \<Rightarrow> fd_destroy sys d p w)"

lemmas opt_defs = opt_nullopt_def opt_in_place_def opt_has_value_def opt_move_def
  opt_move_assign_def opt_assign_def opt_emplace_def opt_reset_def opt_swap_def opt_value_def
  opt_value_or_def opt_and_then_def opt_transform_def opt_or_else_def opt_eq_nullopt_def
  opt_assign_nullopt_def opt_convert_def opt_deref_def opt_compare_nullopt_def opt_destroy_def opt_abs_def

lemma drop_option_abs: "drop_option sys (opt_abs st) p w = fd_destroy sys st p w"
  by (simp add: drop_option_def opt_abs_def fd_destroy_def fd_close_def)

lemma move_assign_drop:
  "fd_move_assign sys st v p w = (d, o', p', w') \<Longrightarrow>
     d = v \<and> o' = k_invalid \<and> drop_option sys (opt_abs st) p w = (p', w')"
  by (auto simp: drop_option_abs fd_move_assign_def fd_destroy_def split: prod.splits)

text \<open>
  C25: the optional that stores a disengaged state in the descriptor itself behaves as an
  optional descriptor: its observers agree with the abstraction, moving empties the source,
  and every operation that replaces or clears the stored value destroys exactly the
  descriptor held before, once.
\<close>

theorem optional_fd_refines:
  "opt_abs opt_nullopt = None \<and>
   (opt_has_value st \<longleftrightarrow> opt_abs st \<noteq> None) \<and>
   opt_value st = opt_abs st \<and>
   opt_and_then f st = Option.bind (opt_abs st) f \<and>
   opt_transform g st = map_option g (opt_abs st) \<and>
   map_prod opt_abs opt_abs (opt_move st) = (opt_abs st, None) \<and>
   map_prod opt_abs opt_abs (opt_swap st st') = (opt_abs st', opt_abs st) \<and>
   opt_abs (fst (opt_or_else st st')) = (case opt_abs st of None \<Rightarrow> opt_abs st' | Some d \<Rightarrow> Some d) \<and>
   fst (opt_value_or st d) = (case opt_abs st of None \<Rightarrow> d | Some d' \<Rightarrow> d') \<and>
   apfst opt_abs (opt_reset sys st p w) = (None, drop_option sys (opt_abs st) p w) \<and>
   apfst opt_abs (opt_assign sys st d p w) = (opt_abs d, drop_option sys (opt_abs st) p w) \<and>
   map_prod opt_abs (apfst opt_abs) (opt_move_assign sys st st' p w) =
     (opt_abs st', None, drop_option sys (opt_abs st) p w) \<and>
   apfst opt_abs (opt_assign_nullopt sys st p w) = (None, drop_option sys (opt_abs st) p w) \<and>
   apfst opt_abs (opt_convert sys construct other p w) = (Option.bind other (\<lambda>u. opt_abs (construct u)), p, w) \<and>
   (if opt_has_value st then Some (opt_deref st) else None) = opt_abs st \<and>
   (opt_eq_nullopt st \<longleftrightarrow> opt_abs st = None) \<and> (opt_compare_nullopt st = 0 \<longleftrightarrow> opt_abs st = None) \<and>
   opt_destroy sys st p w = drop_option sys (opt_abs st) p w"
  by (auto simp: opt_defs fd_move_def drop_option_def fd_move_assign_def fd_destroy_def
      fd_close_def Let_def split: option.split)

end
