(* ===== verification/Os.thy ===== *)
theory Os
  imports Fd
begin

section \<open>The wrappers over the system\<close>

text \<open>
  \<open>cutils/os/os.hpp\<close> and \<open>os.cpp\<close>: the entries of a directory read in blocks, the text of an
  error, the cached user id and the program's name.
\<close>

subsection \<open>Names, ids and error texts\<close>

definition get_prog_name :: "'w sys \<Rightarrow> string" where
  "get_prog_name sys = (case sys_progname sys of Some name \<Rightarrow> name | None \<Rightarrow> [])"

text \<open>The cached id; \<open>kUnloaded\<close> is the all-ones id.\<close>

definition k_unloaded :: nat where "k_unloaded = 2 ^ 32 - 1"

definition get_euid :: "'w sys \<Rightarrow> nat \<Rightarrow> 'w \<Rightarrow> nat \<times> nat" where
  "get_euid sys cached w =
     (let euid = cached
      in if euid = k_unloaded then (let euid = sys_geteuid sys w in (euid, euid))
         else (euid, cached))"

text \<open>
  \<open>strerror_r\<close> comes in two forms: the POSIX one returns a status and fills the buffer, the
  GNU one returns either the buffer or a static string. Given the size of the buffer it
  answers with what it returns and what the buffer then holds.
\<close>

datatype strerror_result = Status errc | StatusOk | InBuffer | StaticText string

type_synonym strerror_r = "nat \<Rightarrow> strerror_result \<times> string"

definition c_str :: "string \<Rightarrow> string" where
  "c_str buf = takeWhile (\<lambda>c. c \<noteq> CHR 0x00) buf"

fun take_str_error :: "strerror_result \<Rightarrow> string \<Rightarrow> string option" where
  "take_str_error (Status e) buf = (if e = ERANGE then None else Some (c_str buf))"
| "take_str_error StatusOk buf = Some (c_str buf)"
| "take_str_error (StaticText s) buf = Some s"
| "take_str_error InBuffer buf = Some (c_str buf)"

definition k_initial_bytes :: nat where "k_initial_bytes = 128"
definition k_max_bytes :: nat where "k_max_bytes = 64 * 1024"

partial_function (option) str_error_loop :: "strerror_r \<Rightarrow> nat \<Rightarrow> string option" where
  "str_error_loop strerror_r sz =
     (case strerror_r sz of (result, buf) \<Rightarrow>
      case take_str_error result buf of
        Some taken \<Rightarrow> Some taken
      | None \<Rightarrow>
          if sz \<ge> k_max_bytes then Some (c_str buf)
          else str_error_loop strerror_r (sz * 2))"

definition str_error :: "strerror_r \<Rightarrow> nat \<Rightarrow> string option" where
  "str_error strerror_r capacity =
     str_error_loop strerror_r (if capacity > k_initial_bytes then capacity else k_initial_bytes)"

lemma str_error_loop_total: "0 < sz \<Longrightarrow> \<exists>s. str_error_loop strerror_r sz = Some s"
proof (induction "k_max_bytes - sz" arbitrary: sz rule: less_induct)
  case less
  show ?case
  proof (cases "sz \<ge> k_max_bytes")
    case True
    then show ?thesis
      by (subst str_error_loop.simps) (auto split: prod.split option.split)
  next
    case False
    with less.prems have "k_max_bytes - sz * 2 < k_max_bytes - sz" by simp
    from less.hyps [OF this] less.prems
    obtain s where "str_error_loop strerror_r (sz * 2) = Some s" by auto
    then show ?thesis
      by (subst str_error_loop.simps) (auto split: prod.split option.split)
  qed
qed

text \<open>The documented behaviour: too small a buffer is an error, else the text is copied.\<close>

definition posix_strerror_r :: "string \<Rightarrow> strerror_r" where
  "posix_strerror_r msg sz =
     (if sz \<le> length msg then (Status ERANGE, take (sz - 1) msg @ [CHR 0x00])
      else (StatusOk, msg @ [CHR 0x00]))"

definition gnu_strerror_r :: "string \<Rightarrow> strerror_r" where
  "gnu_strerror_r msg sz = (StaticText msg, replicate sz (CHR 0x00))"

lemma c_str_terminated: "CHR 0x00 \<notin> set msg \<Longrightarrow> c_str (msg @ CHR 0x00 # rest) = msg"
  unfolding c_str_def by (subst takeWhile_append2) auto

lemma str_error_loop_posix:
  assumes "CHR 0x00 \<notin> set msg" and "length msg < k_max_bytes"
  shows "0 < sz \<Longrightarrow> str_error_loop (posix_strerror_r msg) sz = Some msg"
proof (induction "k_max_bytes - sz" arbitrary: sz rule: less_induct)
  case less
  show ?case
  proof (cases "sz \<le> length msg")
    case True
    then have "k_max_bytes - sz * 2 < k_max_bytes - sz" "\<not> sz \<ge> k_max_bytes"
      using less.prems assms(2) by auto
    with less.hyps [OF this(1)] less.prems True show ?thesis
      by (subst str_error_loop.simps) (simp add: posix_strerror_r_def)
  next
    case False
    then show ?thesis
      by (subst str_error_loop.simps) (simp add: posix_strerror_r_def c_str_terminated assms(1))
  qed
qed

text \<open>
  Looking up the text of an error ends whatever \<open>strerror_r\<close> answers and whatever the
  thread's buffer was, and with either documented form of \<open>strerror_r\<close> it yields the whole
  message as long as that is below 64 KiB.
\<close>

theorem str_error_correct:
  assumes "CHR 0x00 \<notin> set msg" and "length msg < k_max_bytes"
  shows "(\<exists>s. str_error any_strerror_r capacity = Some s) \<and>
    str_error (posix_strerror_r msg) capacity = Some msg \<and>
    str_error (gnu_strerror_r msg) capacity = Some msg"
proof -
  have pos: "0 < (if capacity > k_initial_bytes then capacity else k_initial_bytes)"
    by (simp add: k_initial_bytes_def)
  have "str_error_loop (gnu_strerror_r msg) n = Some msg" for n
    by (subst str_error_loop.simps) (simp add: gnu_strerror_r_def)
  with str_error_loop_total [OF pos] str_error_loop_posix [OF assms pos] show ?thesis
    unfolding str_error_def by blast
qed

theorem str_error_correct_witness:
  "(\<exists>s. str_error (\<lambda>n. (Status ERANGE, [])) 3 = Some s) \<and>
    str_error (posix_strerror_r ''Input/output error'') 3 = Some ''Input/output error'' \<and>
    str_error (gnu_strerror_r ''Input/output error'') 3 = Some ''Input/output error''"
  by (rule str_error_correct) (simp_all add: k_max_bytes_def)

subsection \<open>Directory entries\<close>

definition entry_is_directory :: "dirent \<Rightarrow> bool" where
  "entry_is_directory e \<longleftrightarrow> d_type e = DT_DIR"

definition entry_is_type_unknown :: "dirent \<Rightarrow> bool" where
  "entry_is_type_unknown e \<longleftrightarrow> d_type e = DT_UNKNOWN"

definition entry_is_dot_or_dot_dot :: "dirent \<Rightarrow> bool" where
  "entry_is_dot_or_dot_dot e \<longleftrightarrow> d_name e = ''.'' \<or> d_name e = ''..''"

definition k_default_dir_buffer_bytes :: nat where
  "k_default_dir_buffer_bytes = 64 * 1024"

text \<open>
  The reader's state. The buffer is the list of the records the last call filled in, laid
  out one after the other; \<open>filled\<close> and \<open>offset\<close> are bytes, as in the code.
\<close>

record dir_entries =
  de_dir :: fd
  de_size :: nat
  de_block :: "dirent list"
  de_filled :: nat
  de_offset :: nat
  de_error :: errc
  de_failed :: bool

text \<open>The record that starts at a byte of the buffer.\<close>

fun record_at :: "dirent list \<Rightarrow> nat \<Rightarrow> dirent option" where
  "record_at [] off = None"
| "record_at (e # es) off =
     (if off = 0 then Some e
      else if off < d_reclen e then None else record_at es (off - d_reclen e))"

definition block_bytes :: "dirent list \<Rightarrow> nat" where
  "block_bytes es = sum_list (map d_reclen es)"

definition at_end :: "dir_entries \<Rightarrow> bool" where
  "at_end s \<longleftrightarrow> \<not> de_failed s \<and> de_offset s \<ge> de_filled s"

definition current_entry :: "dir_entries \<Rightarrow> dirent option" where
  "current_entry s = record_at (de_block s) (de_offset s)"

text \<open>
  \<^const>\<open>None\<close> stands for reading bytes that are not a record, which the code never checks.
\<close>

definition current :: "dir_entries \<Rightarrow> (dirent, errc) expected option" where
  "current s = (if de_failed s then Some (Inl (de_error s)) else map_option Inr (current_entry s))"

text \<open>\<open>Fill\<close>, which retries an interrupted call for as long as it is interrupted.\<close>

partial_function (option) fill_loop :: "'w sys \<Rightarrow> dir_entries \<Rightarrow> 'w \<Rightarrow> (dir_entries \<times> 'w) option" where
  "fill_loop sys s w =
     (case sys_getdents sys (de_dir s) (de_size s) w of
        (Inr es, w) \<Rightarrow> Some (s\<lparr>de_block := es, de_filled := block_bytes es\<rparr>, w)
      | (Inl e, w) \<Rightarrow>
          if e = EINTR then fill_loop sys s w
          else Some (s\<lparr>de_error := e, de_failed := True\<rparr>, w))"

definition dir_fill :: "'w sys \<Rightarrow> dir_entries \<Rightarrow> 'w \<Rightarrow> (dir_entries \<times> 'w) option" where
  "dir_fill sys s w = fill_loop sys (s\<lparr>de_offset := 0, de_filled := 0\<rparr>) w"

definition dir_advance :: "'w sys \<Rightarrow> dir_entries \<Rightarrow> 'w \<Rightarrow> (dir_entries \<times> 'w) option" where
  "dir_advance sys s w =
     (if de_failed s then Some (s\<lparr>de_failed := False, de_filled := 0, de_offset := 0\<rparr>, w)
      else
        (case current_entry s of
           None \<Rightarrow> None
         | Some e \<Rightarrow>
             (let s = s\<lparr>de_offset := de_offset s + d_reclen e\<rparr>
              in if de_offset s \<ge> de_filled s then dir_fill sys s w else Some (s, w))))"

definition dir_read :: "'w sys \<Rightarrow> fd \<Rightarrow> nat \<Rightarrow> 'w \<Rightarrow> (dir_entries \<times> 'w) option" where
  "dir_read sys d sz w =
     dir_fill sys \<lparr>de_dir = d, de_size = sz, de_block = [], de_filled = 0, de_offset = 0,
       de_error = Errno 0, de_failed = False\<rparr> w"

text \<open>
  The range-based \<open>for\<close> over the entries: the body gets the state of the program around the
  loop, the value read and the world, and says whether it breaks; \<^const>\<open>None\<close> is undefined
  behaviour in the body.
\<close>

partial_function (option) dir_loop ::
  "'w sys \<Rightarrow> ((dirent, errc) expected \<Rightarrow> 's \<Rightarrow> 'w \<Rightarrow> (bool \<times> 's \<times> 'w) option) \<Rightarrow> dir_entries \<Rightarrow> 's \<Rightarrow> 'w
    \<Rightarrow> ('s \<times> 'w) option" where
  "dir_loop sys body de st w =
     (if at_end de then Some (st, w)
      else Option.bind (current de) (\<lambda>v.
        Option.bind (body v st w) (\<lambda>(stop, st, w).
          if stop then Some (st, w)
          else Option.bind (dir_advance sys de w) (\<lambda>(de, w). dir_loop sys body de st w))))"

definition dir_for_each ::
  "'w sys \<Rightarrow> fd \<Rightarrow> nat \<Rightarrow> ((dirent, errc) expected \<Rightarrow> 's \<Rightarrow> 'w \<Rightarrow> (bool \<times> 's \<times> 'w) option) \<Rightarrow> 's \<Rightarrow> 'w
    \<Rightarrow> ('s \<times> 'w) option" where
  "dir_for_each sys d sz body st w =
     Option.bind (dir_read sys d sz w) (\<lambda>(de, w). dir_loop sys body de st w)"

subsection \<open>What the loop over a directory does\<close>

text \<open>The body run over the records of one block, in order, until it breaks.\<close>

fun run_block ::
  "((dirent, errc) expected \<Rightarrow> 's \<Rightarrow> 'w \<Rightarrow> (bool \<times> 's \<times> 'w) option) \<Rightarrow> dirent list \<Rightarrow> 's \<Rightarrow> 'w
    \<Rightarrow> (bool \<times> 's \<times> 'w) option" where
  "run_block body [] st w = Some (False, st, w)"
| "run_block body (e # es) st w =
     Option.bind (body (Inr e) st w) (\<lambda>(stop, st, w).
       if stop then Some (True, st, w) else run_block body es st w)"

text \<open>
  The specification: interrupted reads are invisible, every record of every block is visited
  once and in order, an empty block ends the loop, and a failed read is handed to the body
  once, as the last thing.
\<close>

inductive dir_visits ::
  "'w sys \<Rightarrow> fd \<Rightarrow> nat \<Rightarrow> ((dirent, errc) expected \<Rightarrow> 's \<Rightarrow> 'w \<Rightarrow> (bool \<times> 's \<times> 'w) option) \<Rightarrow> 's \<Rightarrow> 'w
    \<Rightarrow> 's \<Rightarrow> 'w \<Rightarrow> bool" for sys d sz body where
  visits_end:
    "sys_getdents sys d sz w = (Inr [], w') \<Longrightarrow> dir_visits sys d sz body st w st w'"
| visits_error:
    "sys_getdents sys d sz w = (Inl e, w1) \<Longrightarrow> e \<noteq> EINTR \<Longrightarrow>
     body (Inl e) st w1 = Some (stop, st', w') \<Longrightarrow> dir_visits sys d sz body st w st' w'"
| visits_interrupted:
    "sys_getdents sys d sz w = (Inl EINTR, w1) \<Longrightarrow>
     dir_visits sys d sz body st w1 st' w' \<Longrightarrow> dir_visits sys d sz body st w st' w'"
| visits_break:
    "sys_getdents sys d sz w = (Inr es, w1) \<Longrightarrow>
     run_block body es st w1 = Some (True, st', w') \<Longrightarrow> dir_visits sys d sz body st w st' w'"
| visits_block:
    "sys_getdents sys d sz w = (Inr es, w1) \<Longrightarrow> es \<noteq> [] \<Longrightarrow>
     run_block body es st w1 = Some (False, st1, w2) \<Longrightarrow>
     dir_visits sys d sz body st1 w2 st' w' \<Longrightarrow> dir_visits sys d sz body st w st' w'"

text \<open>The kernel's promise: a record takes up at least one byte.\<close>

definition records_advance :: "'w sys \<Rightarrow> bool" where
  "records_advance sys \<longleftrightarrow>
     (\<forall>d sz w es w'. sys_getdents sys d sz w = (Inr es, w') \<longrightarrow> (\<forall>e \<in> set es. 0 < d_reclen e))"

lemma records_advanceD:
  "records_advance sys \<Longrightarrow> sys_getdents sys d sz w = (Inr es, w') \<Longrightarrow> \<forall>e \<in> set es. 0 < d_reclen e"
  unfolding records_advance_def by blast

lemma record_at_append:
  "\<forall>e \<in> set pre. 0 < d_reclen e \<Longrightarrow> record_at (pre @ e # es) (block_bytes pre) = Some e"
  by (induction pre) (auto simp: block_bytes_def)

lemma block_bytes_simps [simp]:
  "block_bytes [] = 0" "block_bytes (e # es) = d_reclen e + block_bytes es"
  "block_bytes (es @ fs) = block_bytes es + block_bytes fs"
  by (simp_all add: block_bytes_def)

lemma block_bytes_pos: "es \<noteq> [] \<Longrightarrow> \<forall>e \<in> set es. 0 < d_reclen e \<Longrightarrow> 0 < block_bytes es"
  by (cases es) auto

lemma dir_fill_offset: "dir_fill sys (de\<lparr>de_offset := n\<rparr>) w = dir_fill sys de w"
  by (simp add: dir_fill_def)

lemma dir_loop_block:
  assumes "es \<noteq> []" and "\<forall>e \<in> set (pre @ es). 0 < d_reclen e"
    and "de_block de = pre @ es" and "de_offset de = block_bytes pre"
    and "de_filled de = block_bytes (pre @ es)" and "\<not> de_failed de"
  shows "dir_loop sys body de st w =
    Option.bind (run_block body es st w) (\<lambda>(stop, st', w').
       if stop then Some (st', w')
       else Option.bind (dir_fill sys de w') (\<lambda>(de', w'). dir_loop sys body de' st' w'))"
  using assms
proof (induction es arbitrary: pre de st w)
  case (Cons e es)
  from Cons.prems have "\<not> at_end de" by (simp add: at_end_def)
  moreover from Cons.prems have e: "current_entry de = Some e"
    by (simp add: current_entry_def record_at_append)
  with Cons.prems have c: "current de = Some (Inr e)" by (simp add: current_def)
  ultimately have unfold: "dir_loop sys body de st w =
      Option.bind (body (Inr e) st w) (\<lambda>(stop, st1, w1).
        if stop then Some (st1, w1)
        else Option.bind (dir_advance sys de w1) (\<lambda>(de, w). dir_loop sys body de st1 w))"
    by (subst dir_loop.simps) simp
  consider "body (Inr e) st w = None" | st1 w1 where "body (Inr e) st w = Some (True, st1, w1)"
    | st1 w1 where "body (Inr e) st w = Some (False, st1, w1)"
    by (metis (full_types) not_None_eq prod_cases3)
  then show ?case
  proof cases
    case (3 st1 w1)
    show ?thesis
    proof (cases "es = []")
      case True
      with Cons.prems e have "dir_advance sys de w1 = dir_fill sys de w1"
        by (simp add: dir_advance_def dir_fill_offset Let_def)
      with unfold 3 True show ?thesis by simp
    next
      case False
      from block_bytes_pos [OF this] Cons.prems have "0 < block_bytes es" by auto
      with Cons.prems e have adv: "dir_advance sys de w1 =
          Some (de\<lparr>de_offset := block_bytes (pre @ [e])\<rparr>, w1)"
        by (simp add: dir_advance_def Let_def)
      from Cons.IH [of "pre @ [e]" "de\<lparr>de_offset := block_bytes (pre @ [e])\<rparr>" st1 w1]
        Cons.prems False unfold 3 adv
      show ?thesis by (simp add: dir_fill_offset cong: if_cong)
    qed
  qed (use unfold in simp_all)
qed simp

lemma dir_visits_complete:
  assumes "dir_visits sys d sz body st w st' w'" and "records_advance sys"
  shows "de_dir de = d \<Longrightarrow> de_size de = sz \<Longrightarrow> \<not> de_failed de \<Longrightarrow>
    Option.bind (dir_fill sys de w) (\<lambda>(de', w1). dir_loop sys body de' st w1) = Some (st', w')"
  using assms(1)
proof (induction arbitrary: de rule: dir_visits.induct)
  case (visits_end w w' st)
  then show ?case
    by (simp add: dir_fill_def fill_loop.simps [of sys _ w] dir_loop.simps at_end_def)
next
  case (visits_error w e w1 st stop st' w')
  then show ?case
    by (simp add: dir_fill_def fill_loop.simps [of sys _ w] dir_loop.simps at_end_def current_def
        dir_advance_def)
next
  case (visits_interrupted w w1 st st' w')
  from visits_interrupted.hyps(1) visits_interrupted.IH [of de] visits_interrupted.prems show ?case
    by (simp add: dir_fill_def fill_loop.simps [of sys _ w])
next
  case (visits_break w es w1 st st' w')
  have pos: "\<forall>e \<in> set es. 0 < d_reclen e" by (rule records_advanceD [OF assms(2) visits_break(1)])
  from visits_break(2) have "es \<noteq> []" by auto
  with visits_break pos show ?case
    by (simp add: dir_fill_def fill_loop.simps [of sys _ w] dir_loop_block [where pre = "[]" and es = es])
next
  case (visits_block w es w1 st st1 w2 st' w')
  have pos: "\<forall>e \<in> set es. 0 < d_reclen e" by (rule records_advanceD [OF assms(2) visits_block(1)])
  let ?de = "de\<lparr>de_offset := 0, de_filled := block_bytes es, de_block := es\<rparr>"
  have "Option.bind (dir_fill sys ?de w2) (\<lambda>(de', w1). dir_loop sys body de' st1 w1) = Some (st', w')"
    using visits_block.prems by (intro visits_block.IH) simp_all
  with visits_block.hyps visits_block.prems pos show ?case
    by (simp add: dir_fill_def fill_loop.simps [of sys _ w] dir_loop_block [where pre = "[]" and es = es])
qed

subsection \<open>Invariants and termination of the loop\<close>

text \<open>What every read and every pass of the body keep, the loop keeps.\<close>

lemma fill_loop_invariant:
  assumes "fill_loop sys de w = Some (de', w')" and "P w"
    and reads: "\<And>d n w r w'. P w \<Longrightarrow> sys_getdents sys d n w = (r, w') \<Longrightarrow> P w'"
  shows "P w'"
proof -
  have "sys = sys \<longrightarrow> P w \<longrightarrow> P (snd (de', w'))"
  proof (rule fill_loop.raw_induct [where P = "\<lambda>sys0 de w r. sys0 = sys \<longrightarrow> P w \<longrightarrow> P (snd r)", OF _ assms(1)],
      intro impI)
    fix fl :: "'a sys \<Rightarrow> dir_entries \<Rightarrow> 'a \<Rightarrow> (dir_entries \<times> 'a) option" and sys0 de w r
    assume 1: "\<And>sys0 de w r. fl sys0 de w = Some r \<Longrightarrow> sys0 = sys \<longrightarrow> P w \<longrightarrow> P (snd r)"
      "(case sys_getdents sys0 (de_dir de) (de_size de) w of
        (Inl e, w) \<Rightarrow> if e = EINTR then fl sys0 de w else Some (de\<lparr>de_error := e, de_failed := True\<rparr>, w)
      | (Inr es, w) \<Rightarrow> Some (de\<lparr>de_block := es, de_filled := block_bytes es\<rparr>, w)) = Some r"
      and s: "sys0 = sys" and p: "P w"
    obtain ans w1 where g: "sys_getdents sys (de_dir de) (de_size de) w = (ans, w1)" by fastforce
    from reads [OF p g] have p1: "P w1" .
    show "P (snd r)"
    proof (cases "ans = Inl EINTR")
      case True
      with 1(2) g s have "fl sys de w1 = Some r" by simp
      with 1(1) p1 show ?thesis by blast
    next
      case False
      with 1(2) g s p1 show ?thesis by (auto split: sum.splits if_splits)
    qed
  qed
  with assms(2) show ?thesis by simp
qed

lemma dir_loop_invariant:
  assumes "dir_loop sys body de st w = Some (st', w')" and "P st w"
    and reads: "\<And>d n st w r w'. P st w \<Longrightarrow> sys_getdents sys d n w = (r, w') \<Longrightarrow> P st w'"
    and body: "\<And>v st w stop st' w'. P st w \<Longrightarrow> body v st w = Some (stop, st', w') \<Longrightarrow> P st' w'"
  shows "P st' w'"
proof -
  have fill: "P st w'" if "dir_fill sys de w = Some (de', w')" "P st w" for st de w de' w'
    by (rule fill_loop_invariant [of sys "de\<lparr>de_offset := 0, de_filled := 0\<rparr>" w de' w' "P st"])
      (use that reads in \<open>auto simp: dir_fill_def\<close>)
  have adv: "P st w'" if "dir_advance sys de w = Some (de', w')" "P st w" for st de w de' w'
    using that by (auto simp: dir_advance_def Let_def split: if_splits option.splits intro: fill)
  have "sys = sys \<and> body = body \<and> P st w \<longrightarrow> P (fst (st', w')) (snd (st', w'))"
  proof (rule dir_loop.raw_induct [where P = "\<lambda>sys0 body0 de st w r.
        sys0 = sys \<and> body0 = body \<and> P st w \<longrightarrow> P (fst r) (snd r)", OF _ assms(1)], intro impI, elim conjE)
    fix dl :: "'b sys \<Rightarrow> ((dirent, errc) expected \<Rightarrow> 'a \<Rightarrow> 'b \<Rightarrow> (bool \<times> 'a \<times> 'b) option) \<Rightarrow>
        dir_entries \<Rightarrow> 'a \<Rightarrow> 'b \<Rightarrow> ('a \<times> 'b) option" and sys0 body0 de st w r
    assume 1: "\<And>sys0 body0 de st w r. dl sys0 body0 de st w = Some r \<Longrightarrow>
          sys0 = sys \<and> body0 = body \<and> P st w \<longrightarrow> P (fst r) (snd r)"
      "(if at_end de then Some (st, w)
        else Option.bind (current de) (\<lambda>v. Option.bind (body0 v st w) (\<lambda>(stop, st, w).
          if stop then Some (st, w)
          else Option.bind (dir_advance sys0 de w) (\<lambda>(de, w). dl sys0 body0 de st w)))) = Some r"
      and s: "sys0 = sys" "body0 = body" and p: "P st w"
    show "P (fst r) (snd r)"
    proof (cases "at_end de")
      case True
      with 1(2) p show ?thesis by auto
    next
      case False
      with 1(2) s obtain v b where v: "current de = Some v" and b: "body v st w = Some b"
        by (auto simp: bind_eq_Some_conv)
      obtain stop st1 w1 where b': "b = (stop, st1, w1)" by (metis prod_cases3)
      note p1 = body [OF p b [unfolded b']]
      show ?thesis
      proof (cases stop)
        case True
        with False v b b' 1(2) p1 s show ?thesis by auto
      next
        case go: False
        with False v b b' 1(2) s obtain de2 w2 where a: "dir_advance sys de w1 = Some (de2, w2)"
          and d: "dl sys body de2 st1 w2 = Some r"
          by (auto simp: bind_eq_Some_conv)
        from 1(1) [OF d] adv [OF a p1] show ?thesis by blast
      qed
    qed
  qed
  with assms(2) show ?thesis by simp
qed

lemma dir_for_each_invariant:
  assumes "dir_for_each sys d n body st w = Some (st', w')" and "P st w"
    and reads: "\<And>d n st w r w'. P st w \<Longrightarrow> sys_getdents sys d n w = (r, w') \<Longrightarrow> P st w'"
    and body: "\<And>v st w stop st' w'. P st w \<Longrightarrow> body v st w = Some (stop, st', w') \<Longrightarrow> P st' w'"
  shows "P st' w'"
proof -
  from assms(1) obtain de w1 where f: "dir_read sys d n w = Some (de, w1)"
    and l: "dir_loop sys body de st w1 = Some (st', w')"
    by (auto simp: dir_for_each_def bind_eq_Some_conv)
  from f obtain de0 where "fill_loop sys de0 w = Some (de, w1)" by (auto simp: dir_read_def dir_fill_def)
  from fill_loop_invariant [where P = "P st", OF this assms(2)] reads have "P st w1" by blast
  from dir_loop_invariant [where P = P, OF l this] reads body show ?thesis by blast
qed

text \<open>
  A listing ends when a measure of the world goes down with every block and every
  interruption, and nothing the body does brings it up again.
\<close>

definition listing_bound :: "'w sys \<Rightarrow> ('w \<Rightarrow> nat) \<Rightarrow> bool" where
  "listing_bound sys m \<longleftrightarrow>
     (\<forall>d sz w ans w'. sys_getdents sys d sz w = (ans, w') \<longrightarrow>
        (if ans = Inr [] \<or> (\<exists>e. ans = Inl e \<and> e \<noteq> EINTR) then m w' \<le> m w else m w' < m w))"

lemma run_block_total:
  assumes "P st w"
    and body: "\<And>v st w. P st w \<Longrightarrow>
      \<exists>stop st' w'. body v st w = Some (stop, st', w') \<and> P st' w' \<and> m w' \<le> (m w :: nat)"
  shows "\<exists>stop st' w'. run_block body es st w = Some (stop, st', w') \<and> P st' w' \<and> m w' \<le> m w"
  using assms(1)
proof (induction es arbitrary: st w)
  case (Cons e es)
  from body [OF Cons.prems, of "Inr e"] obtain stop st1 w1
    where b: "body (Inr e) st w = Some (stop, st1, w1)" "P st1 w1" "m w1 \<le> m w" by blast
  from Cons.IH [OF b(2)] b show ?case by (cases stop) (auto intro: order_trans)
qed auto

lemma dir_visits_total:
  assumes bound: "listing_bound sys m" and "P st w"
    and reads: "\<And>d n st w r w'. P st w \<Longrightarrow> sys_getdents sys d n w = (r, w') \<Longrightarrow> P st w'"
    and body: "\<And>v st w. P st w \<Longrightarrow>
      \<exists>stop st' w'. body v st w = Some (stop, st', w') \<and> P st' w' \<and> m w' \<le> (m w :: nat)"
  shows "\<exists>st' w'. dir_visits sys d sz body st w st' w'"
  using assms(2)
proof (induction "m w" arbitrary: st w rule: less_induct)
  case less
  obtain ans w1 where g: "sys_getdents sys d sz w = (ans, w1)" by fastforce
  note p1 = reads [OF less.prems g]
  have m1: "if ans = Inr [] \<or> (\<exists>e. ans = Inl e \<and> e \<noteq> EINTR) then m w1 \<le> m w else m w1 < m w"
    using bound g by (simp add: listing_bound_def)
  show ?case
  proof (cases ans)
    case (Inl e)
    show ?thesis
    proof (cases "e = EINTR")
      case True
      with m1 Inl less.hyps [OF _ p1] visits_interrupted [of sys d sz w w1 body st] g show ?thesis by auto
    next
      case False
      with body [OF p1, of "Inl e"] g Inl visits_error [of sys d sz w e w1 body st] show ?thesis by metis
    qed
  next
    case (Inr es)
    show ?thesis
    proof (cases "es = []")
      case True
      with g Inr have "dir_visits sys d sz body st w st w1" by (intro visits_end) simp
      then show ?thesis by blast
    next
      case False
      with m1 Inr have lt: "m w1 < m w" by simp
      from run_block_total [where P = P and body = body and m = m and es = es, OF p1] body obtain stop st2 w2
        where r: "run_block body es st w1 = Some (stop, st2, w2)" "P st2 w2" "m w2 \<le> m w1" by blast
      show ?thesis
      proof (cases stop)
        case True
        with r(1) g Inr have "dir_visits sys d sz body st w st2 w2" by (intro visits_break) simp_all
        then show ?thesis by blast
      next
        case False
        from less.hyps [OF le_less_trans [OF r(3) lt] r(2)]
        obtain st' w' where "dir_visits sys d sz body st2 w2 st' w'" by blast
        with visits_block [OF g [unfolded Inr] \<open>es \<noteq> []\<close>, of body st st2 w2] r(1) False
        show ?thesis by auto
      qed
    qed
  qed
qed

text \<open>
  A loop that reads a record or is interrupted brings the measure down; one that does not
  runs its body at most once, on a failed read.
\<close>

lemma dir_visits_spends:
  assumes "dir_visits sys d sz body st w st' w'" and bound: "listing_bound sys m" and "P st w"
    and reads: "\<And>d n st w r w'. P st w \<Longrightarrow> sys_getdents sys d n w = (r, w') \<Longrightarrow> P st w'"
    and body: "\<And>v st w. P st w \<Longrightarrow>
      \<exists>stop st' w'. body v st w = Some (stop, st', w') \<and> P st' w' \<and> m w' \<le> (m w :: nat)"
    and refl: "\<And>st. Q st st" and error: "\<And>e st w stop st' w'. body (Inl e) st w = Some (stop, st', w') \<Longrightarrow> Q st st'"
  shows "m w' < m w \<or> m w' \<le> m w \<and> Q st st'"
  using assms(1,3)
proof (induction rule: dir_visits.induct)
  case (visits_end w w' st)
  from visits_end(1) bound have "m w' \<le> m w" by (fastforce simp: listing_bound_def)
  with refl show ?case by blast
next
  case (visits_error w e w1 st stop st' w')
  from visits_error(1,2) bound have "m w1 \<le> m w" by (fastforce simp: listing_bound_def)
  moreover from body [OF reads [OF visits_error(4,1)], of "Inl e"] visits_error(3) have "m w' \<le> m w1" by auto
  ultimately show ?case using error [OF visits_error(3)] by simp
next
  case (visits_interrupted w w1 st st' w')
  from visits_interrupted(1) bound have "m w1 < m w" by (fastforce simp: listing_bound_def)
  with visits_interrupted(3) [OF reads [OF visits_interrupted(4,1)]] show ?case by auto
next
  case (visits_break w es w1 st st' w')
  from visits_break(2) have "es \<noteq> []" by auto
  with visits_break(1) bound have "m w1 < m w" by (fastforce simp: listing_bound_def)
  moreover have "m w' \<le> m w1"
    using run_block_total [where P = P and body = body and m = m and es = es, OF reads [OF visits_break(3,1)]] body
      visits_break(2) by auto
  ultimately show ?case by simp
next
  case (visits_block w es w1 st st1 w2 st' w')
  from visits_block(1,2) bound have "m w1 < m w" by (fastforce simp: listing_bound_def)
  moreover have "m w2 \<le> m w1 \<and> P st1 w2"
    using run_block_total [where P = P and body = body and m = m and es = es, OF reads [OF visits_block(6,1)]] body
      visits_block(3) by auto
  ultimately show ?case using visits_block(5) by auto
qed

lemma dir_for_each_total:
  assumes "records_advance sys" and "listing_bound sys m" and "P st w"
    and "\<And>d n st w r w'. P st w \<Longrightarrow> sys_getdents sys d n w = (r, w') \<Longrightarrow> P st w'"
    and "\<And>v st w. P st w \<Longrightarrow>
      \<exists>stop st' w'. body v st w = Some (stop, st', w') \<and> P st' w' \<and> m w' \<le> (m w :: nat)"
  shows "\<exists>st' w'. dir_for_each sys d sz body st w = Some (st', w')"
proof -
  from dir_visits_total [where P = P, OF assms(2,3)] assms(4,5)
  obtain st' w' where "dir_visits sys d sz body st w st' w'" by blast
  from dir_visits_complete [OF this assms(1)]
  have "dir_for_each sys d sz body st w = Some (st', w')"
    unfolding dir_for_each_def dir_read_def by simp
  then show ?thesis by blast
qed

lemma dir_for_each_visits:
  assumes "dir_for_each sys d sz body st w = Some (st', w')"
    and "records_advance sys" and "listing_bound sys m" and "P st w"
    and "\<And>d n st w r w'. P st w \<Longrightarrow> sys_getdents sys d n w = (r, w') \<Longrightarrow> P st w'"
    and "\<And>v st w. P st w \<Longrightarrow>
      \<exists>stop st' w'. body v st w = Some (stop, st', w') \<and> P st' w' \<and> m w' \<le> (m w :: nat)"
  shows "dir_visits sys d sz body st w st' w'"
proof -
  from dir_visits_total [where P = P, OF assms(3,4)] assms(5,6)
  obtain st1 w1 where v: "dir_visits sys d sz body st w st1 w1" by blast
  from dir_visits_complete [OF v assms(2)] assms(1) have "st1 = st'" "w1 = w'"
    by (simp_all add: dir_for_each_def dir_read_def)
  with v show ?thesis by simp
qed

text \<open>
  A measure of the records that are left, and the cost of a loop whose body costs at most
  one for every record.
\<close>

definition records_bound :: "'w sys \<Rightarrow> ('w \<Rightarrow> nat) \<Rightarrow> bool" where
  "records_bound sys m \<longleftrightarrow>
     (\<forall>d sz w ans w'. sys_getdents sys d sz w = (ans, w') \<longrightarrow>
        (case ans of
           Inr es \<Rightarrow> m w' + length es \<le> m w
         | Inl e \<Rightarrow> if e = EINTR then m w' < m w else m w' \<le> m w))"

lemma records_boundD:
  assumes "records_bound sys m"
  shows "sys_getdents sys d sz w = (Inr es, w') \<Longrightarrow> m w' + length es \<le> m w"
    and "sys_getdents sys d sz w = (Inl e, w') \<Longrightarrow> m w' \<le> m w"
  using assms unfolding records_bound_def by (fastforce split: if_splits)+

lemma records_bound_listing:
  assumes "records_bound sys m"
  shows "listing_bound sys m"
  unfolding listing_bound_def
proof (intro allI impI)
  fix d sz w ans w'
  assume g: "sys_getdents sys d sz w = (ans, w')"
  show "if ans = Inr [] \<or> (\<exists>e. ans = Inl e \<and> e \<noteq> EINTR) then m w' \<le> m w else m w' < m w"
  proof (cases ans)
    case (Inl e)
    with g assms show ?thesis by (auto simp: records_bound_def split: sum.splits if_splits)
  next
    case (Inr es)
    with records_boundD(1) [OF assms, of d sz w es w'] g show ?thesis by (cases es) auto
  qed
qed

definition costs :: "('s \<Rightarrow> nat) \<Rightarrow> ('w \<Rightarrow> nat) \<Rightarrow> ('s \<Rightarrow> 'w \<Rightarrow> bool) \<Rightarrow>
    ((dirent, errc) expected \<Rightarrow> 's \<Rightarrow> 'w \<Rightarrow> (bool \<times> 's \<times> 'w) option) \<Rightarrow> bool" where
  "costs c m P body \<longleftrightarrow>
     (\<forall>v st w stop st' w'. P st w \<longrightarrow> body v st w = Some (stop, st', w') \<longrightarrow>
        P st' w' \<and> m w' \<le> m w \<and> c st' \<le> c st + (case v of Inr _ \<Rightarrow> 1 | Inl _ \<Rightarrow> 0))"

lemma costsD:
  "costs c m P body \<Longrightarrow> P st w \<Longrightarrow> body v st w = Some (stop, st', w') \<Longrightarrow>
     P st' w' \<and> m w' \<le> m w \<and> c st' \<le> c st + (case v of Inr _ \<Rightarrow> 1 | Inl _ \<Rightarrow> 0)"
  unfolding costs_def by blast

lemma run_block_costs:
  "costs c m P body \<Longrightarrow> P st w \<Longrightarrow> run_block body es st w = Some (stop, st', w') \<Longrightarrow>
     P st' w' \<and> m w' \<le> m w \<and> c st' \<le> c st + length es"
proof (induction es arbitrary: st w)
  case (Cons e es)
  from Cons.prems(3) obtain stop1 st1 w1 where b: "body (Inr e) st w = Some (stop1, st1, w1)"
    and rest: "(if stop1 then Some (True, st1, w1) else run_block body es st1 w1) = Some (stop, st', w')"
    by (auto elim!: bind_SomeE)
  from costsD [OF Cons.prems(1,2) b] have 1: "P st1 w1" "m w1 \<le> m w" "c st1 \<le> c st + 1" by simp_all
  with Cons.IH [OF Cons.prems(1) 1(1)] rest show ?case by (cases stop1) auto
qed simp

lemma dir_visits_costs:
  assumes "dir_visits sys d sz body st w st' w'" and body: "costs c m P body" and bound: "records_bound sys m"
    and reads: "\<And>d n st w r w'. P st w \<Longrightarrow> sys_getdents sys d n w = (r, w') \<Longrightarrow> P st w'" and "P st w"
  shows "c st' + m w' \<le> c st + m w"
  using assms(1,5)
proof (induction rule: dir_visits.induct)
  case (visits_end w w' st)
  from records_boundD(1) [OF bound visits_end(1)] show ?case by simp
next
  case (visits_error w e w1 st stop st' w')
  from records_boundD(2) [OF bound visits_error(1)]
    costsD [OF body reads [OF visits_error(4,1)] visits_error(3)] show ?case by simp
next
  case (visits_interrupted w w1 st st' w')
  from records_boundD(2) [OF bound visits_interrupted(1)] visits_interrupted(3) [OF reads [OF visits_interrupted(4,1)]]
  show ?case by simp
next
  case (visits_break w es w1 st st' w')
  from records_boundD(1) [OF bound visits_break(1)]
    run_block_costs [OF body reads [OF visits_break(3,1)] visits_break(2)] show ?case by simp
next
  case (visits_block w es w1 st st1 w2 st' w')
  from records_boundD(1) [OF bound visits_block(1)] visits_block(5)
    run_block_costs [OF body reads [OF visits_block(6,1)] visits_block(3)] show ?case by simp
qed

text \<open>
  C23: the loop over a directory, with its buffer, offsets and refills, does what the
  specification of a directory listing says: whenever the system's answers make the listing
  end, the loop returns the same state and world.
\<close>

theorem dir_for_each_correct:
  assumes "records_advance sys" and "dir_visits sys d sz body st w st' w'"
  shows "dir_for_each sys d sz body st w = Some (st', w')"
  unfolding dir_for_each_def dir_read_def
  by (rule dir_visits_complete [OF assms(2,1)]) simp_all

text \<open>
  A directory of two blocks, the second read interrupted once, the last read failing: the
  world is the number of reads made.
\<close>

definition example_entry :: "string \<Rightarrow> dirent" where
  "example_entry name = \<lparr>d_name = name, d_type = DT_DIR, d_reclen = 24\<rparr>"

fun example_dents :: "nat \<Rightarrow> (dirent list, errc) expected" where
  "example_dents 0 = Inr [example_entry ''a'', example_entry ''b'']"
| "example_dents (Suc 0) = Inl EINTR"
| "example_dents (Suc (Suc 0)) = Inr [example_entry ''c'']"
| "example_dents n = Inl EIO"

definition example_sys :: "nat sys" where
  "example_sys = null_sys\<lparr>sys_getdents := \<lambda>d n w. (example_dents w, Suc w)\<rparr>"

definition example_body ::
  "(dirent, errc) expected \<Rightarrow> (errc + string) list \<Rightarrow> nat \<Rightarrow> (bool \<times> (errc + string) list \<times> nat) option" where
  "example_body v seen w = Some (False, seen @ [map_sum id d_name v], w)"

lemma example_dents_at [simp]:
  "sys_getdents example_sys d n w = (example_dents w, Suc w)"
  by (simp add: example_sys_def)

lemma example_dents_values:
  "example_dents 0 = Inr [example_entry ''a'', example_entry ''b'']"
  "example_dents 1 = Inl EINTR" "example_dents 2 = Inr [example_entry ''c'']"
  "example_dents 3 = Inl EIO"
  by code_simp+

lemma example_body_values [simp]: "example_body v seen w = Some (False, seen @ [map_sum id d_name v], w)"
  "d_name (example_entry name) = name"
  by (simp_all add: example_body_def example_entry_def)

theorem dir_for_each_correct_witness:
  "dir_for_each example_sys 3 65536 example_body [] 0 =
   Some ([Inr ''a'', Inr ''b'', Inr ''c'', Inl EIO], 4)"
proof (rule dir_for_each_correct)
  let ?visits = "dir_visits example_sys 3 65536 example_body"
  let ?all = "[Inr ''a'', Inr ''b'', Inr ''c'', Inl EIO]"
  show "records_advance example_sys"
    by (auto simp: records_advance_def example_entry_def elim!: example_dents.elims)
  have "?visits [Inr ''a'', Inr ''b'', Inr ''c''] 3 ?all 4"
    by (rule visits_error [where e = EIO and ?w1.0 = 4 and stop = False])
      (simp_all add: example_dents_values)
  then have "?visits [Inr ''a'', Inr ''b''] 2 ?all 4"
    by - (rule visits_block [where es = "[example_entry ''c'']" and ?w1.0 = 3 and ?w2.0 = 3], simp_all add: example_dents_values)
  then have "?visits [Inr ''a'', Inr ''b''] 1 ?all 4"
    by - (rule visits_interrupted [where ?w1.0 = 2], simp_all add: example_dents_values [simplified])
  then show "?visits [] 0 ?all 4"
    by - (rule visits_block [where es = "[example_entry ''a'', example_entry ''b'']" and ?w1.0 = 1
          and ?w2.0 = 1], simp_all add: example_dents_values)
qed

end
