(* ===== verification/Dir_Node.thy ===== *)
theory Dir_Node
  imports Os
begin

section \<open>Directory nodes\<close>

text \<open>
  \<open>src/dir_node.hpp\<close> and \<open>dir_node.cpp\<close>: the nodes of the recursive walk on a heap, the
  chain from a node to its root, the path built from it in one buffer, and opening and
  removing a directory by a path of any length. A pointer is an address; \<^const>\<open>None\<close> is
  the null pointer. Addresses are handed out in the order of allocation and not reused.
\<close>

record dir_node =
  dn_fd :: fd
  dn_parent :: "nat option"
  dn_name :: string
  dn_refs :: u32

type_synonym heap = "nat \<Rightarrow> dir_node option"

definition new_dir_node :: "fd \<Rightarrow> nat option \<Rightarrow> string \<Rightarrow> dir_node" where
  "new_dir_node d parent name = \<lparr>dn_fd = d, dn_parent = parent, dn_name = name, dn_refs = 1\<rparr>"

text \<open>Every node's parent is alive and was allocated before it.\<close>

definition heap_ok :: "heap \<Rightarrow> bool" where
  "heap_ok h \<longleftrightarrow> (\<forall>n d p. h n = Some d \<longrightarrow> dn_parent d = Some p \<longrightarrow> p < n \<and> h p \<noteq> None)"

subsection \<open>The chain of parents\<close>

text \<open>
  The iteration of \<open>BasicParentChain\<close>. \<^const>\<open>None\<close> stands for following a pointer to freed
  memory, or for never ending.
\<close>

partial_function (option) parent_chain :: "heap \<Rightarrow> nat option \<Rightarrow> nat list option" where
  "parent_chain h node =
     (case node of
        None \<Rightarrow> Some []
      | Some n \<Rightarrow>
          Option.bind (h n) (\<lambda>d.
            Option.bind (parent_chain h (dn_parent d)) (\<lambda>ns. Some (n # ns))))"

lemma parent_chain_None [simp]: "parent_chain h None = Some []"
  by (simp add: parent_chain.simps)

lemma parent_chain_Some:
  "parent_chain h (Some n) =
     Option.bind (h n) (\<lambda>d. Option.bind (parent_chain h (dn_parent d)) (\<lambda>ns. Some (n # ns)))"
  by (subst parent_chain.simps) simp

definition chain_nodes :: "heap \<Rightarrow> nat \<Rightarrow> dir_node list option" where
  "chain_nodes h n = map_option (map (\<lambda>n. the (h n))) (parent_chain h (Some n))"

text \<open>What the chain of a well-formed heap looks like: only its last node is a root.\<close>

definition rooted :: "dir_node list \<Rightarrow> bool" where
  "rooted ts \<longleftrightarrow> ts \<noteq> [] \<and> dn_parent (last ts) = None \<and> (\<forall>t \<in> set (butlast ts). dn_parent t \<noteq> None)"

lemma rooted_Cons: "rooted (t # ts) \<longleftrightarrow> (if ts = [] then dn_parent t = None else dn_parent t \<noteq> None \<and> rooted ts)"
  by (auto simp: rooted_def)

lemma chain_nodes_step:
  assumes "h n = Some d"
  shows "chain_nodes h n =
    map_option ((#) d) (case dn_parent d of None \<Rightarrow> Some [] | Some p \<Rightarrow> chain_nodes h p)"
proof -
  have "parent_chain h (Some n) = map_option ((#) n) (parent_chain h (dn_parent d))"
    using assms by (cases "parent_chain h (dn_parent d)") (simp_all add: parent_chain_Some)
  with assms show ?thesis
    by (simp add: chain_nodes_def option.map_comp comp_def split: option.split)
qed

text \<open>What a chain needs of the heap: only the nodes allocated before its head.\<close>

definition heap_ok_upto :: "heap \<Rightarrow> nat \<Rightarrow> bool" where
  "heap_ok_upto h n \<longleftrightarrow>
     (\<forall>m \<le> n. \<forall>d p. h m = Some d \<longrightarrow> dn_parent d = Some p \<longrightarrow> p < m \<and> h p \<noteq> None)"

lemma heap_ok_upto: "heap_ok h \<Longrightarrow> heap_ok_upto h n"
  by (simp add: heap_ok_def heap_ok_upto_def)

lemma heap_ok_upto_mono: "heap_ok_upto h n \<Longrightarrow> m \<le> n \<Longrightarrow> heap_ok_upto h m"
  unfolding heap_ok_upto_def by (meson order_trans)

lemma chain_nodes_upto:
  assumes "heap_ok_upto h n" and "h n = Some d"
  shows "\<exists>ts. chain_nodes h n = Some (d # ts) \<and> rooted (d # ts) \<and>
    (case dn_parent d of None \<Rightarrow> ts = [] | Some p \<Rightarrow> chain_nodes h p = Some ts)"
  using assms
proof (induction n arbitrary: d rule: less_induct)
  case (less n)
  show ?case
  proof (cases "dn_parent d")
    case None
    with less.prems show ?thesis by (simp add: chain_nodes_step rooted_def)
  next
    case (Some p)
    with less.prems have p: "p < n" "h p \<noteq> None" by (auto simp: heap_ok_upto_def)
    with less.IH [OF p(1) heap_ok_upto_mono [OF less.prems(1)]]
    obtain d' ts where "chain_nodes h p = Some (d' # ts)" "rooted (d' # ts)" by fastforce
    with Some less.prems show ?thesis by (simp add: chain_nodes_step rooted_Cons)
  qed
qed

lemmas chain_nodes_rec = chain_nodes_upto [OF heap_ok_upto]

subsection \<open>PathInto\<close>

definition path_total :: "dir_node list \<Rightarrow> nat" where
  "path_total ts = foldl (\<lambda>acc t. acc + length (dn_name t) + of_bool (dn_parent t \<noteq> None)) 0 ts"

text \<open>
  The second pass, which writes the buffer backwards. \<^const>\<open>None\<close> is a write before the
  start of the buffer.
\<close>

fun path_write :: "dir_node list \<Rightarrow> string \<times> nat \<Rightarrow> (string \<times> nat) option" where
  "path_write [] (data, cursor) = Some (data, cursor)"
| "path_write (t # ts) (data, cursor) =
     (if cursor < length (dn_name t) then None
      else
        (let cursor = cursor - length (dn_name t); data = copy_n (dn_name t) data cursor
         in if dn_parent t \<noteq> None then
              (if cursor = 0 then None
               else (let cursor = cursor - 1; data = data[cursor := CHR ''/'']
                     in path_write ts (data, cursor)))
            else path_write ts (data, cursor)))"

text \<open>\<open>garbage\<close> gives the bytes of the storage before it is written.\<close>

definition path_into :: "(nat \<Rightarrow> char) \<Rightarrow> heap \<Rightarrow> nat \<Rightarrow> string option" where
  "path_into garbage h n =
     Option.bind (chain_nodes h n) (\<lambda>ts.
       let total = path_total ts
       in map_option fst (path_write ts (map garbage [0..<total], total)))"

text \<open>The path in one line: the names from the root down, joined by slashes.\<close>

fun join_path :: "string list \<Rightarrow> string" where
  "join_path [] = []"
| "join_path [s] = s"
| "join_path (s # ss) = s @ CHR ''/'' # join_path ss"

definition node_path :: "dir_node list \<Rightarrow> string" where
  "node_path ts = join_path (rev (map dn_name ts))"

lemma join_path_snoc: "ss \<noteq> [] \<Longrightarrow> join_path (ss @ [s]) = join_path ss @ CHR ''/'' # s"
  by (induction ss rule: join_path.induct) auto

lemma node_path_Cons:
  "node_path (t # ts) = (if ts = [] then dn_name t else node_path ts @ CHR ''/'' # dn_name t)"
  by (simp add: node_path_def join_path_snoc)

lemma foldl_add2:
  fixes f g :: "'a \<Rightarrow> nat"
  shows "foldl (\<lambda>acc t. acc + f t + g t) n ts = n + sum_list (map (\<lambda>t. f t + g t) ts)"
  by (induction ts arbitrary: n) auto

lemma path_total_Cons:
  "path_total (t # ts) = length (dn_name t) + of_bool (dn_parent t \<noteq> None) + path_total ts"
  unfolding path_total_def foldl_add2 by simp

lemma path_total_Nil [simp]: "path_total [] = 0"
  by (simp add: path_total_def)

lemma path_total_length: "rooted ts \<Longrightarrow> path_total ts = length (node_path ts)"
proof (induction ts)
  case (Cons t ts)
  then show ?case
    by (cases "ts = []") (auto simp: rooted_Cons path_total_Cons node_path_Cons)
qed (simp add: rooted_def)

text \<open>Both passes agree: the cursor meets the start of the buffer when the root is written.\<close>

lemma path_write_correct:
  assumes "rooted ts" and "cursor = length (node_path ts)" and "cursor \<le> length data"
  shows "path_write ts (data, cursor) = Some (node_path ts @ drop cursor data, 0)"
  using assms
proof (induction ts arbitrary: data cursor)
  case (Cons t ts)
  show ?case
  proof (cases "ts = []")
    case True
    with Cons.prems show ?thesis by (simp add: rooted_Cons node_path_Cons copy_n_def)
  next
    case False
    let ?c = "length (node_path ts)"
    let ?data = "(copy_n (dn_name t) data (Suc ?c))[?c := CHR ''/'']"
    from False Cons.prems have c: "cursor = ?c + 1 + length (dn_name t)" and par: "dn_parent t \<noteq> None"
      and r: "rooted ts" by (auto simp: node_path_Cons rooted_Cons)
    from Cons.prems(3) c have d: "?data = take ?c data @ CHR ''/'' # dn_name t @ drop cursor data"
      by (simp add: copy_n_def list_update_append take_Suc_conv_app_nth)
    from Cons.prems(3) c have "?c \<le> length ?data" by (simp add: copy_n_def)
    from Cons.IH [OF r refl this] have "path_write ts (?data, ?c) = Some (node_path ts @ drop ?c ?data, 0)" .
    moreover from Cons.prems(3) c have "drop ?c ?data = CHR ''/'' # dn_name t @ drop cursor data"
      unfolding d by simp
    ultimately show ?thesis
      using False c par by (simp add: node_path_Cons Let_def)
  qed
qed (simp add: rooted_def)

lemma path_into_upto:
  assumes "heap_ok_upto h n" and "chain_nodes h n = Some ts"
  shows "path_into garbage h n = Some (node_path ts)"
proof -
  from assms(2) obtain d where "h n = Some d"
    by (cases "h n") (auto simp: chain_nodes_def parent_chain_Some)
  from chain_nodes_upto [OF assms(1) this] assms(2) have r: "rooted ts" by auto
  show ?thesis
    using path_write_correct [OF r refl, of "map garbage [0..<path_total ts]"] assms(2)
    by (simp add: path_into_def path_total_length [OF r] Let_def)
qed

lemmas path_into_eq = path_into_upto [OF heap_ok_upto]

lemma path_into_total: "heap_ok_upto h n \<Longrightarrow> h n \<noteq> None \<Longrightarrow> \<exists>path. path_into garbage h n = Some path"
  using chain_nodes_upto path_into_upto by blast

text \<open>
  C19: on a well-formed heap the chain of a live node ends at a root, and building its path
  never writes outside the buffer, leaves none of its bytes unwritten, and gives the names
  from the root down to the node, joined by slashes.
\<close>

theorem path_into_correct:
  assumes "heap_ok h" and "h n = Some d"
  shows "\<exists>ts. chain_nodes h n = Some (d # ts) \<and> dn_parent (last (d # ts)) = None \<and>
    path_into garbage h n = Some (join_path (rev (map dn_name (d # ts)))) \<and>
    path_write (d # ts) (map garbage [0..<path_total (d # ts)], path_total (d # ts)) =
      Some (join_path (rev (map dn_name (d # ts))), 0)"
proof -
  from chain_nodes_rec [OF assms] obtain ts
    where c: "chain_nodes h n = Some (d # ts)" and r: "rooted (d # ts)" by blast
  have "path_write (d # ts) (map garbage [0..<path_total (d # ts)], path_total (d # ts)) =
      Some (node_path (d # ts), 0)"
    using path_write_correct [OF r refl, of "map garbage [0..<path_total (d # ts)]"]
    by (simp add: path_total_length [OF r] del: path_write.simps)
  with path_into_eq [OF assms(1) c, of garbage] c r show ?thesis
    unfolding node_path_def rooted_def by blast
qed

definition example_heap :: heap where
  "example_heap = [0 \<mapsto> new_dir_node 3 None ''top'', 1 \<mapsto> new_dir_node k_invalid (Some 0) ''a'',
     2 \<mapsto> new_dir_node k_invalid (Some 1) ''bc'']"

lemma example_heap_ok: "heap_ok example_heap"
  by (auto simp: heap_ok_def example_heap_def new_dir_node_def)

theorem path_into_correct_witness:
  "path_into (\<lambda>i. CHR ''?'') example_heap 2 = Some ''top/a/bc''"
proof -
  have "example_heap 2 = Some (new_dir_node k_invalid (Some 1) ''bc'')" by (simp add: example_heap_def)
  from path_into_correct [OF example_heap_ok this, of "\<lambda>i. CHR ''?''"]
  obtain ts where c: "chain_nodes example_heap 2 = Some (new_dir_node k_invalid (Some 1) ''bc'' # ts)"
    and p: "path_into (\<lambda>i. CHR ''?'') example_heap 2 =
      Some (join_path (rev (map dn_name (new_dir_node k_invalid (Some 1) ''bc'' # ts))))" by blast
  from c have "ts = [new_dir_node k_invalid (Some 0) ''a'', new_dir_node 3 None ''top'']"
    by (simp add: chain_nodes_def parent_chain_Some example_heap_def new_dir_node_def)
  then show ?thesis unfolding p by (simp add: new_dir_node_def)
qed

subsection \<open>Paths longer than the system allows\<close>

text \<open>\<open>PATH_MAX\<close> of \<open><climits>\<close>.\<close>

definition path_max :: "'w sys \<Rightarrow> nat" where
  "path_max sys = (case sys_platform sys of Linux \<Rightarrow> 4096 | Darwin \<Rightarrow> 1024)"

definition open_at :: "'w sys \<Rightarrow> fd \<Rightarrow> string \<Rightarrow> oflags \<Rightarrow> pool \<Rightarrow> 'w
    \<Rightarrow> (fd, open_error) expected \<times> pool \<times> 'w" where
  "open_at sys dir name flags p w =
     (if fd_is_open dir then os_openat sys dir name flags p w else os_open sys name flags p w)"

text \<open>
  \<open>OpenLong\<close>: the loop, on the directory reached so far, the path left, the pool and the
  world. Every return destroys \<open>dir\<close>.
\<close>

function open_long_loop :: "'w sys \<Rightarrow> fd \<Rightarrow> string \<Rightarrow> oflags \<Rightarrow> pool \<Rightarrow> 'w
    \<Rightarrow> (fd, open_error) expected \<times> pool \<times> 'w" where
  "open_long_loop sys dir path flags p w =
     (if length path \<ge> path_max sys then
        (case rfind_from (CHR ''/'') (path_max sys - 1) path of
           None \<Rightarrow> (Inl \<lparr>oe_code = ENAMETOOLONG, oe_retryable = False\<rparr>, fd_destroy sys dir p w)
         | Some slash \<Rightarrow>
             if slash = 0 then
               (Inl \<lparr>oe_code = ENAMETOOLONG, oe_retryable = False\<rparr>, fd_destroy sys dir p w)
             else
               (case open_at sys dir (take slash path) OpenDir p w of
                  (Inl err, p, w) \<Rightarrow> (Inl err, fd_destroy sys dir p w)
                | (Inr next, p, w) \<Rightarrow>
                    (case fd_move_assign sys dir next p w of
                       (dir, _, p, w) \<Rightarrow>
                         (let path = dropWhile (\<lambda>c. c = CHR ''/'') (drop slash path)
                          in open_long_loop sys dir path flags p w))))
      else
        (case open_at sys dir path flags p w of
           (opened, p, w) \<Rightarrow> (opened, fd_destroy sys dir p w)))"
  by pat_completeness auto
termination
  by (relation "measure (\<lambda>(sys, dir, path, flags, p, w). length path)")
    (auto dest!: rfind_from_Some(1) intro: le_less_trans [OF length_dropWhile_le])

declare open_long_loop.simps [simp del]

definition open_long :: "'w sys \<Rightarrow> string \<Rightarrow> oflags \<Rightarrow> pool \<Rightarrow> 'w
    \<Rightarrow> (fd, open_error) expected \<times> pool \<times> 'w" where
  "open_long sys path flags p w = open_long_loop sys k_invalid path flags p w"

definition dir_node_open ::
  "'w sys \<Rightarrow> (nat \<Rightarrow> char) \<Rightarrow> nat \<Rightarrow> heap \<Rightarrow> pool \<Rightarrow> 'w
    \<Rightarrow> ((unit, open_error) expected \<times> heap \<times> pool \<times> 'w) option" where
  "dir_node_open sys garbage n h p w =
     Option.bind (h n) (\<lambda>d.
       if fd_is_open (dn_fd d) then Some (Inr (), h, p, w)
       else
         Option.bind (path_into garbage h n) (\<lambda>path.
           case open_long sys path OpenDirNoFollow p w of
             (Inl err, p, w) \<Rightarrow> Some (Inl err, h, p, w)
           | (Inr opened, p, w) \<Rightarrow>
               (case fd_move_assign sys (dn_fd d) opened p w of
                  (new_fd, _, p, w) \<Rightarrow> Some (Inr (), h(n \<mapsto> d\<lparr>dn_fd := new_fd\<rparr>), p, w))))"

text \<open>
  \<open>RemoveEmpty\<close> returns the error the call left in \<open>errno\<close>, \<^const>\<open>None\<close> for the status 0,
  and the path it leaves in the scratch buffer.
\<close>

definition remove_empty ::
  "'w sys \<Rightarrow> (nat \<Rightarrow> char) \<Rightarrow> heap \<Rightarrow> nat \<Rightarrow> pool \<Rightarrow> 'w
    \<Rightarrow> (errc option \<times> string \<times> pool \<times> 'w) option" where
  "remove_empty sys garbage h n p w =
     Option.bind (path_into garbage h n) (\<lambda>path.
       if length path < path_max sys then
         (case sys_rmdir sys path w of (status, w) \<Rightarrow> Some (status, path, p, w))
       else
         (case rfind (CHR ''/'') path of
            None \<Rightarrow> Some (Some ENAMETOOLONG, path, p, w)
          | Some slash \<Rightarrow>
              (case open_long sys (take slash path) OpenDir p w of
                 (Inl err, p, w) \<Rightarrow> Some (Some (oe_code err), path, p, w)
               | (Inr parent, p, w) \<Rightarrow>
                   (case sys_unlinkat sys parent (drop (slash + 1) path) True w of
                      (status, w) \<Rightarrow>
                        (case fd_destroy sys parent p w of (p, w) \<Rightarrow>
                           Some (status, path, p, w))))))"

subsection \<open>Cutting a long path\<close>

text \<open>
  The reference: the pieces \<open>OpenLong\<close> cuts a path into, before it opens any of them; the
  second component is the last piece, absent when the path cannot be cut.
\<close>

function cut_pieces :: "nat \<Rightarrow> string \<Rightarrow> string list \<times> string option" where
  "cut_pieces pm path =
     (if length path < pm then ([], Some path)
      else
        (case rfind_from (CHR ''/'') (pm - 1) path of
           Some (Suc i) \<Rightarrow>
             apfst ((#) (take (Suc i) path))
               (cut_pieces pm (dropWhile (\<lambda>c. c = CHR ''/'') (drop (Suc i) path)))
         | _ \<Rightarrow> ([], None)))"
  by pat_completeness auto
termination
  by (relation "measure (\<lambda>(pm, path). length path)")
    (auto dest!: rfind_from_Some(1) intro: le_less_trans [OF length_dropWhile_le])

declare cut_pieces.simps [simp del]

fun open_pieces :: "'w sys \<Rightarrow> fd \<Rightarrow> string list \<Rightarrow> string option \<Rightarrow> oflags \<Rightarrow> pool \<Rightarrow> 'w
    \<Rightarrow> (fd, open_error) expected \<times> pool \<times> 'w" where
  "open_pieces sys dir [] None flags p w =
     (Inl \<lparr>oe_code = ENAMETOOLONG, oe_retryable = False\<rparr>, fd_destroy sys dir p w)"
| "open_pieces sys dir [] (Some name) flags p w =
     (case open_at sys dir name flags p w of (opened, p, w) \<Rightarrow> (opened, fd_destroy sys dir p w))"
| "open_pieces sys dir (q # qs) final flags p w =
     (case open_at sys dir q OpenDir p w of
        (Inl err, p, w) \<Rightarrow> (Inl err, fd_destroy sys dir p w)
      | (Inr next, p, w) \<Rightarrow>
          (case fd_move_assign sys dir next p w of
             (dir, _, p, w) \<Rightarrow> open_pieces sys dir qs final flags p w))"

text \<open>The names a path goes through.\<close>

fun split_slash :: "string \<Rightarrow> string list" where
  "split_slash [] = [[]]"
| "split_slash (c # s) =
     (if c = CHR ''/'' then [] # split_slash s
      else (c # hd (split_slash s)) # tl (split_slash s))"

definition path_names :: "string \<Rightarrow> string list" where
  "path_names s = filter (\<lambda>x. x \<noteq> []) (split_slash s)"

lemma split_slash_not_Nil [simp]: "split_slash s \<noteq> []"
  by (cases s) auto

lemma split_slash_append: "split_slash (a @ CHR ''/'' # b) = split_slash a @ split_slash b"
  by (induction a) auto

lemma path_names_append: "path_names (a @ CHR ''/'' # b) = path_names a @ path_names b"
  by (simp add: path_names_def split_slash_append)

lemma path_names_strip: "path_names (dropWhile (\<lambda>c. c = CHR ''/'') s) = path_names s"
  by (induction s) (auto simp: path_names_def)

lemma split_slash_run:
  "CHR ''/'' \<notin> set s \<Longrightarrow> split_slash s = [s]"
  by (induction s) auto

lemma hd_split_slash: "hd (split_slash s) = takeWhile (\<lambda>c. c \<noteq> CHR ''/'') s"
  by (induction s) auto

lemma path_names_cut:
  assumes "rfind_from (CHR ''/'') n path = Some i"
  shows "path_names path =
    path_names (take i path) @ path_names (dropWhile (\<lambda>c. c = CHR ''/'') (drop i path))"
proof -
  note facts = rfind_from_Some [OF assms]
  then have d: "drop i path = CHR ''/'' # drop (Suc i) path" by (metis Cons_nth_drop_Suc)
  then have "path = take i path @ CHR ''/'' # drop (Suc i) path" by (metis append_take_drop_id)
  then have "path_names path = path_names (take i path) @ path_names (drop (Suc i) path)"
    by (metis path_names_append)
  moreover have "path_names (dropWhile (\<lambda>c. c = CHR ''/'') (drop i path)) =
      path_names (drop (Suc i) path)"
    unfolding path_names_strip d using path_names_append [of "[]" "drop (Suc i) path"]
    by (simp add: path_names_def)
  ultimately show ?thesis by simp
qed

text \<open>No slash but possibly the first byte among the first \<open>n\<close>: a name is almost as long.\<close>

lemma long_name:
  assumes "n \<le> length path" and "2 \<le> n" and "\<forall>i < n. 0 < i \<longrightarrow> path ! i \<noteq> CHR ''/''"
  shows "\<exists>x \<in> set (path_names path). n - 1 \<le> length x"
proof -
  from assms obtain c s where path: "path = c # s" by (cases path) auto
  have "s ! i \<noteq> CHR ''/''" if "i < n - 1" for i
    using assms(3) [rule_format, of "Suc i"] that by (simp add: path)
  then have run: "n - 1 \<le> length (takeWhile (\<lambda>c. c \<noteq> CHR ''/'') s)"
    using assms(1) path by (intro length_takeWhile_ge) auto
  show ?thesis
  proof (cases "c = CHR ''/''")
    case True
    have "takeWhile (\<lambda>c. c \<noteq> CHR ''/'') s \<in> set (path_names path)"
      using run assms(2) by (auto simp: path path_names_def True simp flip: hd_split_slash)
    with run show ?thesis by blast
  next
    case False
    then have "c # takeWhile (\<lambda>c. c \<noteq> CHR ''/'') s \<in> set (path_names path)"
      by (simp add: path path_names_def hd_split_slash)
    with run show ?thesis by (intro bexI) auto
  qed
qed

lemma open_long_loop_pieces:
  "open_long_loop sys dir path flags p w =
     (case cut_pieces (path_max sys) path of (qs, final) \<Rightarrow> open_pieces sys dir qs final flags p w)"
proof (induction sys dir path flags p w rule: open_long_loop.induct)
  case (1 sys dir path flags p w)
  show ?case
  proof (cases "length path \<ge> path_max sys")
    case False
    then show ?thesis by (simp add: open_long_loop.simps [of sys dir path] cut_pieces.simps [of _ path])
  next
    case long: True
    show ?thesis
    proof (cases "rfind_from (CHR ''/'') (path_max sys - 1) path")
      case None
      with long show ?thesis
        by (simp add: open_long_loop.simps [of sys dir path] cut_pieces.simps [of _ path])
    next
      case (Some i)
      show ?thesis
      proof (cases i)
        case 0
        with long Some show ?thesis
          by (simp add: open_long_loop.simps [of sys dir path] cut_pieces.simps [of _ path])
      next
        case (Suc k)
        let ?rest = "dropWhile (\<lambda>c. c = CHR ''/'') (drop (Suc k) path)"
        obtain qs final where c: "cut_pieces (path_max sys) ?rest = (qs, final)" by fastforce
        with long Some Suc have c': "cut_pieces (path_max sys) path = (take (Suc k) path # qs, final)"
          by (simp add: cut_pieces.simps [of _ path])
        have IH: "open_long_loop sys d ?rest flags p1 w1 = open_pieces sys d qs final flags p1 w1"
          if "open_at sys dir (take (Suc k) path) OpenDir p w = (Inr nxt, p0, w0)"
            and "fd_move_assign sys dir nxt p0 w0 = (d, d0, p1, w1)" for nxt p0 w0 d d0 p1 w1
          using 1 [OF long Some] that c Suc by fastforce
        from long Some Suc IH show ?thesis
          unfolding open_long_loop.simps [of sys dir path] c'
          by (simp add: Let_def split: prod.split sum.split)
      qed
    qed
  qed
qed

lemma cut_pieces_facts:
  assumes "2 \<le> pm" and "cut_pieces pm path = (qs, final)"
  shows "list_all (\<lambda>q. 0 < length q \<and> length q < pm) qs \<and>
    (case final of
       Some q \<Rightarrow> length q < pm \<and> concat (map path_names (qs @ [q])) = path_names path
     | None \<Rightarrow> list_ex (\<lambda>x. pm - 1 \<le> length x) (path_names path))"
  using assms
proof (induction pm path arbitrary: qs final rule: cut_pieces.induct)
  case (1 pm path)
  show ?case
  proof (cases "length path < pm")
    case True
    with 1(3) show ?thesis by (auto simp: cut_pieces.simps [of _ path])
  next
    case long: False
    have bad: "list_ex (\<lambda>x. pm - 1 \<le> length x) (path_names path)"
      if "\<forall>i < pm. 0 < i \<longrightarrow> path ! i \<noteq> CHR ''/''"
      using long_name [OF _ 1(2) that] long by (auto simp: list_ex_iff)
    show ?thesis
    proof (cases "rfind_from (CHR ''/'') (pm - 1) path")
      case None
      with long have "\<forall>i < pm. 0 < i \<longrightarrow> path ! i \<noteq> CHR ''/''" by (auto simp: rfind_from_None)
      with bad None long 1 show ?thesis by (simp add: cut_pieces.simps [of _ path])
    next
      case (Some i)
      note f = rfind_from_Some [OF Some]
      show ?thesis
      proof (cases i)
        case 0
        with f(4) long have "\<forall>i < pm. 0 < i \<longrightarrow> path ! i \<noteq> CHR ''/''" by auto
        with bad 0 Some long 1 show ?thesis by (simp add: cut_pieces.simps [of _ path])
      next
        case (Suc k)
        let ?rest = "dropWhile (\<lambda>c. c = CHR ''/'') (drop (Suc k) path)"
        obtain qs' where r: "cut_pieces pm ?rest = (qs', final)" and qs: "qs = take (Suc k) path # qs'"
          using 1(3) long Some Suc by (cases "cut_pieces pm ?rest") (simp add: cut_pieces.simps [of _ path])
        note IH = 1(1) [OF long Some Suc 1(2) r]
        have head: "0 < length (take (Suc k) path) \<and> length (take (Suc k) path) < pm"
          using f(1,2) Suc 1(2) by auto
        note names = path_names_cut [OF Some, unfolded Suc]
        show ?thesis
        proof (cases final)
          case None
          with IH head names show ?thesis by (simp add: qs)
        next
          case (Some q)
          with IH head names show ?thesis by (simp add: qs)
        qed
      qed
    qed
  qed
qed

text \<open>
  C21: opening a path of any length comes down to opening its pieces one below the other.
  Every piece is shorter than \<open>PATH_MAX\<close>, so it and its terminator fit the stack buffer; the
  pieces go through the same names as the path; and the only paths refused before the last
  piece are those with a name of at least \<open>PATH_MAX - 1\<close> bytes.
\<close>

theorem open_long_pieces:
  "case cut_pieces (path_max sys) path of (qs, final) \<Rightarrow>
     open_long sys path flags p w = open_pieces sys k_invalid qs final flags p w \<and>
     list_all (\<lambda>q. 0 < length q \<and> length q < path_max sys) qs \<and>
     (case final of
        Some q \<Rightarrow> length q < path_max sys \<and> concat (map path_names (qs @ [q])) = path_names path
      | None \<Rightarrow> list_ex (\<lambda>x. path_max sys - 1 \<le> length x) (path_names path))"
proof -
  have "2 \<le> path_max sys" by (simp add: path_max_def split: platform.split)
  from cut_pieces_facts [OF this] show ?thesis
    by (simp add: open_long_def open_long_loop_pieces split: prod.split)
qed

subsection \<open>Leases\<close>

lemma open_at_packed:
  "bits p = packed (l + k) e \<Longrightarrow> Suc (l + k) < 2 ^ 32 \<Longrightarrow>
     open_at sys dir name flags p w = (res, p', w') \<Longrightarrow>
     bits p' = packed ((case res of Inr _ \<Rightarrow> Suc l | Inl _ \<Rightarrow> l) + k) e"
  by (auto simp: open_at_def os_open_def os_openat_def split: if_splits sum.split
      dest: fd_open_packed [of p "l + k" e])

lemma open_at_nonneg: "open_at sys dir name flags p w = (Inr d, p', w') \<Longrightarrow> 0 \<le> d"
  by (auto simp: open_at_def os_open_def os_openat_def dest!: fd_open_Inr_nonneg split: if_splits)

lemma fd_close_owned:
  assumes "bits p = packed (l + of_bool (0 \<le> d)) e" and "fd_close sys d p w = (d', p', w')"
  shows "\<exists>e'. bits p' = packed l e'"
  using fd_close_packed(1) [OF assms(1) _ assms(2)] by (cases "0 \<le> d") auto

lemma fd_destroy_owned:
  assumes "bits p = packed (l + of_bool (0 \<le> d)) e" and "fd_destroy sys d p w = (p', w')"
  shows "\<exists>e'. bits p' = packed l e'"
  using fd_close_owned [OF assms(1)] assms(2) by (auto simp: fd_destroy_def split: prod.splits)

lemma open_pieces_packed:
  assumes "bits p = packed (l + of_bool (0 \<le> dir)) e" and l: "Suc (Suc l) < 2 ^ 32"
    and "open_pieces sys dir qs final flags p w = (res, p', w')"
  shows "\<exists>e'. bits p' = packed (case res of Inr _ \<Rightarrow> Suc l | Inl _ \<Rightarrow> l) e'"
  using assms(1,3)
proof (induction qs arbitrary: dir p w e)
  case Nil
  have k: "Suc (l + of_bool (0 \<le> dir)) < 2 ^ 32" using l by (auto simp: of_bool_def)
  show ?case
  proof (cases final)
    case None
    with Nil fd_destroy_owned [OF Nil(1)] show ?thesis by (auto split: prod.splits)
  next
    case (Some name)
    obtain r1 p1 w1 where o: "open_at sys dir name flags p w = (r1, p1, w1)" by (metis prod_cases3)
    with Nil(2) Some have d: "fd_destroy sys dir p1 w1 = (p', w')" and r: "res = r1" by auto
    show ?thesis unfolding r by (rule fd_destroy_owned [OF open_at_packed [OF Nil(1) k o] d])
  qed
next
  case (Cons q qs)
  have k: "Suc (l + of_bool (0 \<le> dir)) < 2 ^ 32" using l by (auto simp: of_bool_def)
  obtain r1 p1 w1 where o: "open_at sys dir q OpenDir p w = (r1, p1, w1)" by (metis prod_cases3)
  note b1 = open_at_packed [OF Cons.prems(1) k o]
  show ?case
  proof (cases r1)
    case (Inl err)
    with Cons.prems(2) o have d: "fd_destroy sys dir p1 w1 = (p', w')" and r: "res = r1" by auto
    show ?thesis unfolding r by (rule fd_destroy_owned [OF b1 d])
  next
    case (Inr nxt)
    obtain d0 p2 w2 where c: "fd_close sys dir p1 w1 = (d0, p2, w2)" by (metis prod_cases3)
    from o Inr have "0 \<le> nxt" by (blast dest: open_at_nonneg)
    with fd_close_owned [OF b1 c] Inr obtain e2 where "bits p2 = packed (l + of_bool (0 \<le> nxt)) e2"
      by auto
    moreover from Cons.prems(2) o Inr c have "open_pieces sys nxt qs final flags p2 w2 = (res, p', w')"
      by (simp add: fd_move_assign_def)
    ultimately show ?thesis by (rule Cons.IH)
  qed
qed

text \<open>
  Opening a path of any length leases exactly one descriptor when it succeeds and none
  when it fails: every intermediate directory is closed again.
\<close>

theorem open_long_leases:
  assumes "bits p = packed l e" and "Suc (Suc l) < 2 ^ 32"
    and "open_long sys path flags p w = (res, p', w')"
  shows "\<exists>e'. bits p' = packed (case res of Inr _ \<Rightarrow> Suc l | Inl _ \<Rightarrow> l) e'"
  using assms
  by (auto simp: open_long_def open_long_loop_pieces intro!: open_pieces_packed [of p l k_invalid e]
      split: prod.splits)

theorem open_long_leases_witness:
  "\<exists>res p' w'. open_long null_sys (replicate 5000 (CHR ''/'')) OpenDir initial_pool () = (res, p', w') \<and>
     (\<exists>e'. bits p' = packed (case res of Inr _ \<Rightarrow> 1 | Inl _ \<Rightarrow> 0) e')"
proof -
  obtain res p' w' where o: "open_long null_sys (replicate 5000 (CHR ''/'')) OpenDir initial_pool () =
      (res, p', w')" by (metis prod_cases3)
  have "bits initial_pool = packed 0 0" by (simp add: initial_pool_def packed_def)
  from open_long_leases [OF this _ o] o show ?thesis by (auto split: sum.splits)
qed

subsection \<open>Opening and removing a node\<close>

lemma open_long_nonneg: "open_long sys path flags p w = (Inr d, p', w') \<Longrightarrow> 0 \<le> d"
proof -
  have "open_pieces sys dir qs final flags p w = (Inr d, p', w') \<Longrightarrow> 0 \<le> d" for dir qs final p w
    by (induction sys dir qs final flags p w rule: open_pieces.induct)
      (auto dest: open_at_nonneg split: prod.splits sum.splits)
  then show "open_long sys path flags p w = (Inr d, p', w') \<Longrightarrow> 0 \<le> d"
    by (auto simp: open_long_def open_long_loop_pieces split: prod.splits)
qed

text \<open>
  C20: opening a live node succeeds only with its descriptor open, changes no other node,
  and keeps the pool's count equal to the descriptors held; when it fails the node is as
  before, closed.
\<close>

theorem dir_node_open_correct:
  assumes "heap_ok h" and "h n = Some d"
    and "bits p = packed (l + of_bool (fd_is_open (dn_fd d))) e" and "Suc (Suc l) < 2 ^ 32"
  shows "\<exists>res h' p' w' d' e'. dir_node_open sys garbage n h p w = Some (res, h', p', w') \<and>
    h' = h(n \<mapsto> d') \<and> (\<exists>f. d' = d\<lparr>dn_fd := f\<rparr>) \<and>
    bits p' = packed (l + of_bool (fd_is_open (dn_fd d'))) e' \<and>
    (case res of Inr _ \<Rightarrow> fd_is_open (dn_fd d') | Inl _ \<Rightarrow> \<not> fd_is_open (dn_fd d) \<and> d' = d)"
proof (cases "fd_is_open (dn_fd d)")
  case True
  with assms show ?thesis
    by (intro exI [of _ "Inr ()"] exI [of _ h] exI [of _ p] exI [of _ w] exI [of _ d] exI [of _ e])
      (auto simp: dir_node_open_def fun_upd_idem intro: exI [of _ "dn_fd d"])
next
  case closed: False
  from chain_nodes_rec [OF assms(1,2)] path_into_eq [OF assms(1)]
  obtain path where path: "path_into garbage h n = Some path" by blast
  obtain res p1 w1 where o: "open_long sys path OpenDirNoFollow p w = (res, p1, w1)"
    by (metis prod_cases3)
  from assms(3) closed have p: "bits p = packed l e" by simp
  from open_long_leases [OF p assms(4) o] obtain e' where
    e': "bits p1 = packed (case res of Inr _ \<Rightarrow> Suc l | Inl _ \<Rightarrow> l) e'" by blast
  show ?thesis
  proof (cases res)
    case (Inl err)
    with closed path o e' assms(2) show ?thesis
      by (intro exI [of _ "Inl err"] exI [of _ h] exI [of _ p1] exI [of _ w1] exI [of _ d] exI [of _ e'])
        (auto simp: dir_node_open_def fun_upd_idem intro: exI [of _ "dn_fd d"])
  next
    case (Inr f)
    from o Inr have "0 \<le> f" by (simp add: open_long_nonneg)
    moreover have "fd_move_assign sys (dn_fd d) f p1 w1 = (f, k_invalid, p1, w1)"
      using closed by (simp add: fd_move_assign_def fd_close_def fd_is_open_def)
    ultimately show ?thesis using closed path o e' assms(2) Inr
      by (intro exI [of _ "Inr ()"] exI [of _ "h(n \<mapsto> d\<lparr>dn_fd := f\<rparr>)"] exI [of _ p1] exI [of _ w1]
          exI [of _ "d\<lparr>dn_fd := f\<rparr>"] exI [of _ e']) (auto simp: dir_node_open_def fd_is_open_def)
  qed
qed

text \<open>The node \<open>top/a/bc\<close> opened by its path: the system hands out the world as descriptor.\<close>

definition example_open_sys :: "nat sys" where
  "example_open_sys = null_sys\<lparr>sys_open := \<lambda>path flags w. (if path = ''top/a/bc'' then Inr w else Inl ENOENT, Suc w)\<rparr>"

theorem dir_node_open_correct_witness:
  "\<exists>h' p' w' d'. dir_node_open example_open_sys (\<lambda>i. CHR ''?'') 2 example_heap initial_pool 7 =
     Some (Inr (), h', p', w') \<and> h' 2 = Some d' \<and> fd_is_open (dn_fd d')"
proof -
  let ?d = "new_dir_node k_invalid (Some 1) ''bc''"
  have h: "example_heap 2 = Some ?d" by (simp add: example_heap_def)
  have c: "\<not> fd_is_open (dn_fd ?d)" by (simp add: new_dir_node_def fd_is_open_def)
  then have b: "bits initial_pool = packed (0 + of_bool (fd_is_open (dn_fd ?d))) 0"
    by (simp add: initial_pool_def packed_def)
  from dir_node_open_correct [OF example_heap_ok h b, of example_open_sys "\<lambda>i. CHR ''?''" 7]
  obtain res h' p' w' d' where r: "dir_node_open example_open_sys (\<lambda>i. CHR ''?'') 2 example_heap initial_pool 7 =
      Some (res, h', p', w')" and h': "h' = example_heap(2 \<mapsto> d')"
    and d': "case res of Inr _ \<Rightarrow> fd_is_open (dn_fd d') | Inl _ \<Rightarrow> \<not> fd_is_open (dn_fd ?d) \<and> d' = ?d"
    by auto
  have "chain_nodes example_heap 2 = Some [?d, new_dir_node k_invalid (Some 0) ''a'', new_dir_node 3 None ''top'']"
    by (simp add: chain_nodes_def parent_chain_Some example_heap_def new_dir_node_def)
  from path_into_eq [OF example_heap_ok this]
  have path: "path_into (\<lambda>i. CHR ''?'') example_heap 2 = Some ''top/a/bc''"
    by (simp add: node_path_def new_dir_node_def)
  have "fst (open_long example_open_sys ''top/a/bc'' OpenDirNoFollow initial_pool 7) = Inr 7"
    by (simp add: open_long_def open_long_loop.simps path_max_def example_open_sys_def null_sys_def
        open_at_def fd_is_open_def os_open_def fd_open_def Let_def pool_reserve_def
        leases_acquire_def raise_if_needed_def capacity_impl_def get_limit_def initial_pool_def)
  with r c h path have "res = Inr ()"
    by (auto simp: dir_node_open_def split: prod.splits)
  with r h' d' show ?thesis by auto
qed

text \<open>
  Removing a node below a root removes its own name in the directory its parent's
  path names: by one \<open>rmdir\<close> of the whole path when that is short enough, else by opening
  the parent's path and \<open>unlinkat\<close> of the name in it, the parent being closed again.
\<close>

theorem remove_empty_correct:
  assumes "heap_ok h" and "chain_nodes h n = Some (d # ts)" and "ts \<noteq> []"
    and "CHR ''/'' \<notin> set (dn_name d)"
  shows "remove_empty sys garbage h n p w =
    (let path = node_path ts @ CHR ''/'' # dn_name d
     in if length path < path_max sys then
          (case sys_rmdir sys path w of (status, w) \<Rightarrow> Some (status, path, p, w))
        else
          (case open_long sys (node_path ts) OpenDir p w of
             (Inl err, p, w) \<Rightarrow> Some (Some (oe_code err), path, p, w)
           | (Inr parent, p, w) \<Rightarrow>
               (case sys_unlinkat sys parent (dn_name d) True w of
                  (status, w) \<Rightarrow> Some (status, path, fd_destroy sys parent p w))))"
proof -
  from path_into_eq [OF assms(1,2), of garbage] assms(3)
  have "path_into garbage h n = Some (node_path ts @ CHR ''/'' # dn_name d)"
    by (simp add: node_path_Cons)
  then show ?thesis
    by (simp add: remove_empty_def Let_def rfind_last [OF assms(4)] split: prod.split sum.split)
qed

theorem remove_empty_correct_witness:
  "remove_empty null_sys (\<lambda>i. CHR ''?'') example_heap 2 initial_pool () =
     Some (Some EIO, ''top/a/bc'', initial_pool, ())"
proof -
  have "chain_nodes example_heap 2 = Some [new_dir_node k_invalid (Some 1) ''bc'',
      new_dir_node k_invalid (Some 0) ''a'', new_dir_node 3 None ''top'']"
    by (simp add: chain_nodes_def parent_chain_Some example_heap_def new_dir_node_def)
  from remove_empty_correct [OF example_heap_ok this, of null_sys "\<lambda>i. CHR ''?''" initial_pool "()"]
  show ?thesis by (simp add: new_dir_node_def node_path_def path_max_def null_sys_def Let_def)
qed

end
