(* ===== verification/Walk_Protocol.thy ===== *)
theory Walk_Protocol
  imports Dir_Node
begin

section \<open>The life of a directory node\<close>

text \<open>
  The protocol of \<open>main.cpp\<close> by which the workers share directory nodes: \<open>Process\<close>, \<open>Scan\<close>
  and \<open>MaybeCleanupDirNode\<close> cut into the steps that other workers can interleave with, over
  the heap of nodes, the tasks submitted and not yet taken, and what each worker is doing.
  The order in which tasks are taken is left open: the scheduler may pick any.
\<close>

subsection \<open>States and steps\<close>

text \<open>
  What a worker is doing: \<open>Publishing n c\<close> is inside the scan of \<open>n\<close>, between counting the
  child \<open>c\<close> on \<open>n\<close> and submitting it; \<open>Dropping n\<close> is about to execute the \<open>fetch_sub\<close> of
  \<open>MaybeCleanupDirNode\<close> on \<open>n\<close>; \<open>Removing n nxt\<close> dropped the last reference, removes and
  deletes \<open>n\<close> and goes on with \<open>nxt\<close>, read from \<open>n\<close> before.
\<close>

datatype phase =
    Idle
  | Opening nat
  | Scanning nat
  | Publishing nat nat
  | Dropping nat
  | Removing nat "nat option"

text \<open>
  The walk: the heap, the next address, the tasks, the workers; and two histories, the parent
  of every node ever allocated and the nodes deleted, in order.
\<close>

record walk =
  w_heap :: heap
  w_next :: nat
  w_tasks :: "nat multiset"
  w_phases :: "phase list"
  w_tree :: "nat \<Rightarrow> nat option"
  w_done :: "nat list"

definition initial_walk :: "nat \<Rightarrow> walk" where
  "initial_walk workers = \<lparr>w_heap = (\<lambda>n. None), w_next = 0, w_tasks = {#},
     w_phases = replicate workers Idle, w_tree = (\<lambda>n. None), w_done = []\<rparr>"

definition after_node :: "nat option \<Rightarrow> phase" where
  "after_node parent = (case parent of None \<Rightarrow> Idle | Some p \<Rightarrow> Dropping p)"

definition set_phase :: "nat \<Rightarrow> phase \<Rightarrow> walk \<Rightarrow> walk" where
  "set_phase i ph s = s\<lparr>w_phases := (w_phases s)[i := ph]\<rparr>"

definition alloc_node :: "fd \<Rightarrow> nat option \<Rightarrow> string \<Rightarrow> walk \<Rightarrow> walk" where
  "alloc_node d parent name s =
     s\<lparr>w_heap := (w_heap s)(w_next s \<mapsto> new_dir_node d parent name), w_next := Suc (w_next s),
       w_tree := (w_tree s)(w_next s := parent)\<rparr>"

definition delete_node :: "nat \<Rightarrow> walk \<Rightarrow> walk" where
  "delete_node n s = s\<lparr>w_heap := (w_heap s)(n := None), w_done := w_done s @ [n]\<rparr>"

definition update_node :: "nat \<Rightarrow> (dir_node \<Rightarrow> dir_node) \<Rightarrow> walk \<Rightarrow> walk" where
  "update_node n f s = s\<lparr>w_heap := (w_heap s)(n := map_option f (w_heap s n))\<rparr>"

inductive walk_step :: "walk \<Rightarrow> walk \<Rightarrow> bool" where
  seed:
    "walk_step s (alloc_node d None name s\<lparr>w_tasks := add_mset (w_next s) (w_tasks s)\<rparr>)"
| take_task:
    "i < length (w_phases s) \<Longrightarrow> w_phases s ! i = Idle \<Longrightarrow> n \<in># w_tasks s \<Longrightarrow>
     walk_step s (set_phase i (Opening n) (s\<lparr>w_tasks := w_tasks s - {#n#}\<rparr>))"
| open_ok:
    "i < length (w_phases s) \<Longrightarrow> w_phases s ! i = Opening n \<Longrightarrow>
     walk_step s (set_phase i (Scanning n) (update_node n (\<lambda>nd. nd\<lparr>dn_fd := f\<rparr>) s))"
| open_retry:
    "i < length (w_phases s) \<Longrightarrow> w_phases s ! i = Opening n \<Longrightarrow>
     walk_step s (set_phase i Idle (s\<lparr>w_tasks := add_mset n (w_tasks s)\<rparr>))"
| open_fail:
    "i < length (w_phases s) \<Longrightarrow> w_phases s ! i = Opening n \<Longrightarrow> w_heap s n = Some nd \<Longrightarrow>
     walk_step s (set_phase i (after_node (dn_parent nd)) (delete_node n s))"
| scan_child:
    "i < length (w_phases s) \<Longrightarrow> w_phases s ! i = Scanning n \<Longrightarrow>
     walk_step s (set_phase i (Publishing n (w_next s))
       (update_node n (\<lambda>nd. nd\<lparr>dn_refs := dn_refs nd + 1\<rparr>) (alloc_node d (Some n) name s)))"
| publish:
    "i < length (w_phases s) \<Longrightarrow> w_phases s ! i = Publishing n c \<Longrightarrow>
     walk_step s (set_phase i (Scanning n) (s\<lparr>w_tasks := add_mset c (w_tasks s)\<rparr>))"
| scan_done:
    "i < length (w_phases s) \<Longrightarrow> w_phases s ! i = Scanning n \<Longrightarrow>
     walk_step s (set_phase i (Dropping n) (update_node n (\<lambda>nd. nd\<lparr>dn_fd := k_invalid\<rparr>) s))"
| drop_shared:
    "i < length (w_phases s) \<Longrightarrow> w_phases s ! i = Dropping n \<Longrightarrow> w_heap s n = Some nd \<Longrightarrow>
     dn_refs nd \<noteq> 1 \<Longrightarrow>
     walk_step s (set_phase i Idle (update_node n (\<lambda>nd. nd\<lparr>dn_refs := dn_refs nd - 1\<rparr>) s))"
| drop_last:
    "i < length (w_phases s) \<Longrightarrow> w_phases s ! i = Dropping n \<Longrightarrow> w_heap s n = Some nd \<Longrightarrow>
     dn_refs nd = 1 \<Longrightarrow>
     walk_step s (set_phase i (Removing n (dn_parent nd))
       (update_node n (\<lambda>nd. nd\<lparr>dn_refs := dn_refs nd - 1\<rparr>) s))"
| remove:
    "i < length (w_phases s) \<Longrightarrow> w_phases s ! i = Removing n nxt \<Longrightarrow>
     walk_step s (set_phase i (after_node nxt) (delete_node n s))"

inductive walk_reachable :: "nat \<Rightarrow> walk \<Rightarrow> bool" for workers where
  walk_start: "walk_reachable workers (initial_walk workers)"
| walk_next: "walk_reachable workers s \<Longrightarrow> walk_step s s' \<Longrightarrow> walk_reachable workers s'"

subsection \<open>Who holds a node\<close>

definition waits_on :: "nat \<Rightarrow> phase \<Rightarrow> bool" where
  "waits_on n ph \<longleftrightarrow> (case ph of Opening m \<Rightarrow> m = n | Publishing m c \<Rightarrow> c = n | _ \<Rightarrow> False)"

definition scans :: "nat \<Rightarrow> phase \<Rightarrow> bool" where
  "scans n ph \<longleftrightarrow> (case ph of Scanning m \<Rightarrow> m = n | Publishing m c \<Rightarrow> m = n | _ \<Rightarrow> False)"

definition drops :: "nat \<Rightarrow> phase \<Rightarrow> bool" where
  "drops n ph \<longleftrightarrow> (case ph of Dropping m \<Rightarrow> m = n | _ \<Rightarrow> False)"

definition removes :: "nat \<Rightarrow> phase \<Rightarrow> bool" where
  "removes n ph \<longleftrightarrow> (case ph of Removing m nxt \<Rightarrow> m = n | _ \<Rightarrow> False)"

definition child_of :: "heap \<Rightarrow> nat \<Rightarrow> nat \<Rightarrow> bool" where
  "child_of h n c \<longleftrightarrow> (case h c of Some d \<Rightarrow> dn_parent d = Some n | None \<Rightarrow> False)"

definition waiting :: "walk \<Rightarrow> nat \<Rightarrow> nat" where
  "waiting s n = count (w_tasks s) n + cnt (waits_on n) (w_phases s)"

definition scanning :: "walk \<Rightarrow> nat \<Rightarrow> nat" where
  "scanning s n = cnt (scans n) (w_phases s)"

definition dropping :: "walk \<Rightarrow> nat \<Rightarrow> nat" where
  "dropping s n = cnt (drops n) (w_phases s)"

definition removing :: "walk \<Rightarrow> nat \<Rightarrow> nat" where
  "removing s n = cnt (removes n) (w_phases s)"

definition children :: "walk \<Rightarrow> nat \<Rightarrow> nat" where
  "children s n = cnt (child_of (w_heap s) n) [0..<w_next s]"

text \<open>
  The invariant of one node, over how many times it is held: a task or the child being
  published (\<open>wa\<close>), a scan (\<open>sc\<close>), a pending drop (\<open>dr\<close>), live children (\<open>ch\<close>), a removal
  (\<open>re\<close>).
\<close>

definition node_ok :: "dir_node option \<Rightarrow> nat \<Rightarrow> nat \<Rightarrow> nat \<Rightarrow> nat \<Rightarrow> nat \<Rightarrow> bool" where
  "node_ok nd wa sc dr ch re \<longleftrightarrow>
     (case nd of
        None \<Rightarrow> wa = 0 \<and> sc = 0 \<and> dr = 0 \<and> ch = 0 \<and> re = 0
      | Some d \<Rightarrow>
          dn_refs d = of_nat (wa + sc + dr + ch) \<and> wa + sc \<le> 1 \<and>
          (wa = 1 \<longrightarrow> dr = 0 \<and> ch = 0) \<and> re \<le> 1 \<and> (re = 1 \<longleftrightarrow> wa + sc + dr + ch = 0))"

definition counts_ok :: "walk \<Rightarrow> bool" where
  "counts_ok s \<longleftrightarrow>
     (\<forall>n. node_ok (w_heap s n) (waiting s n) (scanning s n) (dropping s n) (children s n) (removing s n))"

definition tree_ok :: "walk \<Rightarrow> bool" where
  "tree_ok s \<longleftrightarrow>
     (\<forall>n d. w_heap s n = Some d \<longrightarrow> n < w_next s \<and> w_tree s n = dn_parent d \<and>
        (\<forall>p. dn_parent d = Some p \<longrightarrow> p < n \<and> w_heap s p \<noteq> None)) \<and>
     (\<forall>i n nxt. i < length (w_phases s) \<longrightarrow> w_phases s ! i = Removing n nxt \<longrightarrow> nxt = w_tree s n)"

definition done_ok :: "walk \<Rightarrow> bool" where
  "done_ok s \<longleftrightarrow>
     (\<forall>n < w_next s. w_heap s n = None \<longleftrightarrow> n \<in> set (w_done s)) \<and>
     distinct (w_done s) \<and> set (w_done s) \<subseteq> {..<w_next s} \<and>
     (\<forall>i < length (w_done s). \<forall>c < w_next s. w_tree s c = Some (w_done s ! i) \<longrightarrow>
        c \<in> set (take i (w_done s)))"

subsection \<open>Preservation\<close>

lemma holder_simps [simp]:
  "waits_on n Idle = False" "waits_on n (Opening m) = (m = n)" "waits_on n (Scanning m) = False"
  "waits_on n (Publishing m c) = (c = n)" "waits_on n (Dropping m) = False"
  "waits_on n (Removing m nxt) = False"
  "scans n Idle = False" "scans n (Opening m) = False" "scans n (Scanning m) = (m = n)"
  "scans n (Publishing m c) = (m = n)" "scans n (Dropping m) = False" "scans n (Removing m nxt) = False"
  "drops n Idle = False" "drops n (Opening m) = False" "drops n (Scanning m) = False"
  "drops n (Publishing m c) = False" "drops n (Dropping m) = (m = n)" "drops n (Removing m nxt) = False"
  "removes n Idle = False" "removes n (Opening m) = False" "removes n (Scanning m) = False"
  "removes n (Publishing m c) = False" "removes n (Dropping m) = False"
  "removes n (Removing m nxt) = (m = n)"
  by (simp_all add: waits_on_def scans_def drops_def removes_def)

lemma holder_after_node [simp]:
  "waits_on n (after_node p) = False" "scans n (after_node p) = False"
  "drops n (after_node p) = (p = Some n)" "removes n (after_node p) = False"
  by (auto simp: after_node_def split: option.split)

lemma walk_update_simps [simp]:
  "w_heap (set_phase i ph s) = w_heap s" "w_next (set_phase i ph s) = w_next s"
  "w_tasks (set_phase i ph s) = w_tasks s" "w_phases (set_phase i ph s) = (w_phases s)[i := ph]"
  "w_tree (set_phase i ph s) = w_tree s" "w_done (set_phase i ph s) = w_done s"
  "w_heap (alloc_node d p name s) = (w_heap s)(w_next s \<mapsto> new_dir_node d p name)"
  "w_next (alloc_node d p name s) = Suc (w_next s)" "w_tasks (alloc_node d p name s) = w_tasks s"
  "w_phases (alloc_node d p name s) = w_phases s"
  "w_tree (alloc_node d p name s) = (w_tree s)(w_next s := p)" "w_done (alloc_node d p name s) = w_done s"
  "w_heap (delete_node n s) = (w_heap s)(n := None)" "w_next (delete_node n s) = w_next s"
  "w_tasks (delete_node n s) = w_tasks s" "w_phases (delete_node n s) = w_phases s"
  "w_tree (delete_node n s) = w_tree s" "w_done (delete_node n s) = w_done s @ [n]"
  "w_heap (update_node n f s) = (w_heap s)(n := map_option f (w_heap s n))"
  "w_next (update_node n f s) = w_next s" "w_tasks (update_node n f s) = w_tasks s"
  "w_phases (update_node n f s) = w_phases s" "w_tree (update_node n f s) = w_tree s"
  "w_done (update_node n f s) = w_done s"
  by (simp_all add: set_phase_def alloc_node_def delete_node_def update_node_def)

lemma new_dir_node_simps [simp]:
  "dn_parent (new_dir_node d p name) = p" "dn_refs (new_dir_node d p name) = 1"
  by (simp_all add: new_dir_node_def)

lemma children_alloc:
  "children (alloc_node d p name s) n = children s n + of_bool (p = Some n)"
proof -
  have "cnt (child_of ((w_heap s)(w_next s \<mapsto> new_dir_node d p name)) n) [0..<w_next s] =
      cnt (child_of (w_heap s) n) [0..<w_next s]"
    by (rule cnt_cong) (simp add: child_of_def)
  then show ?thesis by (simp add: children_def child_of_def)
qed

lemma children_update:
  "(\<And>d. dn_parent (f d) = dn_parent d) \<Longrightarrow> children (update_node m f s) n = children s n"
  by (simp add: children_def, rule cnt_cong) (auto simp: child_of_def split: option.split)

lemma children_delete:
  "w_heap s m = Some d \<Longrightarrow> m < w_next s \<Longrightarrow>
     children (delete_node m s) n + of_bool (dn_parent d = Some n) = children s n"
  using cnt_upt_change [of m "w_next s" "child_of (w_heap s) n" "child_of ((w_heap s)(m := None)) n"]
  by (simp add: children_def child_of_def)

lemma children_set_phase [simp]: "children (set_phase i ph s) n = children s n"
  and children_set_tasks [simp]: "children (s\<lparr>w_tasks := t\<rparr>) n = children s n"
  by (simp_all add: children_def)

lemma counts_set_phase:
  assumes "i < length (w_phases s)"
  shows "waiting (set_phase i ph s) n + of_bool (waits_on n (w_phases s ! i)) =
      waiting s n + of_bool (waits_on n ph)"
    and "scanning (set_phase i ph s) n + of_bool (scans n (w_phases s ! i)) =
      scanning s n + of_bool (scans n ph)"
    and "dropping (set_phase i ph s) n + of_bool (drops n (w_phases s ! i)) =
      dropping s n + of_bool (drops n ph)"
    and "removing (set_phase i ph s) n + of_bool (removes n (w_phases s ! i)) =
      removing s n + of_bool (removes n ph)"
  using cnt_update [OF assms]
  by (simp_all add: waiting_def scanning_def dropping_def removing_def)

lemma counts_same [simp]:
  "waiting (alloc_node d p name s) n = waiting s n" "scanning (alloc_node d p name s) n = scanning s n"
  "dropping (alloc_node d p name s) n = dropping s n" "removing (alloc_node d p name s) n = removing s n"
  "waiting (delete_node m s) n = waiting s n" "scanning (delete_node m s) n = scanning s n"
  "dropping (delete_node m s) n = dropping s n" "removing (delete_node m s) n = removing s n"
  "waiting (update_node m f s) n = waiting s n" "scanning (update_node m f s) n = scanning s n"
  "dropping (update_node m f s) n = dropping s n" "removing (update_node m f s) n = removing s n"
  "scanning (s\<lparr>w_tasks := t\<rparr>) n = scanning s n"
  "dropping (s\<lparr>w_tasks := t\<rparr>) n = dropping s n" "removing (s\<lparr>w_tasks := t\<rparr>) n = removing s n"
  by (simp_all add: waiting_def scanning_def dropping_def removing_def)

lemma waiting_set_tasks:
  "waiting (s\<lparr>w_tasks := add_mset m (w_tasks s')\<rparr>) n = waiting (s\<lparr>w_tasks := w_tasks s'\<rparr>) n + of_bool (m = n)"
  "m \<in># w_tasks s' \<Longrightarrow>
     waiting (s\<lparr>w_tasks := w_tasks s' - {#m#}\<rparr>) n + of_bool (m = n) = waiting (s\<lparr>w_tasks := w_tasks s'\<rparr>) n"
  by (auto simp: waiting_def)

text \<open>How many references a node can have: far from the width of the counter.\<close>

lemma references_bounded:
  assumes "node_ok (Some d) (waiting s n) (scanning s n) (dropping s n) (children s n) (removing s n)"
  shows "waiting s n + scanning s n + dropping s n + children s n \<le> 1 + length (w_phases s) + w_next s"
  using assms cnt_le [of "drops n" "w_phases s"] cnt_le [of "child_of (w_heap s) n" "[0..<w_next s]"]
  by (simp add: node_ok_def dropping_def children_def)

lemma of_nat_eq_1_u32: "k < 2 ^ 32 \<Longrightarrow> (of_nat k :: u32) = 1 \<longleftrightarrow> k = 1"
  by (simp add: word_unat_eq_iff unat_of_nat)

text \<open>
  The same facts about one node while the phase of worker \<open>i\<close> changes from \<open>ph0\<close> to \<open>ph\<close>.
\<close>

lemma step_counts:
  assumes "i < length (w_phases s)" and "w_phases s ! i = ph0" and "w_phases s' = w_phases s"
  shows "waiting (set_phase i ph s') n + of_bool (waits_on n ph0) = waiting s' n + of_bool (waits_on n ph)"
    and "scanning (set_phase i ph s') n + of_bool (scans n ph0) = scanning s' n + of_bool (scans n ph)"
    and "dropping (set_phase i ph s') n + of_bool (drops n ph0) = dropping s' n + of_bool (drops n ph)"
    and "removing (set_phase i ph s') n + of_bool (removes n ph0) = removing s' n + of_bool (removes n ph)"
  using counts_set_phase [of i s'] assms by auto

lemma held_pos:
  assumes "i < length (w_phases s)" and "w_phases s ! i = ph"
  shows "waits_on n ph \<Longrightarrow> 0 < waiting s n" and "scans n ph \<Longrightarrow> 0 < scanning s n"
    and "drops n ph \<Longrightarrow> 0 < dropping s n" and "removes n ph \<Longrightarrow> 0 < removing s n"
  using cnt_pos [OF assms(1)] assms(2)
  by (auto simp: waiting_def scanning_def dropping_def removing_def)

definition node_ok_in :: "walk \<Rightarrow> nat \<Rightarrow> bool" where
  "node_ok_in s n \<longleftrightarrow>
     node_ok (w_heap s n) (waiting s n) (scanning s n) (dropping s n) (children s n) (removing s n)"

lemma counts_okI: "counts_ok s \<Longrightarrow> (\<And>x. node_ok_in s x \<Longrightarrow> node_ok_in s' x) \<Longrightarrow> counts_ok s'"
  by (simp add: counts_ok_def node_ok_in_def)

lemma live_if_held:
  assumes "counts_ok s" and "i < length (w_phases s)" and "w_phases s ! i = ph"
    and "waits_on n ph \<or> scans n ph \<or> drops n ph \<or> removes n ph"
  shows "w_heap s n \<noteq> None"
  using assms(1,4) held_pos [OF assms(2,3), of n]
  by (auto simp: counts_ok_def node_ok_def split: option.splits dest!: spec [of _ n])

lemma counts_seed:
  assumes "counts_ok s" and "w_heap s (w_next s) = None"
  shows "counts_ok (alloc_node d None name s\<lparr>w_tasks := add_mset (w_next s) (w_tasks s)\<rparr>)"
proof (rule counts_okI [OF assms(1)])
  fix x
  assume "node_ok_in s x"
  then show "node_ok_in (alloc_node d None name s\<lparr>w_tasks := add_mset (w_next s) (w_tasks s)\<rparr>) x"
    using assms(2) unfolding node_ok_in_def
    by (cases "x = w_next s") (auto simp: node_ok_def children_alloc waiting_def split: option.splits)
qed

lemma counts_take:
  assumes "counts_ok s" and i: "i < length (w_phases s)" "w_phases s ! i = Idle" and "n \<in># w_tasks s"
  shows "counts_ok (set_phase i (Opening n) (s\<lparr>w_tasks := w_tasks s - {#n#}\<rparr>))" (is "counts_ok ?s'")
proof (rule counts_okI [OF assms(1)])
  fix x
  assume ok: "node_ok_in s x"
  have "waiting (s\<lparr>w_tasks := w_tasks s - {#n#}\<rparr>) x + of_bool (n = x) = waiting s x"
    using assms(4) by (auto simp: waiting_def)
  then show "node_ok_in ?s' x"
    using ok step_counts [OF i, of "s\<lparr>w_tasks := w_tasks s - {#n#}\<rparr>" "Opening n" x]
    by (simp add: node_ok_in_def)
qed

lemma counts_refile:
  assumes "counts_ok s" and i: "i < length (w_phases s)" "w_phases s ! i = ph0"
    and "\<And>x. waits_on x ph0 = (x = n)" and "\<And>x. scans x ph0 = scans x ph"
    and "\<And>x. drops x ph0 = drops x ph" "\<And>x. removes x ph0 = removes x ph" "\<And>x. \<not> waits_on x ph"
  shows "counts_ok (set_phase i ph (s\<lparr>w_tasks := add_mset n (w_tasks s)\<rparr>))" (is "counts_ok ?s'")
proof (rule counts_okI [OF assms(1)])
  fix x
  assume ok: "node_ok_in s x"
  have "waiting (s\<lparr>w_tasks := add_mset n (w_tasks s)\<rparr>) x = waiting s x + of_bool (x = n)"
    by (auto simp: waiting_def)
  then show "node_ok_in ?s' x"
    using ok step_counts [OF i, of "s\<lparr>w_tasks := add_mset n (w_tasks s)\<rparr>" ph x] assms(4-)
    by (simp add: node_ok_in_def)
qed

text \<open>What happens to one node when a hold on it changes its kind or is given up.\<close>

lemma node_ok_open: "node_ok nd (Suc wa) sc dr ch re \<Longrightarrow> (\<And>d. dn_refs (f d) = dn_refs d) \<Longrightarrow>
    node_ok (map_option f nd) wa (Suc sc) dr ch re"
  by (auto simp: node_ok_def split: option.splits)

lemma node_ok_scanned: "node_ok nd wa (Suc sc) dr ch re \<Longrightarrow> (\<And>d. dn_refs (f d) = dn_refs d) \<Longrightarrow>
    node_ok (map_option f nd) wa sc (Suc dr) ch re"
  by (auto simp: node_ok_def split: option.splits)

lemma node_ok_drop:
  assumes "node_ok (Some d) wa sc (Suc dr) ch re" and "dn_refs d \<noteq> 1"
  shows "node_ok (Some (d\<lparr>dn_refs := dn_refs d - 1\<rparr>)) wa sc dr ch re"
proof -
  have r: "dn_refs d = of_nat (wa + sc + Suc dr + ch)" using assms(1) by (simp add: node_ok_def)
  have "wa + sc + Suc dr + ch \<noteq> 1"
  proof
    assume e: "wa + sc + Suc dr + ch = 1"
    from r [unfolded e] assms(2) show False by simp
  qed
  with assms show ?thesis by (auto simp: node_ok_def)
qed

lemma node_ok_child_gone: "node_ok nd wa sc dr (Suc ch) re \<Longrightarrow> node_ok nd wa sc (Suc dr) ch re"
  by (auto simp: node_ok_def split: option.splits)

lemma node_ok_drop_last:
  assumes "node_ok (Some d) wa sc (Suc dr) ch re" and "dn_refs d = 1"
    and "wa + sc + Suc dr + ch < 2 ^ 32"
  shows "node_ok (Some (d\<lparr>dn_refs := dn_refs d - 1\<rparr>)) wa sc dr ch (Suc re)"
proof -
  have "dn_refs d = of_nat (wa + sc + Suc dr + ch)" using assms(1) by (simp add: node_ok_def)
  with assms(2) have "(of_nat (wa + sc + Suc dr + ch) :: u32) = 1" by metis
  with assms(3) have "wa + sc + Suc dr + ch = 1" by (metis of_nat_eq_1_u32)
  with assms(1,2) show ?thesis by (auto simp: node_ok_def)
qed

lemma counts_move:
  assumes "counts_ok s" and i: "i < length (w_phases s)" "w_phases s ! i = ph0"
    and ph: "(ph0 = Opening n \<and> ph = Scanning n) \<or> (ph0 = Scanning n \<and> ph = Dropping n)"
    and f: "\<And>d. dn_parent (f d) = dn_parent d" "\<And>d. dn_refs (f d) = dn_refs d"
  shows "counts_ok (set_phase i ph (update_node n f s))" (is "counts_ok ?s'")
proof (rule counts_okI [OF assms(1)])
  fix x
  assume ok: "node_ok_in s x"
  note c = step_counts [OF i, of "update_node n f s" ph x]
    and k = children_update [of f n s x, OF f(1)]
  show "node_ok_in ?s' x"
  proof (cases "x = n")
    case True
    from ph show ?thesis
    proof (elim disjE conjE)
      assume ph: "ph0 = Opening n" "ph = Scanning n"
      with held_pos(1) [OF i, of n] obtain wa where "waiting s n = Suc wa" by (cases "waiting s n") auto
      with True ok c k ph node_ok_open [of "w_heap s n" wa, OF _ f(2)] show ?thesis
        by (simp add: node_ok_in_def)
    next
      assume ph: "ph0 = Scanning n" "ph = Dropping n"
      with held_pos(2) [OF i, of n] obtain sc where "scanning s n = Suc sc" by (cases "scanning s n") auto
      with True ok c k ph node_ok_scanned [of "w_heap s n" _ sc, OF _ f(2)] show ?thesis
        by (simp add: node_ok_in_def)
    qed
  next
    case False
    with ok c k ph show ?thesis by (auto simp: node_ok_in_def)
  qed
qed

lemma counts_delete:
  assumes "counts_ok s" "tree_ok s" and i: "i < length (w_phases s)" "w_phases s ! i = ph0"
    and n: "w_heap s n = Some nd" and ph: "ph0 = Opening n \<or> ph0 = Removing n nxt"
  shows "counts_ok (set_phase i (after_node (dn_parent nd)) (delete_node n s))" (is "counts_ok ?s'")
proof (rule counts_okI [OF assms(1)])
  fix x
  assume ok: "node_ok_in s x"
  have "n < w_next s" and par: "dn_parent nd \<noteq> Some n" using assms(2) n by (auto simp: tree_ok_def)
  note c = step_counts [OF i, of "delete_node n s" "after_node (dn_parent nd)" x]
    and k = children_delete [OF n this(1), of x]
  consider "x = n" | "x \<noteq> n" "dn_parent nd = Some x" | "x \<noteq> n" "dn_parent nd \<noteq> Some x" by blast
  then show "node_ok_in ?s' x"
  proof cases
    case 1
    with ph ok c k n par held_pos(1,4) [OF i, of n] show ?thesis
      by (auto simp: node_ok_in_def node_ok_def)
  next
    case 2
    then have "children s x = Suc (children (delete_node n s) x)" using k by simp
    with ok have "node_ok (w_heap s x) (waiting s x) (scanning s x) (Suc (dropping s x))
        (children (delete_node n s) x) (removing s x)"
      using node_ok_child_gone by (simp add: node_ok_in_def)
    with 2 ph c show ?thesis by (auto simp: node_ok_in_def)
  next
    case 3
    with ok ph c k show ?thesis by (auto simp: node_ok_in_def)
  qed
qed

lemma counts_child:
  assumes "counts_ok s" "tree_ok s" and i: "i < length (w_phases s)" "w_phases s ! i = Scanning n"
  shows "counts_ok (set_phase i (Publishing n (w_next s))
       (update_node n (\<lambda>nd. nd\<lparr>dn_refs := dn_refs nd + 1\<rparr>) (alloc_node d (Some n) name s)))"
    (is "counts_ok (set_phase i ?ph (update_node n ?f ?a))")
proof (rule counts_okI [OF assms(1)])
  fix x
  assume ok: "node_ok_in s x"
  have fresh: "w_heap s (w_next s) = None" using assms(2) by (force simp: tree_ok_def)
  obtain nd where n: "w_heap s n = Some nd" using live_if_held [OF assms(1) i, of n] by auto
  then have "n < w_next s" using assms(2) by (auto simp: tree_ok_def)
  note c = step_counts [OF i, of "update_node n ?f ?a" ?ph x] held_pos [OF i, of n]
    children_update [of ?f n ?a x] children_alloc [of d "Some n" name s x]
  show "node_ok_in (set_phase i ?ph (update_node n ?f ?a)) x"
    using ok c n fresh \<open>n < w_next s\<close>
    by (cases "x = w_next s"; cases "x = n") (auto simp: node_ok_in_def node_ok_def split: option.splits)
qed

lemma counts_drop:
  assumes "counts_ok s" and i: "i < length (w_phases s)" "w_phases s ! i = Dropping n"
    and n: "w_heap s n = Some nd" and fits: "1 + length (w_phases s) + w_next s < 2 ^ 32"
    and ph: "ph = (if dn_refs nd = 1 then Removing n nxt else Idle)"
  shows "counts_ok (set_phase i ph (update_node n (\<lambda>nd. nd\<lparr>dn_refs := dn_refs nd - 1\<rparr>) s))"
    (is "counts_ok (set_phase i ph (update_node n ?f s))")
proof (rule counts_okI [OF assms(1)])
  fix x
  assume ok: "node_ok_in s x"
  note c = step_counts [OF i, of "update_node n ?f s" ph x] and k = children_update [of ?f n s x]
  show "node_ok_in (set_phase i ph (update_node n ?f s)) x"
  proof (cases "x = n")
    case True
    from held_pos(3) [OF i, of n] obtain dr where dr: "dropping s n = Suc dr"
      by (cases "dropping s n") auto
    from True ok n have ok': "node_ok (Some nd) (waiting s n) (scanning s n) (dropping s n)
        (children s n) (removing s n)" by (simp add: node_ok_in_def)
    have b: "waiting s n + scanning s n + Suc dr + children s n < 2 ^ 32"
      using references_bounded [OF ok'] fits dr by simp
    show ?thesis
      using True n c k ph dr node_ok_drop [OF ok' [unfolded dr]] node_ok_drop_last [OF ok' [unfolded dr] _ b]
      by (cases "dn_refs nd = 1") (simp_all add: node_ok_in_def)
  next
    case False
    with ok c k ph show ?thesis by (auto simp: node_ok_in_def split: if_splits)
  qed
qed

lemma counts_preserved:
  assumes inv: "counts_ok s" "tree_ok s" and fits: "1 + length (w_phases s) + w_next s < 2 ^ 32"
    and step: "walk_step s s'"
  shows "counts_ok s'"
  using step
proof cases
  case (seed d name)
  have "w_heap s (w_next s) = None" using inv(2) by (force simp: tree_ok_def)
  with seed inv show ?thesis by (simp add: counts_seed)
next
  case (take_task i n)
  with inv show ?thesis by (simp add: counts_take)
next
  case (open_ok i n f)
  with inv show ?thesis by (auto intro: counts_move)
next
  case (open_retry i n)
  show ?thesis unfolding open_retry(1) by (rule counts_refile [OF inv(1) open_retry(2,3)]) auto
next
  case (open_fail i n nd)
  with inv show ?thesis by (simp add: counts_delete [where nxt = None])
next
  case (scan_child i n d name)
  with inv show ?thesis by (simp add: counts_child)
next
  case (publish i n c)
  show ?thesis unfolding publish(1) by (rule counts_refile [OF inv(1) publish(2,3)]) auto
next
  case (scan_done i n)
  with inv show ?thesis by (auto intro: counts_move)
next
  case (drop_shared i n nd)
  with inv fits show ?thesis by (simp add: counts_drop)
next
  case (drop_last i n nd)
  with inv fits show ?thesis by (simp add: counts_drop)
next
  case (remove i n nxt)
  obtain nd where n: "w_heap s n = Some nd" using live_if_held [OF inv(1) remove(2,3), of n] by auto
  moreover have "nxt = dn_parent nd" using inv(2) n remove(2,3) by (force simp: tree_ok_def)
  ultimately show ?thesis using inv remove by (simp add: counts_delete)
qed

lemma tree_okD:
  assumes "tree_ok s"
  shows "w_heap s n = Some d \<Longrightarrow> n < w_next s \<and> w_tree s n = dn_parent d"
    and "w_heap s n = Some d \<Longrightarrow> dn_parent d = Some p \<Longrightarrow> p < n \<and> w_heap s p \<noteq> None"
    and "i < length (w_phases s) \<Longrightarrow> w_phases s ! i = Removing n nxt \<Longrightarrow> nxt = w_tree s n"
    and "w_heap s (w_next s) = None"
  using assms by (auto simp: tree_ok_def) (metis less_irrefl not_None_eq)

text \<open>A step that leaves every node in place and changes only references or descriptors.\<close>

lemma tree_keep:
  assumes "tree_ok s" and "\<And>n. map_option dn_parent (w_heap s' n) = map_option dn_parent (w_heap s n)"
    and "w_next s' = w_next s" and "w_tree s' = w_tree s"
    and "\<And>i n nxt. i < length (w_phases s') \<Longrightarrow> w_phases s' ! i = Removing n nxt \<Longrightarrow> nxt = w_tree s n"
  shows "tree_ok s'"
  unfolding tree_ok_def
proof (intro conjI allI impI)
  fix n d
  assume "w_heap s' n = Some d"
  with assms(2) [of n] obtain d' where d': "w_heap s n = Some d'" "dn_parent d' = dn_parent d"
    by (cases "w_heap s n") auto
  with tree_okD(1) [OF assms(1) d'(1)] assms(3,4) show "n < w_next s'" and "w_tree s' n = dn_parent d"
    by simp_all
  fix p
  assume "dn_parent d = Some p"
  with tree_okD(2) [OF assms(1) d'(1)] d'(2) have "p < n \<and> w_heap s p \<noteq> None" by simp
  with assms(2) [of p] show "p < n" and "w_heap s' p \<noteq> None" by (auto simp: map_option_case split: option.splits)
qed (use assms(4,5) in simp)

lemma removing_update:
  assumes "\<And>i n nxt. i < length xs \<Longrightarrow> xs ! i = Removing n nxt \<Longrightarrow> nxt = tr n"
    and "i < length (xs[j := ph])" and "xs[j := ph] ! i = Removing n nxt"
    and "\<And>m nxt. ph = Removing m nxt \<Longrightarrow> nxt = tr m"
  shows "nxt = tr n"
proof (cases "i = j")
  case True
  with assms(2-4) show ?thesis by simp
next
  case False
  with assms(1,2,3) show ?thesis by simp
qed

lemma tree_set_phase:
  assumes "tree_ok s" and "\<And>m nxt. ph = Removing m nxt \<Longrightarrow> nxt = w_tree s m"
  shows "tree_ok (set_phase i ph s)"
proof (rule tree_keep [OF assms(1)])
  fix k n nxt
  assume k: "k < length (w_phases (set_phase i ph s))" "w_phases (set_phase i ph s) ! k = Removing n nxt"
  show "nxt = w_tree s n"
    by (rule removing_update [of "w_phases s" _ k i ph])
      (use k assms(2) tree_okD(3) [OF assms(1)] in simp_all)
qed simp_all

lemma tree_update:
  assumes "tree_ok s" and "\<And>d. dn_parent (f d) = dn_parent d"
  shows "tree_ok (update_node n f s)"
proof (rule tree_keep [OF assms(1)])
  fix k n' nxt
  assume "k < length (w_phases (update_node n f s))" "w_phases (update_node n f s) ! k = Removing n' nxt"
  then show "nxt = w_tree s n'" using tree_okD(3) [OF assms(1)] by simp
qed (simp_all add: option.map_comp comp_def assms(2))

lemma tree_tasks: "tree_ok s \<Longrightarrow> tree_ok (s\<lparr>w_tasks := t\<rparr>)"
  by (simp add: tree_ok_def)

lemma no_live_children:
  assumes "counts_ok s" "tree_ok s" and "i < length (w_phases s)"
    and "w_phases s ! i = Opening n \<or> w_phases s ! i = Removing n nxt" and "w_heap s c = Some d"
  shows "dn_parent d \<noteq> Some n"
proof
  assume c: "dn_parent d = Some n"
  have "node_ok (w_heap s n) (waiting s n) (scanning s n) (dropping s n) (children s n) (removing s n)"
    using assms(1) by (simp add: counts_ok_def)
  moreover have "0 < waiting s n \<or> 0 < removing s n"
    using held_pos [OF assms(3) refl, of n] assms(4) by auto
  ultimately have "children s n = 0" by (auto simp: node_ok_def split: option.splits)
  moreover have "c < w_next s" using tree_okD(1) [OF assms(2,5)] by simp
  ultimately show False using c assms(5)
    by (auto simp: children_def cnt_zero child_of_def dest!: bspec [of _ _ c])
qed

lemma tree_alloc:
  assumes "counts_ok s" "tree_ok s" and "\<And>n. p = Some n \<Longrightarrow> w_heap s n \<noteq> None"
  shows "tree_ok (alloc_node d p name s)"
  unfolding tree_ok_def
proof (intro conjI allI impI)
  fix n nd
  assume n: "w_heap (alloc_node d p name s) n = Some nd"
  show "n < w_next (alloc_node d p name s)" and "w_tree (alloc_node d p name s) n = dn_parent nd"
    using n tree_okD(1) [OF assms(2)] by (auto simp: less_Suc_eq split: if_splits)
  fix q
  assume q: "dn_parent nd = Some q"
  have "q < n \<and> w_heap s q \<noteq> None"
  proof (cases "n = w_next s")
    case True
    with n q have "p = Some q" by auto
    with assms(3) tree_okD(1) [OF assms(2)] True show ?thesis by fastforce
  qed (use n q tree_okD(2) [OF assms(2)] in auto)
  then show "q < n" and "w_heap (alloc_node d p name s) q \<noteq> None" by auto
next
  fix i n nxt
  assume i: "i < length (w_phases (alloc_node d p name s))"
    "w_phases (alloc_node d p name s) ! i = Removing n nxt"
  with live_if_held [OF assms(1), of i _ n] have "w_heap s n \<noteq> None" by auto
  then have "n \<noteq> w_next s" using tree_okD(4) [OF assms(2)] by auto
  with i tree_okD(3) [OF assms(2)] show "nxt = w_tree (alloc_node d p name s) n" by auto
qed

lemma tree_delete:
  assumes "counts_ok s" "tree_ok s" and "i < length (w_phases s)"
    and "w_phases s ! i = Opening n \<or> w_phases s ! i = Removing n nxt"
  shows "tree_ok (set_phase i (after_node q) (delete_node n s))"
  unfolding tree_ok_def
proof (intro conjI allI impI)
  fix m d
  assume m: "w_heap (set_phase i (after_node q) (delete_node n s)) m = Some d"
  then show "m < w_next (set_phase i (after_node q) (delete_node n s))"
    and "w_tree (set_phase i (after_node q) (delete_node n s)) m = dn_parent d"
    using tree_okD(1) [OF assms(2)] by (auto split: if_splits)
  fix p
  assume p: "dn_parent d = Some p"
  from m have m': "w_heap s m = Some d" by (auto split: if_splits)
  from no_live_children [OF assms m'] p have "p \<noteq> n" by auto
  with tree_okD(2) [OF assms(2) m' p] show "p < m"
    and "w_heap (set_phase i (after_node q) (delete_node n s)) p \<noteq> None" by auto
next
  fix j m nxt'
  assume j: "j < length (w_phases (set_phase i (after_node q) (delete_node n s)))"
    "w_phases (set_phase i (after_node q) (delete_node n s)) ! j = Removing m nxt'"
  have "after_node q \<noteq> Removing k nxt" for k nxt by (simp add: after_node_def split: option.split)
  with removing_update [OF tree_okD(3) [OF assms(2)], where i = j and j = i and ph = "after_node q"] j
  show "nxt' = w_tree (set_phase i (after_node q) (delete_node n s)) m" by simp
qed

lemma tree_preserved:
  assumes inv: "counts_ok s" "tree_ok s" and step: "walk_step s s'"
  shows "tree_ok s'"
  using step
proof cases
  case (seed d name)
  have "tree_ok (alloc_node d None name s)" using inv by (rule tree_alloc) simp
  then show ?thesis unfolding seed by (rule tree_tasks)
next
  case (scan_child i n d name)
  have "tree_ok (alloc_node d (Some n) name s)"
    using live_if_held [OF inv(1) scan_child(2,3), of n] by (intro tree_alloc inv) auto
  then show ?thesis unfolding scan_child(1) by (intro tree_set_phase tree_update) simp_all
next
  case (open_fail i n nd)
  then show ?thesis using tree_delete [OF inv] by simp
next
  case (remove i n nxt)
  then show ?thesis using tree_delete [OF inv] by simp
next
  case (drop_last i n nd)
  then have "dn_parent nd = w_tree s n" using tree_okD(1) [OF inv(2)] by simp
  then show ?thesis unfolding drop_last(1) by (intro tree_set_phase tree_update inv(2)) simp_all
qed (use inv(2) in \<open>auto intro!: tree_set_phase tree_update tree_tasks\<close>)

lemma done_okD:
  assumes "done_ok s"
  shows "n < w_next s \<Longrightarrow> w_heap s n = None \<longleftrightarrow> n \<in> set (w_done s)"
    and "distinct (w_done s)" and "n \<in> set (w_done s) \<Longrightarrow> n < w_next s"
    and "i < length (w_done s) \<Longrightarrow> c < w_next s \<Longrightarrow> w_tree s c = Some (w_done s ! i) \<Longrightarrow>
      c \<in> set (take i (w_done s))"
proof -
  note d = assms [unfolded done_ok_def]
  show "n < w_next s \<Longrightarrow> w_heap s n = None \<longleftrightarrow> n \<in> set (w_done s)"
    by (rule d [THEN conjunct1, rule_format])
  show "distinct (w_done s)" by (rule d [THEN conjunct2, THEN conjunct1])
  show "n \<in> set (w_done s) \<Longrightarrow> n < w_next s"
    using d [THEN conjunct2, THEN conjunct2, THEN conjunct1] by auto
  show "i < length (w_done s) \<Longrightarrow> c < w_next s \<Longrightarrow> w_tree s c = Some (w_done s ! i) \<Longrightarrow>
      c \<in> set (take i (w_done s))"
    by (rule d [THEN conjunct2, THEN conjunct2, THEN conjunct2, rule_format])
qed

lemma done_keep:
  assumes "done_ok s" and "\<And>n. w_heap s' n = None \<longleftrightarrow> w_heap s n = None"
    and "w_next s' = w_next s" "w_tree s' = w_tree s" "w_done s' = w_done s"
  shows "done_ok s'"
  using assms(1) unfolding done_ok_def assms(2-) .

lemma done_alloc:
  assumes "tree_ok s" "done_ok s" and "\<And>n. p = Some n \<Longrightarrow> w_heap s n \<noteq> None"
  shows "done_ok (alloc_node d p name s)"
  unfolding done_ok_def
proof (intro conjI allI impI)
  fix n
  assume "n < w_next (alloc_node d p name s)"
  then show "(w_heap (alloc_node d p name s) n = None) = (n \<in> set (w_done (alloc_node d p name s)))"
    using done_okD(1,3) [OF assms(2), of n] by (auto simp: less_Suc_eq)
next
  fix i c
  assume i: "i < length (w_done (alloc_node d p name s))" and c: "c < w_next (alloc_node d p name s)"
    and t: "w_tree (alloc_node d p name s) c = Some (w_done (alloc_node d p name s) ! i)"
  let ?q = "w_done s ! i"
  from i have q: "?q \<in> set (w_done s)" by simp
  show "c \<in> set (take i (w_done (alloc_node d p name s)))"
  proof (cases "c = w_next s")
    case True
    with t have "p = Some ?q" by simp
    with assms(3) have "w_heap s ?q \<noteq> None" by blast
    with q done_okD(1,3) [OF assms(2), of ?q] show ?thesis by auto
  next
    case False
    with c t i done_okD(4) [OF assms(2), of i c] show ?thesis by simp
  qed
qed (use done_okD(2,3) [OF assms(2)] in \<open>auto simp: less_Suc_eq\<close>)

lemma done_delete:
  assumes "tree_ok s" "done_ok s" and n: "w_heap s n \<noteq> None"
    and leaf: "\<And>c d. w_heap s c = Some d \<Longrightarrow> dn_parent d \<noteq> Some n"
  shows "done_ok (delete_node n s)"
  unfolding done_ok_def
proof (intro conjI allI impI)
  have lt: "n < w_next s" using n tree_okD(1) [OF assms(1)] by auto
  then have new: "n \<notin> set (w_done s)" using n lt done_okD(1) [OF assms(2), of n] by simp
  show "distinct (w_done (delete_node n s))" using new done_okD(2) [OF assms(2)] by simp
  show "set (w_done (delete_node n s)) \<subseteq> {..<w_next (delete_node n s)}"
    using lt done_okD(3) [OF assms(2)] by auto
  fix i c
  assume i: "i < length (w_done (delete_node n s))" and c: "c < w_next (delete_node n s)"
    and t: "w_tree (delete_node n s) c = Some (w_done (delete_node n s) ! i)"
  show "c \<in> set (take i (w_done (delete_node n s)))"
  proof (cases "i = length (w_done s)")
    case True
    with t have tc: "w_tree s c = Some n" by simp
    have "w_heap s c = None"
    proof (rule ccontr)
      assume "w_heap s c \<noteq> None"
      then obtain d where d: "w_heap s c = Some d" by blast
      with leaf tree_okD(1) [OF assms(1) d] tc show False by auto
    qed
    with c done_okD(1) [OF assms(2), of c] True show ?thesis by simp
  next
    case False
    with i have "i < length (w_done s)" by simp
    with c t done_okD(4) [OF assms(2), of i c] show ?thesis by (simp add: nth_append)
  qed
qed (use done_okD(1) [OF assms(2)] in auto)

lemma done_preserved:
  assumes inv: "counts_ok s" "tree_ok s" "done_ok s" and step: "walk_step s s'"
  shows "done_ok s'"
  using step
proof cases
  case (seed d name)
  have "done_ok (alloc_node d None name s)" using inv(2,3) by (rule done_alloc) simp
  then show ?thesis unfolding seed by (rule done_keep) auto
next
  case (scan_child i n d name)
  have "done_ok (alloc_node d (Some n) name s)"
    using live_if_held [OF inv(1) scan_child(2,3), of n] by (intro done_alloc inv) auto
  then show ?thesis unfolding scan_child by (rule done_keep) auto
next
  case (open_fail i n nd)
  have "done_ok (delete_node n s)"
    using no_live_children [OF inv(1,2) open_fail(2)] open_fail by (intro done_delete inv) auto
  then show ?thesis unfolding open_fail by (rule done_keep) auto
next
  case (remove i n nxt)
  have "done_ok (delete_node n s)"
    using no_live_children [OF inv(1,2) remove(2)] live_if_held [OF inv(1) remove(2,3), of n] remove(3)
    by (intro done_delete inv) auto
  then show ?thesis unfolding remove by (rule done_keep) auto
next
  case (open_ok i n f)
  show ?thesis unfolding open_ok(1) by (rule done_keep [OF inv(3)]) auto
next
  case (scan_done i n)
  show ?thesis unfolding scan_done(1) by (rule done_keep [OF inv(3)]) auto
next
  case (drop_shared i n nd)
  show ?thesis unfolding drop_shared(1) by (rule done_keep [OF inv(3)]) auto
next
  case (drop_last i n nd)
  show ?thesis unfolding drop_last(1) by (rule done_keep [OF inv(3)]) auto
next
  case (take_task i n)
  show ?thesis unfolding take_task(1) by (rule done_keep [OF inv(3)]) auto
next
  case (open_retry i n)
  show ?thesis unfolding open_retry(1) by (rule done_keep [OF inv(3)]) auto
next
  case (publish i n c)
  show ?thesis unfolding publish(1) by (rule done_keep [OF inv(3)]) auto
qed

subsection \<open>Reachable states\<close>

lemma walk_step_monotone:
  "walk_step s s' \<Longrightarrow> w_next s \<le> w_next s' \<and> length (w_phases s') = length (w_phases s)"
  by (cases rule: walk_step.cases) auto

lemma reachable_workers: "walk_reachable workers s \<Longrightarrow> length (w_phases s) = workers"
  by (induction rule: walk_reachable.induct) (auto simp: initial_walk_def dest: walk_step_monotone)

lemma reachable_inv:
  "walk_reachable workers s \<Longrightarrow> 1 + workers + w_next s < 2 ^ 32 \<Longrightarrow>
     counts_ok s \<and> tree_ok s \<and> done_ok s"
proof (induction rule: walk_reachable.induct)
  case walk_start
  have "cnt P (replicate workers Idle) = 0" if "\<not> P Idle" for P using that by (auto simp: cnt_zero)
  then show ?case
    by (simp add: counts_ok_def tree_ok_def done_ok_def initial_walk_def node_ok_def waiting_def
        scanning_def dropping_def removing_def children_def)
next
  case (walk_next s s')
  from walk_step_monotone [OF walk_next.hyps(2)] walk_next.prems
  have "1 + workers + w_next s < 2 ^ 32" by simp
  with walk_next.IH have inv: "counts_ok s" "tree_ok s" "done_ok s" by auto
  have fits: "1 + length (w_phases s) + w_next s < 2 ^ 32"
    using \<open>1 + workers + w_next s < 2 ^ 32\<close> reachable_workers [OF walk_next.hyps(1)] by simp
  show ?case
    using counts_preserved [OF inv(1,2) fits] tree_preserved [OF inv(1,2)] done_preserved [OF inv]
      walk_next.hyps(2) by blast
qed

definition held :: "walk \<Rightarrow> nat \<Rightarrow> bool" where
  "held s n \<longleftrightarrow> n \<in># w_tasks s \<or>
     (\<exists>ph \<in> set (w_phases s). waits_on n ph \<or> scans n ph \<or> drops n ph \<or> removes n ph \<or>
        (\<exists>m. ph = Removing m (Some n)))"

lemma held_live:
  assumes inv: "counts_ok s" "tree_ok s" and "held s n"
  shows "w_heap s n \<noteq> None"
proof (cases "n \<in># w_tasks s")
  case True
  then have "0 < waiting s n" by (simp add: waiting_def)
  with inv(1) show ?thesis
    by (auto simp: counts_ok_def node_ok_def split: option.splits dest!: spec [of _ n])
next
  case False
  with assms(3) obtain ph where "ph \<in> set (w_phases s)"
    and ph: "waits_on n ph \<or> scans n ph \<or> drops n ph \<or> removes n ph \<or> (\<exists>m. ph = Removing m (Some n))"
    by (auto simp: held_def)
  then obtain i where i: "i < length (w_phases s)" "w_phases s ! i = ph" by (auto simp: in_set_conv_nth)
  show ?thesis
  proof (cases "\<exists>m. ph = Removing m (Some n)")
    case True
    then obtain m where m: "ph = Removing m (Some n)" by blast
    with live_if_held [OF inv(1) i, of m] obtain d where d: "w_heap s m = Some d" by auto
    from tree_okD(1) [OF inv(2) d] tree_okD(3) [OF inv(2) i(1)] i(2) m have "dn_parent d = Some n" by auto
    with tree_okD(2) [OF inv(2) d] show ?thesis by blast
  next
    case False
    with ph live_if_held [OF inv(1) i, of n] show ?thesis by blast
  qed
qed

lemma tree_ok_heap_ok: "tree_ok s \<Longrightarrow> heap_ok (w_heap s)"
  by (auto simp: heap_ok_def dest: tree_okD(2))

text \<open>
  C11: no worker ever touches freed memory. In every reachable state a node that is a task,
  or that a worker is opening, scanning, publishing, dropping, removing or about to go on to,
  is alive, and so are all its ancestors, so that its path can be built.
\<close>

theorem nodes_alive_while_held:
  assumes "walk_reachable workers s" and "1 + workers + w_next s < 2 ^ 32" and "held s n"
  shows "w_heap s n \<noteq> None \<and> heap_ok (w_heap s) \<and>
    (\<exists>path. path_into garbage (w_heap s) n = Some path)"
proof -
  from reachable_inv [OF assms(1,2)] have inv: "counts_ok s" "tree_ok s" by auto
  from held_live [OF inv assms(3)] obtain d where d: "w_heap s n = Some d" by blast
  from chain_nodes_rec [OF tree_ok_heap_ok [OF inv(2)] d] path_into_eq [OF tree_ok_heap_ok [OF inv(2)]]
  have "\<exists>path. path_into garbage (w_heap s) n = Some path" by blast
  with d tree_ok_heap_ok [OF inv(2)] show ?thesis by simp
qed

text \<open>A run with one worker: a root and one subdirectory, removed bottom up.\<close>

definition example_walk :: walk where
  "example_walk = set_phase 0 (Publishing 0 1)
     (update_node 0 (\<lambda>nd. nd\<lparr>dn_refs := dn_refs nd + 1\<rparr>)
       (alloc_node k_invalid (Some 0) ''sub''
         (set_phase 0 (Scanning 0)
           (update_node 0 (\<lambda>nd. nd\<lparr>dn_fd := 3\<rparr>)
             (set_phase 0 (Opening 0)
               ((alloc_node 3 None ''top'' (initial_walk 1))\<lparr>w_tasks := {#}\<rparr>))))))"

lemma example_walk_reachable: "walk_reachable 1 example_walk"
proof -
  let ?s1 = "(alloc_node 3 None ''top'' (initial_walk 1))\<lparr>w_tasks := {#0#}\<rparr>"
  let ?s2 = "set_phase 0 (Opening 0) (?s1\<lparr>w_tasks := {#}\<rparr>)"
  let ?s3 = "set_phase 0 (Scanning 0) (update_node 0 (\<lambda>nd. nd\<lparr>dn_fd := 3\<rparr>) ?s2)"
  have "walk_step (initial_walk 1) ?s1"
    using seed [of "initial_walk 1" 3 "''top''"] by (simp add: initial_walk_def alloc_node_def)
  then have 1: "walk_reachable 1 ?s1" by (rule walk_next [OF walk_start])
  have "walk_step ?s1 ?s2"
    using take_task [of 0 ?s1 0] by (simp add: initial_walk_def)
  then have 2: "walk_reachable 1 ?s2" by (rule walk_next [OF 1])
  have "walk_step ?s2 ?s3" by (rule open_ok) (simp_all add: initial_walk_def)
  then have 3: "walk_reachable 1 ?s3" by (rule walk_next [OF 2])
  have "w_next ?s3 = 1" by (simp add: initial_walk_def)
  then have "walk_step ?s3 example_walk"
    using scan_child [of 0 ?s3 0 k_invalid "''sub''"] by (simp add: example_walk_def initial_walk_def)
  then show ?thesis by (rule walk_next [OF 3])
qed

theorem nodes_alive_while_held_witness:
  "w_heap example_walk 1 \<noteq> None \<and> heap_ok (w_heap example_walk) \<and>
    (\<exists>path. path_into (\<lambda>i. CHR ''?'') (w_heap example_walk) 1 = Some path)"
  by (rule nodes_alive_while_held [OF example_walk_reachable])
    (simp_all add: example_walk_def initial_walk_def held_def)

subsection \<open>Removal comes last\<close>

lemma removing_alone:
  assumes inv: "counts_ok s" and i: "i < length (w_phases s)" "w_phases s ! i = Removing n nxt"
  shows "waiting s n = 0 \<and> scanning s n = 0 \<and> dropping s n = 0 \<and> children s n = 0 \<and> removing s n = 1"
proof -
  have "0 < removing s n" using held_pos(4) [OF i, of n] by simp
  with inv show ?thesis
    by (auto simp: counts_ok_def node_ok_def split: option.splits dest!: spec [of _ n])
qed

lemma removing_unique:
  assumes "counts_ok s" and i: "i < length (w_phases s)" "w_phases s ! i = Removing n nxt"
    and j: "j < length (w_phases s)" "j \<noteq> i"
  shows "\<not> removes n (w_phases s ! j)"
proof
  assume r: "removes n (w_phases s ! j)"
  have "cnt (removes n) ((w_phases s)[i := Idle]) + 1 = removing s n"
    using cnt_update [OF i(1), of "removes n" Idle] i(2) by (simp add: removing_def)
  with removing_alone [OF assms(1) i] have "cnt (removes n) ((w_phases s)[i := Idle]) = 0" by simp
  moreover have "0 < cnt (removes n) ((w_phases s)[i := Idle])"
    using cnt_pos [of j "(w_phases s)[i := Idle]" "removes n"] j r by simp
  ultimately show False by simp
qed

text \<open>
  C10: a directory is removed only after everything below it: when a worker has dropped the
  last reference of a node, every subdirectory ever found in it has been deleted, the node is
  no task, and no other worker opens, scans, drops or removes it.
\<close>

theorem removal_is_last:
  assumes "walk_reachable workers s" and "1 + workers + w_next s < 2 ^ 32"
    and "i < workers" and "w_phases s ! i = Removing n nxt"
  shows "(\<forall>c < w_next s. w_tree s c = Some n \<longrightarrow> c \<in> set (w_done s)) \<and> n \<notin># w_tasks s \<and>
    n \<notin> set (w_done s) \<and>
    (\<forall>j < workers. j \<noteq> i \<longrightarrow> \<not> waits_on n (w_phases s ! j) \<and> \<not> scans n (w_phases s ! j) \<and>
       \<not> drops n (w_phases s ! j) \<and> \<not> removes n (w_phases s ! j))"
proof -
  from reachable_inv [OF assms(1,2)] have inv: "counts_ok s" "tree_ok s" "done_ok s" by auto
  from reachable_workers [OF assms(1)] have len: "length (w_phases s) = workers" .
  with assms(3,4) have i: "i < length (w_phases s)" "w_phases s ! i = Removing n nxt" by auto
  note zero = removing_alone [OF inv(1) i]
  from live_if_held [OF inv(1) i, of n] obtain d where d: "w_heap s n = Some d" by auto
  have "c \<in> set (w_done s)" if c: "c < w_next s" "w_tree s c = Some n" for c
  proof (rule ccontr)
    assume "c \<notin> set (w_done s)"
    with done_okD(1) [OF inv(3) c(1)] obtain dc where dc: "w_heap s c = Some dc" by blast
    with no_live_children [OF inv(1,2) i(1) _ dc] i(2) tree_okD(1) [OF inv(2) dc] c(2) show False
      by auto
  qed
  moreover have "n \<notin># w_tasks s" using zero by (simp add: waiting_def not_in_iff)
  moreover have "n \<notin> set (w_done s)"
    using d done_okD(1) [OF inv(3), of n] tree_okD(1) [OF inv(2) d] by simp
  moreover have "\<not> waits_on n (w_phases s ! j) \<and> \<not> scans n (w_phases s ! j) \<and>
      \<not> drops n (w_phases s ! j)" if "j < workers" for j
    using zero held_pos [of j s "w_phases s ! j" n] that len by auto
  moreover have "\<not> removes n (w_phases s ! j)" if "j < workers" "j \<noteq> i" for j
    using removing_unique [OF inv(1) i] that len by simp
  ultimately show ?thesis by blast
qed

text \<open>A root with no subdirectory, up to its removal.\<close>

lemma walk_single:
  "\<exists>s. walk_reachable 1 s \<and> w_phases s = [Removing 0 None] \<and> w_next s = 1 \<and> w_tasks s = {#}"
proof -
  let ?s1 = "(alloc_node 3 None ''top'' (initial_walk 1))\<lparr>w_tasks := {#0#}\<rparr>"
  let ?s2 = "set_phase 0 (Opening 0) (?s1\<lparr>w_tasks := {#}\<rparr>)"
  let ?s3 = "set_phase 0 (Scanning 0) (update_node 0 (\<lambda>nd. nd\<lparr>dn_fd := 3\<rparr>) ?s2)"
  let ?s4 = "set_phase 0 (Dropping 0) (update_node 0 (\<lambda>nd. nd\<lparr>dn_fd := k_invalid\<rparr>) ?s3)"
  let ?s5 = "set_phase 0 (Removing 0 None) (update_node 0 (\<lambda>nd. nd\<lparr>dn_refs := dn_refs nd - 1\<rparr>) ?s4)"
  have "walk_step (initial_walk 1) ?s1"
    using seed [of "initial_walk 1" 3 "''top''"] by (simp add: initial_walk_def alloc_node_def)
  then have 1: "walk_reachable 1 ?s1" by (rule walk_next [OF walk_start])
  have "walk_step ?s1 ?s2" using take_task [of 0 ?s1 0] by (simp add: initial_walk_def)
  then have 2: "walk_reachable 1 ?s2" by (rule walk_next [OF 1])
  have "walk_step ?s2 ?s3" by (rule open_ok) (simp_all add: initial_walk_def)
  then have 3: "walk_reachable 1 ?s3" by (rule walk_next [OF 2])
  have "walk_step ?s3 ?s4" by (rule scan_done) (simp_all add: initial_walk_def)
  then have 4: "walk_reachable 1 ?s4" by (rule walk_next [OF 3])
  have "walk_step ?s4 ?s5"
    using drop_last [of 0 ?s4 0 "(new_dir_node 3 None ''top'')\<lparr>dn_fd := k_invalid\<rparr>"]
    by (simp add: initial_walk_def new_dir_node_def)
  then have "walk_reachable 1 ?s5" by (rule walk_next [OF 4])
  then show ?thesis by (intro exI [of _ ?s5]) (simp add: initial_walk_def)
qed

theorem removal_is_last_witness:
  "\<exists>s. walk_reachable 1 s \<and> w_phases s = [Removing 0 None] \<and> 0 \<notin># w_tasks s \<and> 0 \<notin> set (w_done s)"
proof -
  obtain s where s: "walk_reachable 1 s" "w_phases s = [Removing 0 None]" "w_next s = 1"
    using walk_single by blast
  from removal_is_last [OF s(1), of 0 0 None] s show ?thesis by auto
qed

subsection \<open>Every directory is finished exactly once\<close>

definition quiescent :: "walk \<Rightarrow> bool" where
  "quiescent s \<longleftrightarrow> w_tasks s = {#} \<and> (\<forall>ph \<in> set (w_phases s). ph = Idle)"

lemma quiescent_empty:
  assumes inv: "counts_ok s" "tree_ok s" and q: "quiescent s"
  shows "w_heap s n = None"
proof (rule ccontr)
  assume "w_heap s n \<noteq> None"
  let ?live = "{n. w_heap s n \<noteq> None}"
  have "?live \<subseteq> {..<w_next s}" using tree_okD(1) [OF inv(2)] by auto
  then have fin: "finite ?live" by (rule finite_subset) simp
  define m where "m = Max ?live"
  from Max_in [OF fin] \<open>w_heap s n \<noteq> None\<close> obtain d where d: "w_heap s m = Some d" unfolding m_def by auto
  have none: "cnt P (w_phases s) = 0" if "\<not> P Idle" for P using q that by (auto simp: quiescent_def cnt_zero)
  have "children s m = 0"
    unfolding children_def cnt_zero
  proof (intro ballI notI)
    fix c
    assume "child_of (w_heap s) m c"
    then obtain dc where dc: "w_heap s c = Some dc" "dn_parent dc = Some m"
      by (auto simp: child_of_def split: option.splits)
    from tree_okD(2) [OF inv(2) dc] have "m < c" by simp
    with Max_ge [OF fin, of c] dc(1) show False unfolding m_def by simp
  qed
  with none q have "waiting s m + scanning s m + dropping s m + children s m = 0" "removing s m = 0"
    by (simp_all add: waiting_def scanning_def dropping_def removing_def quiescent_def)
  moreover have "node_ok (w_heap s m) (waiting s m) (scanning s m) (dropping s m) (children s m)
      (removing s m)" using inv(1) by (simp add: counts_ok_def)
  ultimately show False using d by (simp add: node_ok_def)
qed

text \<open>
  No directory node is deleted twice, a node is deleted only after every node allocated
  below it, and when no task is left and every worker is idle, every node ever allocated has
  been deleted: nothing leaks and no directory is forgotten.
\<close>

theorem every_directory_finished:
  assumes "walk_reachable workers s" and "1 + workers + w_next s < 2 ^ 32"
  shows "distinct (w_done s) \<and>
    (\<forall>i < length (w_done s). \<forall>c < w_next s. w_tree s c = Some (w_done s ! i) \<longrightarrow>
       c \<in> set (take i (w_done s))) \<and>
    (quiescent s \<longrightarrow> (\<forall>n. w_heap s n = None) \<and> set (w_done s) = {..<w_next s})"
proof -
  from reachable_inv [OF assms] have inv: "counts_ok s" "tree_ok s" "done_ok s" by auto
  have "set (w_done s) = {..<w_next s}" if "quiescent s"
    using done_okD(1,3) [OF inv(3)] quiescent_empty [OF inv(1,2) that] by auto
  then show ?thesis
    using quiescent_empty [OF inv(1,2)] done_okD(2,4) [OF inv(3)] by blast
qed

theorem every_directory_finished_witness:
  "\<exists>s. walk_reachable 1 s \<and> quiescent s \<and> (\<forall>n. w_heap s n = None) \<and> w_done s = [0]"
proof -
  obtain s where s: "walk_reachable 1 s" "w_phases s = [Removing 0 None]" "w_next s = 1" "w_tasks s = {#}"
    using walk_single by blast
  let ?s = "set_phase 0 (after_node None) (delete_node 0 s)"
  have "walk_step s ?s" using s by (intro remove [of 0]) simp_all
  then have r: "walk_reachable 1 ?s" by (rule walk_next [OF s(1)])
  have q: "quiescent ?s" using s by (simp add: quiescent_def after_node_def)
  from every_directory_finished [OF r] s q
  have f: "distinct (w_done ?s)" "\<forall>n. w_heap ?s n = None" "set (w_done ?s) = {..<1}" by auto
  from f(1) have "0 \<notin> set (w_done s)" by simp
  moreover from f(3) have "set (w_done s) \<subseteq> {0}" by auto
  ultimately have "set (w_done s) = {}" by (metis subset_singletonD insertI1)
  then have "w_done ?s = [0]" by simp
  with r q f(2) show ?thesis by blast
qed

subsection \<open>The walk can always finish\<close>

text \<open>
  A measure that every step but the discovery of a directory and the retry of an open brings
  down: live nodes weigh ten, a task five, and each phase what is left to do in it.
\<close>

fun phase_weight :: "phase \<Rightarrow> nat" where
  "phase_weight Idle = 0"
| "phase_weight (Opening n) = 4"
| "phase_weight (Scanning n) = 3"
| "phase_weight (Publishing n c) = 9"
| "phase_weight (Dropping n) = 2"
| "phase_weight (Removing n nxt) = 1"

definition live_nodes :: "walk \<Rightarrow> nat" where
  "live_nodes s = cnt (\<lambda>n. w_heap s n \<noteq> None) [0..<w_next s]"

definition walk_weight :: "walk \<Rightarrow> nat" where
  "walk_weight s = 10 * live_nodes s + 5 * size (w_tasks s) + sum_list (map phase_weight (w_phases s))"

lemma weight_update:
  "i < length xs \<Longrightarrow> sum_list (map f (xs[i := y])) + f (xs ! i) = sum_list (map f xs) + (f y :: nat)"
proof (induction xs arbitrary: i)
  case (Cons x xs)
  then show ?case by (cases i) auto
qed simp

lemma weight_set_phase:
  assumes "i < length (w_phases s)"
  shows "walk_weight (set_phase i ph s) + phase_weight (w_phases s ! i) = walk_weight s + phase_weight ph"
  using weight_update [OF assms, of phase_weight ph] by (simp add: walk_weight_def live_nodes_def)

lemma weight_update_node [simp]: "walk_weight (update_node n f s) = walk_weight s"
proof -
  have "cnt (\<lambda>m. w_heap (update_node n f s) m \<noteq> None) [0..<w_next s] =
      cnt (\<lambda>m. w_heap s m \<noteq> None) [0..<w_next s]"
    by (rule cnt_cong) auto
  then show ?thesis by (simp add: walk_weight_def live_nodes_def)
qed

lemma weight_tasks: "walk_weight (s\<lparr>w_tasks := t\<rparr>) + 5 * size (w_tasks s) = walk_weight s + 5 * size t"
  by (simp add: walk_weight_def live_nodes_def)

lemma weight_delete:
  assumes "w_heap s n \<noteq> None" and "n < w_next s"
  shows "walk_weight (delete_node n s) + 10 = walk_weight s"
  using cnt_upt_change [OF assms(2), of "\<lambda>m. w_heap s m \<noteq> None" "\<lambda>m. w_heap (delete_node n s) m \<noteq> None"]
    assms(1)
  by (simp add: walk_weight_def live_nodes_def)

lemma weight_after_node: "phase_weight (after_node p) \<le> 2"
  by (simp add: after_node_def split: option.split)

definition published :: "nat \<Rightarrow> nat \<Rightarrow> nat \<Rightarrow> walk \<Rightarrow> walk" where
  "published i n c s = set_phase i (Scanning n) (s\<lparr>w_tasks := add_mset c (w_tasks s)\<rparr>)"

text \<open>A step that brings worker \<open>i\<close> nearer to the end of its task.\<close>

definition nearer :: "nat \<Rightarrow> walk \<Rightarrow> walk \<Rightarrow> bool" where
  "nearer i s s' \<longleftrightarrow> walk_step s s' \<and> walk_weight s' < walk_weight s \<and> w_next s' = w_next s \<and>
     (\<exists>ph. w_phases s' = (w_phases s)[i := ph]) \<and>
     (if \<exists>n c. w_phases s ! i = Publishing n c
      then \<exists>n c. w_phases s ! i = Publishing n c \<and> s' = published i n c s else w_tasks s' = w_tasks s)"

lemma nearerI:
  "walk_step s (set_phase i ph s') \<Longrightarrow> walk_weight (set_phase i ph s') < walk_weight s \<Longrightarrow> w_next s' = w_next s \<Longrightarrow>
     w_phases s' = w_phases s \<Longrightarrow> w_tasks s' = w_tasks s \<Longrightarrow> \<nexists>n c. w_phases s ! i = Publishing n c \<Longrightarrow>
     nearer i s (set_phase i ph s')"
  unfolding nearer_def by (simp, blast)

lemma worker_gets_nearer:
  assumes inv: "counts_ok s" "tree_ok s" and i: "i < length (w_phases s)" and ph: "w_phases s ! i \<noteq> Idle"
  shows "\<exists>s'. nearer i s s'"
proof (cases "w_phases s ! i")
  case (Opening n)
  show ?thesis
    by (rule exI, rule nearerI [OF open_ok [OF i Opening, of 0]])
      (use weight_set_phase [of i "update_node n (\<lambda>nd. nd\<lparr>dn_fd := 0\<rparr>) s" "Scanning n"] i Opening in simp_all)
next
  case (Scanning n)
  show ?thesis
    by (rule exI, rule nearerI [OF scan_done [OF i Scanning]])
      (use weight_set_phase [of i "update_node n (\<lambda>nd. nd\<lparr>dn_fd := k_invalid\<rparr>) s" "Dropping n"] i Scanning in simp_all)
next
  case (Publishing n c)
  have "walk_weight (published i n c s) < walk_weight s"
    using weight_set_phase [of i "s\<lparr>w_tasks := add_mset c (w_tasks s)\<rparr>" "Scanning n"] i Publishing
      weight_tasks [where s = s and t = "add_mset c (w_tasks s)"] by (simp add: published_def)
  with publish [OF i Publishing] show ?thesis
    by (intro exI [of _ "published i n c s"]) (auto simp: nearer_def published_def Publishing)
next
  case (Dropping n)
  obtain nd where nd: "w_heap s n = Some nd" using live_if_held [OF inv(1) i Dropping, of n] by auto
  let ?s = "update_node n (\<lambda>nd. nd\<lparr>dn_refs := dn_refs nd - 1\<rparr>) s"
  let ?ph = "if dn_refs nd = 1 then Removing n (dn_parent nd) else Idle"
  have "walk_step s (set_phase i ?ph ?s)"
    using drop_shared [OF i Dropping nd] drop_last [OF i Dropping nd] by simp
  moreover have "walk_weight (set_phase i ?ph ?s) < walk_weight s"
    using weight_set_phase [of i ?s ?ph] i Dropping by (simp split: if_splits)
  ultimately show ?thesis using Dropping by (intro exI [of _ "set_phase i ?ph ?s"] nearerI) simp_all
next
  case (Removing n nxt)
  obtain nd where nd: "w_heap s n = Some nd" using live_if_held [OF inv(1) i Removing, of n] by auto
  have "n < w_next s" using tree_okD(1) [OF inv(2) nd] by simp
  with weight_delete [of s n] nd have "walk_weight (delete_node n s) + 10 = walk_weight s" by simp
  with weight_set_phase [of i "delete_node n s" "after_node nxt"] i Removing weight_after_node [of nxt]
  have "walk_weight (set_phase i (after_node nxt) (delete_node n s)) < walk_weight s" by simp
  with remove [OF i Removing] Removing show ?thesis
    by (intro exI [of _ "set_phase i (after_node nxt) (delete_node n s)"] nearerI) simp_all
qed (use ph in simp)

lemma take_weight:
  assumes "n \<in># w_tasks s" and i: "i < length (w_phases s)" "w_phases s ! i = Idle"
  shows "walk_weight (set_phase i (Opening n) (s\<lparr>w_tasks := w_tasks s - {#n#}\<rparr>)) < walk_weight s"
proof -
  obtain t where "w_tasks s = add_mset n t" using multi_member_split [OF assms(1)] by blast
  then show ?thesis
    using weight_set_phase [of i "s\<lparr>w_tasks := w_tasks s - {#n#}\<rparr>" "Opening n"]
      weight_tasks [where s = s and t = "w_tasks s - {#n#}"] i by simp
qed

lemma progress:
  assumes inv: "counts_ok s" "tree_ok s" and ws: "0 < length (w_phases s)" and nq: "\<not> quiescent s"
  shows "\<exists>s'. walk_step s s' \<and> walk_weight s' < walk_weight s \<and> w_next s' = w_next s"
proof (cases "\<exists>i < length (w_phases s). w_phases s ! i \<noteq> Idle")
  case False
  with ws nq obtain n where n: "n \<in># w_tasks s" by (force simp: quiescent_def in_set_conv_nth)
  from ws False have i: "0 < length (w_phases s)" "w_phases s ! 0 = Idle" by auto
  from take_task [OF i n] take_weight [OF n i] show ?thesis
    by (intro exI [of _ "set_phase 0 (Opening n) (s\<lparr>w_tasks := w_tasks s - {#n#}\<rparr>)"]) simp
next
  case True
  with worker_gets_nearer [OF inv] show ?thesis by (auto simp: nearer_def)
qed

lemma reachable_steps: "walk_step\<^sup>*\<^sup>* s s' \<Longrightarrow> walk_reachable workers s \<Longrightarrow> walk_reachable workers s'"
  by (induction rule: rtranclp_induct) (auto intro: walk_next)

text \<open>
  The workers never get stuck: with at least one worker, from every reachable state the
  walk can run to the end without discovering anything new, and there every node allocated
  so far has been deleted.
\<close>

theorem walk_can_finish:
  assumes "walk_reachable workers s" and "0 < workers" and "1 + workers + w_next s < 2 ^ 32"
  shows "\<exists>s'. walk_step\<^sup>*\<^sup>* s s' \<and> quiescent s' \<and> w_next s' = w_next s \<and> set (w_done s') = {..<w_next s}"
  using assms
proof (induction "walk_weight s" arbitrary: s rule: less_induct)
  case less
  from reachable_inv [OF less.prems(1,3)] have inv: "counts_ok s" "tree_ok s" "done_ok s" by auto
  show ?case
  proof (cases "quiescent s")
    case True
    then have "set (w_done s) = {..<w_next s}"
      using done_okD(1,3) [OF inv(3)] quiescent_empty [OF inv(1,2) True] by auto
    with True show ?thesis by blast
  next
    case False
    have "0 < length (w_phases s)" using reachable_workers [OF less.prems(1)] less.prems(2) by simp
    from progress [OF inv(1,2) this False]
    obtain s1 where s1: "walk_step s s1" "walk_weight s1 < walk_weight s" "w_next s1 = w_next s" by blast
    from less.hyps [OF s1(2) walk_next [OF less.prems(1) s1(1)] less.prems(2)] less.prems(3) s1(3)
    obtain s' where "walk_step\<^sup>*\<^sup>* s1 s'" "quiescent s'" "w_next s' = w_next s" "set (w_done s') = {..<w_next s}"
      by auto
    with s1(1) show ?thesis by (meson converse_rtranclp_into_rtranclp)
  qed
qed

theorem walk_can_finish_witness:
  "\<exists>s'. walk_step\<^sup>*\<^sup>* example_walk s' \<and> quiescent s' \<and> w_next s' = 2 \<and> set (w_done s') = {..<2}"
proof -
  have "w_next example_walk = 2" by (simp add: example_walk_def initial_walk_def)
  with walk_can_finish [OF example_walk_reachable] show ?thesis by auto
qed

end
