(* ===== verification/Charconv.thy ===== *)
theory Charconv
  imports Prelude
begin

section \<open>Integers as text\<close>

text \<open>
  \<open>std::from_chars\<close> and \<open>std::to_chars\<close> in base 10, the two functions of the standard
  library \<open>cutils/os/env.hpp\<close> and \<open>cutils/io/print.hpp\<close> are built on, and
  \<open>std::numeric_limits\<close> of the integral types. An integral type is its signedness and
  its width; the values are unbounded integers checked against its range.
\<close>

record int_type =
  is_signed :: bool
  width :: nat

definition int_min :: "int_type \<Rightarrow> int" where
  "int_min ty = (if is_signed ty then - (2 ^ (width ty - 1)) else 0)"

definition int_max :: "int_type \<Rightarrow> int" where
  "int_max ty = (if is_signed ty then 2 ^ (width ty - 1) - 1 else 2 ^ width ty - 1)"

definition in_range :: "int_type \<Rightarrow> int \<Rightarrow> bool" where
  "in_range ty v \<longleftrightarrow> int_min ty \<le> v \<and> v \<le> int_max ty"

definition uint16 :: int_type where "uint16 = \<lparr>is_signed = False, width = 16\<rparr>"
definition uint64 :: int_type where "uint64 = \<lparr>is_signed = False, width = 64\<rparr>"
definition int32 :: int_type where "int32 = \<lparr>is_signed = True, width = 32\<rparr>"

subsection \<open>Digits\<close>

definition digit_char :: "nat \<Rightarrow> char" where
  "digit_char d = char_of (48 + d)"

definition is_digit :: "char \<Rightarrow> bool" where
  "is_digit c \<longleftrightarrow> (48::nat) \<le> of_char c \<and> of_char c \<le> (57::nat)"

definition digit_val :: "char \<Rightarrow> nat" where
  "digit_val c = of_char c - 48"

lemma digit_char_digit [simp]: "d < 10 \<Longrightarrow> is_digit (digit_char d)"
  by (simp add: is_digit_def digit_char_def)

lemma digit_val_char [simp]: "d < 10 \<Longrightarrow> digit_val (digit_char d) = d"
  by (simp add: digit_val_def digit_char_def)

lemma digit_neq_minus [simp]: "\<not> is_digit CHR ''-''"
  by (simp add: is_digit_def)

definition digits_val :: "string \<Rightarrow> nat" where
  "digits_val ds = foldl (\<lambda>acc c. 10 * acc + digit_val c) 0 ds"

lemma digits_val_snoc [simp]: "digits_val (ds @ [c]) = 10 * digits_val ds + digit_val c"
  by (simp add: digits_val_def)

lemma digits_val_Nil [simp]: "digits_val [] = 0"
  by (simp add: digits_val_def)

subsection \<open>Printing\<close>

fun nat_chars :: "nat \<Rightarrow> string" where
  "nat_chars n = (if n < 10 then [digit_char n]
     else nat_chars (n div 10) @ [digit_char (n mod 10)])"

declare nat_chars.simps [simp del]

definition to_chars :: "int \<Rightarrow> string" where
  "to_chars v = (if v < 0 then CHR ''-'' # nat_chars (nat (- v)) else nat_chars (nat v))"

lemma nat_chars_digits: "list_all is_digit (nat_chars n)"
proof (induction n rule: nat_chars.induct)
  case (1 n)
  then show ?case by (cases "n < 10") (subst nat_chars.simps, simp)+
qed

lemma nat_chars_nonempty [simp]: "nat_chars n \<noteq> []"
  by (subst nat_chars.simps) simp

lemma digits_val_nat_chars [simp]: "digits_val (nat_chars n) = n"
proof (induction n rule: nat_chars.induct)
  case (1 n)
  show ?case
  proof (cases "n < 10")
    case True
    then show ?thesis by (subst nat_chars.simps) (simp add: digits_val_def)
  next
    case False
    with "1.IH" show ?thesis by (subst nat_chars.simps) simp
  qed
qed

lemma length_nat_chars_less: "n < 10 ^ k \<Longrightarrow> 0 < k \<Longrightarrow> length (nat_chars n) \<le> k"
proof (induction n arbitrary: k rule: nat_chars.induct)
  case (1 n)
  show ?case
  proof (cases "n < 10")
    case True
    with 1 show ?thesis by (subst nat_chars.simps) simp
  next
    case False
    with "1.prems" obtain k' where k: "k = Suc k'" "0 < k'"
      by (cases k; cases "k - 1") auto
    with "1.prems" have "n div 10 < 10 ^ k'" by (simp add: div_less_iff_less_mult mult.commute)
    with "1.IH" False k have "length (nat_chars (n div 10)) \<le> k'" by blast
    with False k show ?thesis by (subst nat_chars.simps) simp
  qed
qed

lemma less_pow_length_nat_chars: "n < 10 ^ length (nat_chars n)"
proof (induction n rule: nat_chars.induct)
  case (1 n)
  show ?case
  proof (cases "n < 10")
    case True
    then show ?thesis by (subst nat_chars.simps) simp
  next
    case False
    with "1.IH" have "n div 10 < 10 ^ length (nat_chars (n div 10))" by simp
    then have "n < 10 * 10 ^ length (nat_chars (n div 10))"
      by (simp add: div_less_iff_less_mult mult.commute)
    with False show ?thesis by (subst nat_chars.simps) simp
  qed
qed

subsection \<open>Parsing\<close>

text \<open>
  \<open>std::from_chars\<close> takes the longest prefix that is an optional minus (a signed type
  only) and digits. Without a digit it reports \<open>invalid_argument\<close> and stops at the
  start; a value outside the type is \<open>result_out_of_range\<close> and stops after the digits;
  otherwise it returns the value. The result is where it stopped, the error if any, and
  the value.
\<close>

definition from_chars :: "int_type \<Rightarrow> string \<Rightarrow> nat \<times> errc option \<times> int" where
  "from_chars ty text =
     (let neg = is_signed ty \<and> text \<noteq> [] \<and> hd text = CHR ''-'';
          start = (if neg then 1 else 0);
          ds = takeWhile is_digit (drop start text);
          v = (if neg then - int (digits_val ds) else int (digits_val ds))
      in if ds = [] then (0, Some EINVAL, 0)
         else if in_range ty v then (start + length ds, None, v)
         else (start + length ds, Some ERANGE, 0))"

text \<open>\<open>numeric_limits<T>::digits10\<close>: the decimal digits every value of the type can hold.\<close>

definition digits10 :: "int_type \<Rightarrow> nat" where
  "digits10 ty = length (nat_chars (2 ^ (if is_signed ty then width ty - 1 else width ty))) - 1"

lemma takeWhile_digits [simp]: "takeWhile is_digit (nat_chars n) = nat_chars n"
  using nat_chars_digits by (simp add: takeWhile_eq_all_conv list_all_iff)

lemma hd_nat_chars_neq_minus: "hd (nat_chars n) \<noteq> CHR ''-''"
  using nat_chars_digits [of n] nat_chars_nonempty [of n]
  by (metis digit_neq_minus list.pred_inject(2) list.exhaust_sel)

lemma from_chars_to_chars:
  assumes "in_range ty v"
  shows "from_chars ty (to_chars v) = (length (to_chars v), None, v)"
proof (cases "v < 0")
  case True
  with assms have "is_signed ty" by (auto simp: in_range_def int_min_def split: if_splits)
  with True assms show ?thesis by (simp add: from_chars_def to_chars_def)
next
  case False
  with assms hd_nat_chars_neq_minus show ?thesis by (simp add: from_chars_def to_chars_def)
qed

text \<open>A magnitude of the type has at most one digit more than \<^const>\<open>digits10\<close>.\<close>

lemma length_nat_chars_digits10:
  assumes "n \<le> 2 ^ (if is_signed ty then width ty - 1 else width ty)"
  shows "length (nat_chars n) \<le> digits10 ty + 1"
proof -
  let ?m = "2 ^ (if is_signed ty then width ty - 1 else width ty) :: nat"
  have "n < 10 ^ length (nat_chars ?m)"
    using assms less_pow_length_nat_chars [of ?m] by (rule le_less_trans)
  moreover have "0 < length (nat_chars ?m)" by simp
  ultimately have "length (nat_chars n) \<le> length (nat_chars ?m)"
    by (rule length_nat_chars_less)
  then show ?thesis by (simp add: digits10_def)
qed

end
