(* ===== verification/Print.thy ===== *)
theory Print
  imports Charconv
begin

section \<open>Formatting\<close>

text \<open>
  \<open>cutils/io/print.hpp\<close>: the formatters of single values, the compile-time check of a
  format string, and the pieces \<open>Print\<close> and \<open>PrintLn\<close> hand to \<open>WriteMany\<close>. A message
  is the list of its pieces; a writer sends their concatenation.
\<close>

subsection \<open>Formatters\<close>

datatype fmt_arg =
    ArgStr string
  | ArgChar char
  | ArgBool bool
  | ArgInt int_type int

text \<open>
  The integral formatter prints into a zeroed array of \<open>digits10 + 2\<close> bytes. When the text
  does not fit, \<open>to_chars\<close> writes nothing and returns the end of the array, which the
  formatter does not notice: the view is then the zeroed array.
\<close>

definition formatter_int :: "int_type \<Rightarrow> int \<Rightarrow> string" where
  "formatter_int ty v =
     (let cap = digits10 ty + 2; s = to_chars v
      in if length s \<le> cap then s else replicate cap (CHR 0x00))"

fun formatter_view :: "fmt_arg \<Rightarrow> string" where
  "formatter_view (ArgStr s) = s"
| "formatter_view (ArgChar c) = [c]"
| "formatter_view (ArgBool b) = (if b then ''true'' else ''false'')"
| "formatter_view (ArgInt ty v) = formatter_int ty v"

lemma to_chars_fits:
  assumes "in_range ty v" and "0 < width ty"
  shows "length (to_chars v) \<le> digits10 ty + 2"
proof (cases "v < 0")
  case True
  with assms have "is_signed ty" and "- v \<le> 2 ^ (width ty - 1)"
    by (auto simp: in_range_def int_min_def split: if_splits)
  then have "nat (- v) \<le> 2 ^ (if is_signed ty then width ty - 1 else width ty)"
    by (simp add: nat_le_iff)
  then have "length (nat_chars (nat (- v))) \<le> digits10 ty + 1"
    by (rule length_nat_chars_digits10)
  with True show ?thesis by (simp add: to_chars_def)
next
  case False
  with assms have "nat v \<le> 2 ^ (if is_signed ty then width ty - 1 else width ty)"
    by (auto simp: in_range_def int_max_def nat_le_iff split: if_splits)
  then have "length (nat_chars (nat v)) \<le> digits10 ty + 1"
    by (rule length_nat_chars_digits10)
  with False show ?thesis by (simp add: to_chars_def)
qed

lemma formatter_int_exact: "in_range ty v \<Longrightarrow> 0 < width ty \<Longrightarrow> formatter_int ty v = to_chars v"
  using to_chars_fits [of ty v] by (simp add: formatter_int_def Let_def)

subsection \<open>Format strings\<close>

text \<open>
  The constructor of \<open>FormatString\<close> runs at compile time and rejects a string whose braces
  are not all holes \<open>{}\<close> or whose holes are not as many as the arguments.
  \<open>count_holes\<close> is its loop: \<^const>\<open>None\<close> when a brace stands alone.
\<close>

fun count_holes :: "string \<Rightarrow> nat option" where
  "count_holes [] = Some 0"
| "count_holes [c] = (if c = CHR ''{'' \<or> c = CHR ''}'' then None else Some 0)"
| "count_holes (c # d # s) =
     (if c = CHR ''{'' \<and> d = CHR ''}'' then map_option Suc (count_holes s)
      else if c = CHR ''{'' \<or> c = CHR ''}'' then None
      else count_holes (d # s))"

definition format_string_ok :: "string \<Rightarrow> nat \<Rightarrow> bool" where
  "format_string_ok fmt n \<longleftrightarrow> count_holes fmt = Some n"

text \<open>\<open>fmt.find("{}")\<close>\<close>

fun find_hole :: "string \<Rightarrow> nat option" where
  "find_hole (c # d # s) =
     (if c = CHR ''{'' \<and> d = CHR ''}'' then Some 0 else map_option Suc (find_hole (d # s)))"
| "find_hole s = None"

text \<open>
  Without a hole \<open>find\<close> returns \<open>npos\<close>: \<open>substr\<close> then takes everything and the prefix
  removed is \<open>npos + 2\<close>, which wraps to one byte.
\<close>

fun format_pieces :: "string \<Rightarrow> string list \<Rightarrow> string list" where
  "format_pieces fmt [] = [fmt]"
| "format_pieces fmt (v # vs) =
     (case find_hole fmt of
        None \<Rightarrow> fmt # v # format_pieces (drop 1 fmt) vs
      | Some hole \<Rightarrow> take hole fmt # v # format_pieces (drop (hole + 2) fmt) vs)"

definition print_pieces :: "string \<Rightarrow> fmt_arg list \<Rightarrow> string list" where
  "print_pieces fmt args = format_pieces fmt (map formatter_view args)"

definition println_pieces :: "string \<Rightarrow> fmt_arg list \<Rightarrow> string list" where
  "println_pieces fmt args = format_pieces fmt (map formatter_view args) @ [[CHR 0x0A]]"

subsection \<open>The reference formatter\<close>

text \<open>One pass over the format string, each hole replaced by the next argument's text.\<close>

fun fill :: "string \<Rightarrow> string list \<Rightarrow> string" where
  "fill (c # d # s) (v # vs) =
     (if c = CHR ''{'' \<and> d = CHR ''}'' then v @ fill s vs else c # fill (d # s) (v # vs))"
| "fill s vs = s"

lemma find_hole_count:
  "count_holes fmt = Some (Suc n) \<Longrightarrow>
     \<exists>hole. find_hole fmt = Some hole \<and> count_holes (drop (hole + 2) fmt) = Some n"
  by (induction fmt arbitrary: n rule: count_holes.induct) (fastforce split: if_splits)+

lemma fill_hole:
  "find_hole fmt = Some hole \<Longrightarrow>
     fill fmt (v # vs) = take hole fmt @ v @ fill (drop (hole + 2) fmt) vs"
  by (induction fmt arbitrary: hole rule: find_hole.induct) (auto split: if_splits)

lemma format_pieces_fill:
  "format_string_ok fmt (length vs) \<Longrightarrow> concat (format_pieces fmt vs) = fill fmt vs"
proof (induction vs arbitrary: fmt)
  case Nil
  then show ?case by (cases fmt rule: find_hole.cases) auto
next
  case (Cons v vs)
  then obtain hole where "find_hole fmt = Some hole"
    "format_string_ok (drop (hole + 2) fmt) (length vs)"
    using find_hole_count unfolding format_string_ok_def length_Cons by blast
  with Cons.IH show ?case by (simp add: fill_hole)
qed

lemma length_format_pieces: "length (format_pieces fmt vs) = 2 * length vs + 1"
  by (induction vs arbitrary: fmt) (auto split: option.split)

lemma println_text:
  "format_string_ok fmt (length args) \<Longrightarrow>
     concat (println_pieces fmt args) = fill fmt (map formatter_view args) @ [CHR 0x0A]"
  by (simp add: println_pieces_def format_pieces_fill)

subsection \<open>Properties\<close>

text \<open>
  The array of the integral formatter is large enough for every value of every
  integral type, the most negative one included: nothing is cut off and no zero byte is
  printed.
\<close>

theorem formatter_int_fits:
  assumes "in_range ty v" and "0 < width ty"
  shows "formatter_int ty v = to_chars v \<and> length (to_chars v) \<le> digits10 ty + 2"
  using formatter_int_exact [OF assms] to_chars_fits [OF assms] by (rule conjI)

theorem formatter_int_fits_witness:
  "formatter_int int32 (- 2147483648) = to_chars (- 2147483648) \<and>
     length (to_chars (- 2147483648)) \<le> digits10 int32 + 2"
  by (rule formatter_int_fits) (simp_all add: in_range_def int_min_def int_max_def int32_def)

text \<open>
  C39: for a format string the compiler accepts, the pieces of a print are the format
  string with its holes replaced by the arguments in order, and there are two pieces per
  argument and one more.
\<close>

theorem format_pieces_correct:
  assumes "format_string_ok fmt (length vs)"
  shows "concat (format_pieces fmt vs) = fill fmt vs \<and>
    length (format_pieces fmt vs) = 2 * length vs + 1"
  using assms by (simp add: format_pieces_fill length_format_pieces)

theorem format_pieces_correct_witness:
  "concat (format_pieces ''{}/{}'' [''d'', ''x'']) = fill ''{}/{}'' [''d'', ''x''] \<and>
     length (format_pieces ''{}/{}'' [''d'', ''x'']) = 2 * length [''d'', ''x''] + 1"
  by (rule format_pieces_correct) (simp add: format_string_ok_def)

end
