(* ===== verification/Cli.thy ===== *)
theory Cli
  imports Print
begin

section \<open>The command line\<close>

text \<open>
  \<open>src/cli.hpp\<close> and \<open>src/cli.cpp\<close>: the options of BSD \<open>rm(1)\<close>, the parser over \<open>argv\<close>,
  the \<open>unlink(1)\<close> mode, the refusal of options that are not supported yet and the removal of
  operands \<open>rm\<close> must not touch. \<open>argv\<close> is a list of strings; \<open>progname\<close> is the result of
  \<open>os::GetProgName\<close>. What a function prints is returned as a list of messages for the
  standard error writer, each the list of its pieces.
\<close>

subsection \<open>Data\<close>

record options =
  opt_dir :: bool
  opt_force :: bool
  opt_interactive :: bool
  opt_prompt_once :: bool
  opt_overwrite :: bool
  opt_recursive :: bool
  opt_verbose :: bool
  opt_undelete :: bool
  opt_one_file_system :: bool

definition default_options :: options where
  "default_options = \<lparr>opt_dir = False, opt_force = False, opt_interactive = False,
     opt_prompt_once = False, opt_overwrite = False, opt_recursive = False,
     opt_verbose = False, opt_undelete = False, opt_one_file_system = False\<rparr>"

text \<open>\<open>UsageError\<close> carries the illegal option letter, if there was one.\<close>

datatype usage_error = UsageError "char option"

record cli =
  cli_options :: options
  cli_operands :: "string list"
  cli_argv :: "string list"
  has_dropped_operands :: bool

record unlink_cli =
  unlink_operand :: string
  unlink_argv :: "string list"

datatype command = RmCommand cli | UnlinkCommand unlink_cli

type_synonym message = "string list"

definition k_exit_usage :: int where "k_exit_usage = 64"
definition k_exit_unsupported :: int where "k_exit_unsupported = 1"

definition k_usage_msg :: string where
  "k_usage_msg = ''usage: rm [-f | -i] [-dIPRrvWx] file ...'' @ [CHR 0x0A] @
     ''       unlink [--] file''"

subsection \<open>argv\<close>

definition argv_span :: "int \<Rightarrow> string list \<Rightarrow> string list" where
  "argv_span argc argv = take (if argc > 0 then nat argc else 0) argv"

definition args_span :: "string list \<Rightarrow> string list" where
  "args_span span = (if span = [] then span else drop 1 span)"

definition invocation_path :: "string list \<Rightarrow> string" where
  "invocation_path span = (if span = [] then ''rm'' else span ! 0)"

definition command_name :: "string \<Rightarrow> string list \<Rightarrow> string" where
  "command_name progname span =
     (if progname \<noteq> [] then progname
      else let base = after_last CHR ''/'' (invocation_path span)
           in if base = [] then ''rm'' else base)"

definition is_unlink_mode :: "string list \<Rightarrow> bool" where
  "is_unlink_mode span =
     (let argv0 = invocation_path span
      in (case rfind CHR ''/'' argv0 of None \<Rightarrow> argv0 | Some slash \<Rightarrow> drop (Suc slash) argv0)
           = ''unlink'')"

subsection \<open>Parsing\<close>

text \<open>Applies one option letter; \<^const>\<open>False\<close> when it is not one of rm's.\<close>

definition apply_option :: "options \<Rightarrow> char \<Rightarrow> bool \<times> options" where
  "apply_option opts letter =
     (if letter = CHR ''d'' then (True, opts\<lparr>opt_dir := True\<rparr>)
      else if letter = CHR ''f''
      then (True, opts\<lparr>opt_force := True, opt_interactive := False\<rparr>)
      else if letter = CHR ''i''
      then (True, opts\<lparr>opt_interactive := True, opt_force := False\<rparr>)
      else if letter = CHR ''I'' then (True, opts\<lparr>opt_prompt_once := True\<rparr>)
      else if letter = CHR ''P'' then (True, opts\<lparr>opt_overwrite := True\<rparr>)
      else if letter = CHR ''R'' \<or> letter = CHR ''r'' then (True, opts\<lparr>opt_recursive := True\<rparr>)
      else if letter = CHR ''v'' then (True, opts\<lparr>opt_verbose := True\<rparr>)
      else if letter = CHR ''W'' then (True, opts\<lparr>opt_undelete := True\<rparr>)
      else if letter = CHR ''x'' then (True, opts\<lparr>opt_one_file_system := True\<rparr>)
      else (False, opts))"

fun parse_letters :: "options \<Rightarrow> string \<Rightarrow> (options, usage_error) expected" where
  "parse_letters opts [] = Inr opts"
| "parse_letters opts (letter # ls) =
     (case apply_option opts letter of (ok, opts') \<Rightarrow>
        if \<not> ok then Inl (UsageError (Some letter)) else parse_letters opts' ls)"

function parse_args ::
  "string list \<Rightarrow> nat \<Rightarrow> options \<Rightarrow> (options \<times> nat, usage_error) expected" where
  "parse_args args index opts =
     (if index < length args then
        (let arg = args ! index
         in if length arg < 2 \<or> arg ! 0 \<noteq> CHR ''-'' then Inr (opts, index)
            else if arg = ''--'' then Inr (opts, Suc index)
            else (case parse_letters opts (drop 1 arg) of
                    Inl e \<Rightarrow> Inl e
                  | Inr opts' \<Rightarrow> parse_args args (Suc index) opts'))
      else Inr (opts, index))"
  by pat_completeness auto
termination
  by (relation "measure (\<lambda>(args, index, _). length args - index)") auto

declare parse_args.simps [simp del]

definition parse :: "string list \<Rightarrow> (cli, usage_error) expected" where
  "parse span =
     (case parse_args (args_span span) 0 default_options of
        Inl e \<Rightarrow> Inl e
      | Inr (opts, index) \<Rightarrow>
          (let n = length (args_span span) - index;
               operands = drop (length span - n) span
           in if operands = [] \<and> \<not> opt_force opts then Inl (UsageError None)
              else Inr \<lparr>cli_options = opts, cli_operands = operands, cli_argv = span,
                         has_dropped_operands = False\<rparr>))"

definition parse_unlink_operand :: "string list \<Rightarrow> (string, usage_error) expected" where
  "parse_unlink_operand span =
     (let args = args_span span
      in if length args = 1 then Inr (args ! 0)
         else if length args = 2 \<and> args ! 0 = ''--'' then Inr (last args)
         else Inl (UsageError None))"

subsection \<open>Reports and refusals\<close>

definition report_usage :: "string list \<Rightarrow> usage_error \<Rightarrow> message" where
  "report_usage span err =
     (case err of
        UsageError (Some letter) \<Rightarrow>
          println_pieces (''{}: illegal option -- {}'' @ [CHR 0x0A] @ ''{}'')
            [ArgStr (invocation_path span), ArgChar letter, ArgStr k_usage_msg]
      | UsageError None \<Rightarrow> println_pieces ''{}'' [ArgStr k_usage_msg])"

definition refuse :: "string list \<Rightarrow> char \<Rightarrow> (cli, int) expected \<times> message list" where
  "refuse span letter =
     (Inl k_exit_unsupported,
      [println_pieces ''{}: -{}: not supported yet; nothing was removed''
         [ArgStr (invocation_path span), ArgChar letter]])"

definition check_unsupported :: "string list \<Rightarrow> cli \<Rightarrow> (cli, int) expected \<times> message list" where
  "check_unsupported span c =
     (if opt_interactive (cli_options c) then refuse span CHR ''i''
      else if opt_undelete (cli_options c) \<and> \<not> opt_recursive (cli_options c)
      then refuse span CHR ''W''
      else if opt_one_file_system (cli_options c) \<and> opt_recursive (cli_options c)
      then refuse span CHR ''x''
      else (Inr c, []))"

subsection \<open>Operands that may not be removed\<close>

function strip_slashes :: "string \<Rightarrow> string" where
  "strip_slashes path =
     (if length path > 1 \<and> last path = CHR ''/'' then strip_slashes (butlast path) else path)"
  by pat_completeness auto
termination
  by (relation "measure length") auto

declare strip_slashes.simps [simp del]

definition is_dot_or_dot_dot_operand :: "string \<Rightarrow> bool" where
  "is_dot_or_dot_dot_operand path0 =
     (let path = strip_slashes path0;
          last = (case rfind CHR ''/'' path of None \<Rightarrow> path | Some slash \<Rightarrow> drop (slash + 1) path)
      in last = ''.'' \<or> last = ''..'')"

definition quoted :: "string \<Rightarrow> string" where
  "quoted s = [CHR 0x22] @ s @ [CHR 0x22]"

definition drop_unremovable_operands :: "string \<Rightarrow> cli \<Rightarrow> cli \<times> message list" where
  "drop_unremovable_operands progname c =
     (let is_slash = (\<lambda>path. path = ''/'');
          operands = cli_operands c;
          dot = list_ex is_dot_or_dot_dot_operand operands;
          slash = list_ex is_slash operands;
          kept = filter (\<lambda>path. \<not> (is_dot_or_dot_dot_operand path \<or> is_slash path)) operands;
          name = command_name progname (cli_argv c)
      in (c\<lparr>cli_operands := kept,
            has_dropped_operands := has_dropped_operands c \<or> dot \<or> slash\<rparr>,
          (if dot then [println_pieces (''{}: '' @ quoted ''.'' @ '' and '' @ quoted ''..''
              @ '' may not be removed'') [ArgStr name]] else []) @
          (if slash then [println_pieces (''{}: '' @ quoted ''/'' @ '' may not be removed'')
              [ArgStr name]] else [])))"

subsection \<open>The whole parse\<close>

definition try_parse_or_abort ::
  "string \<Rightarrow> string list \<Rightarrow> (command, int) expected \<times> message list" where
  "try_parse_or_abort progname span =
     (if is_unlink_mode span then
        (case parse_unlink_operand span of
           Inl e \<Rightarrow> (Inl k_exit_usage, [report_usage span e])
         | Inr operand \<Rightarrow>
             (Inr (UnlinkCommand \<lparr>unlink_operand = operand, unlink_argv = span\<rparr>), []))
      else
        (case parse span of
           Inl e \<Rightarrow> (Inl k_exit_usage, [report_usage span e])
         | Inr c \<Rightarrow>
             (case drop_unremovable_operands progname c of (c', msgs) \<Rightarrow>
                if cli_operands c' = [] then (Inr (RmCommand c'), msgs)
                else (case check_unsupported span c' of
                        (Inl code, refused) \<Rightarrow> (Inl code, msgs @ refused)
                      | (Inr c'', refused) \<Rightarrow> (Inr (RmCommand c''), msgs @ refused)))))"

subsection \<open>The reference scanner\<close>

text \<open>
  What \<open>getopt(3)\<close> with \<open>"dfiIPRrvWx"\<close> and POSIX ordering does, without an index: option
  arguments are those before the first argument that is not one, a \<open>--\<close> after them is
  dropped, their letters are taken in order, the first unknown letter is an error.
\<close>

definition is_option_arg :: "string \<Rightarrow> bool" where
  "is_option_arg arg \<longleftrightarrow> 2 \<le> length arg \<and> arg ! 0 = CHR ''-'' \<and> arg \<noteq> ''--''"

definition option_letters :: "string list \<Rightarrow> string" where
  "option_letters args = concat (map (drop 1) (takeWhile is_option_arg args))"

definition operand_args :: "string list \<Rightarrow> string list" where
  "operand_args args =
     (case dropWhile is_option_arg args of
        [] \<Rightarrow> []
      | arg # rest \<Rightarrow> if arg = ''--'' then rest else arg # rest)"

definition rm_letters :: string where
  "rm_letters = ''dfiIPRrvWx''"

definition illegal_letter :: "string \<Rightarrow> char option" where
  "illegal_letter letters = List.find (\<lambda>c. c \<notin> set rm_letters) letters"

text \<open>
  The options the letters ask for, as a table: \<open>-f\<close> and \<open>-i\<close> override each other and the last
  one given wins, any other option is on when its letter was given.
\<close>

definition fi_letters :: "string \<Rightarrow> string" where
  "fi_letters cs = filter (\<lambda>c. c = CHR ''f'' \<or> c = CHR ''i'') cs"

definition letters_options :: "string \<Rightarrow> options" where
  "letters_options ls =
     \<lparr>opt_dir = CHR ''d'' \<in> set ls,
      opt_force = (fi_letters ls \<noteq> [] \<and> last (fi_letters ls) = CHR ''f''),
      opt_interactive = (fi_letters ls \<noteq> [] \<and> last (fi_letters ls) = CHR ''i''),
      opt_prompt_once = CHR ''I'' \<in> set ls, opt_overwrite = CHR ''P'' \<in> set ls,
      opt_recursive = (CHR ''r'' \<in> set ls \<or> CHR ''R'' \<in> set ls), opt_verbose = CHR ''v'' \<in> set ls,
      opt_undelete = CHR ''W'' \<in> set ls, opt_one_file_system = CHR ''x'' \<in> set ls\<rparr>"

definition getopt_spec :: "string list \<Rightarrow> (options \<times> string list, usage_error) expected" where
  "getopt_spec args =
     (case illegal_letter (option_letters args) of
        Some c \<Rightarrow> Inl (UsageError (Some c))
      | None \<Rightarrow>
          (let opts = letters_options (option_letters args)
           in if operand_args args = [] \<and> \<not> opt_force opts then Inl (UsageError None)
              else Inr (opts, operand_args args)))"

subsection \<open>The parser is the reference scanner\<close>

text \<open>The letters applied one after the other, as the loop does.\<close>

definition apply_letters :: "options \<Rightarrow> string \<Rightarrow> options" where
  "apply_letters opts letters = foldl (\<lambda>o' c. snd (apply_option o' c)) opts letters"

lemma apply_option_ok: "fst (apply_option opts c) \<longleftrightarrow> c \<in> set rm_letters"
  by (auto simp: apply_option_def rm_letters_def)

lemma apply_letters_simps [simp]:
  "apply_letters opts [] = opts"
  "apply_letters opts (c # cs) = apply_letters (snd (apply_option opts c)) cs"
  "apply_letters opts (cs @ ds) = apply_letters (apply_letters opts cs) ds"
  by (simp_all add: apply_letters_def)

lemma illegal_letter_simps [simp]:
  "illegal_letter [] = None"
  "illegal_letter (c # cs) = (if c \<in> set rm_letters then illegal_letter cs else Some c)"
  by (simp_all add: illegal_letter_def)

lemma illegal_letter_append:
  "illegal_letter (cs @ ds) =
     (case illegal_letter cs of None \<Rightarrow> illegal_letter ds | Some c \<Rightarrow> Some c)"
  by (induction cs) auto

lemma parse_letters_eq:
  "parse_letters opts cs =
     (case illegal_letter cs of
        Some c \<Rightarrow> Inl (UsageError (Some c))
      | None \<Rightarrow> Inr (apply_letters opts cs))"
proof (induction opts cs rule: parse_letters.induct)
  case (2 opts c cs)
  obtain ok opts' where ap: "apply_option opts c = (ok, opts')" by fastforce
  then have ok: "ok \<longleftrightarrow> c \<in> set rm_letters" using apply_option_ok [of opts c] by simp
  show ?case
  proof (cases ok)
    case True
    with "2.IH" [OF ap [symmetric]] ap ok show ?thesis by (simp split: option.split)
  next
    case False
    with ap ok show ?thesis by simp
  qed
qed simp

lemma option_args_Cons [simp]:
  "is_option_arg a \<Longrightarrow> option_letters (a # as) = drop 1 a @ option_letters as"
  "is_option_arg a \<Longrightarrow> operand_args (a # as) = operand_args as"
  "\<not> is_option_arg a \<Longrightarrow> option_letters (a # as) = []"
  "\<not> is_option_arg a \<Longrightarrow> operand_args (a # as) = (if a = ''--'' then as else a # as)"
  by (simp_all add: option_letters_def operand_args_def)

lemma option_args_Nil [simp]: "option_letters [] = []" "operand_args [] = []"
  by (simp_all add: option_letters_def operand_args_def)

lemma operand_args_suffix: "\<exists>pre. as = pre @ operand_args as"
proof (induction as)
  case Nil
  then show ?case by simp
next
  case (Cons a as)
  then obtain pre where "as = pre @ operand_args as" by blast
  then have e: "a # as = (a # pre) @ operand_args as" by simp
  show ?case
  proof (cases "is_option_arg a")
    case True
    with e show ?thesis by (metis option_args_Cons(2))
  next
    case False
    then show ?thesis by (auto intro: exI [of _ "[a]"] exI [of _ "[]"])
  qed
qed

lemma length_operand_args: "length (operand_args as) \<le> length as"
  by (metis operand_args_suffix length_append le_add2)

lemma drop_operand_args: "drop (length as - length (operand_args as)) as = operand_args as"
  using operand_args_suffix [of as] by (metis append_eq_conv_conj add_diff_cancel_right' length_append)

lemma parse_args_eq:
  "index \<le> length args \<Longrightarrow> parse_args args index opts =
     (case illegal_letter (option_letters (drop index args)) of
        Some c \<Rightarrow> Inl (UsageError (Some c))
      | None \<Rightarrow> Inr (apply_letters opts (option_letters (drop index args)),
                  length args - length (operand_args (drop index args))))"
proof (induction args index opts rule: parse_args.induct)
  case (1 args index opts)
  show ?case
  proof (cases "index < length args")
    case False
    with "1.prems" show ?thesis by (subst parse_args.simps) simp
  next
    case True
    then have d: "drop index args = args ! index # drop (Suc index) args"
      by (simp add: Cons_nth_drop_Suc)
    consider "is_option_arg (args ! index)" | "args ! index = ''--''"
      | "length (args ! index) < 2 \<or> args ! index ! 0 \<noteq> CHR ''-''"
      by (fastforce simp: is_option_arg_def)
    then show ?thesis
    proof cases
      case 1
      note IH = "1.IH" [OF True refl]
      from 1 have nostop: "\<not> (length (args ! index) < 2 \<or> args ! index ! 0 \<noteq> CHR ''-'')"
        "args ! index \<noteq> ''--''" by (auto simp: is_option_arg_def)
      from IH [OF nostop] 1 True nostop show ?thesis
        by (simp add: parse_args.simps [of args index] d parse_letters_eq illegal_letter_append
            Let_def split: option.split)
    next
      case 2
      then have "\<not> is_option_arg (args ! index)" by (simp add: is_option_arg_def)
      with 2 True show ?thesis by (simp add: parse_args.simps [of args index] d)
    next
      case 3
      then have "\<not> is_option_arg (args ! index)" "args ! index \<noteq> ''--''"
        by (auto simp: is_option_arg_def)
      with 3 True show ?thesis by (simp add: parse_args.simps [of args index] d)
    qed
  qed
qed

lemma last_args_span:
  "drop (length span - (length (args_span span) - (length (args_span span) -
     length (operand_args (args_span span))))) span = operand_args (args_span span)"
proof (cases span)
  case (Cons a as)
  have "length (a # as) - length (operand_args as) = Suc (length as - length (operand_args as))"
    using length_operand_args [of as] by simp
  with Cons show ?thesis
    using length_operand_args [of as] drop_operand_args [of as] by (simp add: args_span_def)
qed (simp add: args_span_def)

lemma apply_letters_last:
  "opt_force (apply_letters opts cs) \<longleftrightarrow>
     (if fi_letters cs = [] then opt_force opts else last (fi_letters cs) = CHR ''f'')"
  "opt_interactive (apply_letters opts cs) \<longleftrightarrow>
     (if fi_letters cs = [] then opt_interactive opts else last (fi_letters cs) = CHR ''i'')"
  by (induction cs rule: rev_induct) (simp_all add: apply_option_def fi_letters_def)

lemma apply_letters_flags:
  "opt_dir (apply_letters opts cs) \<longleftrightarrow> opt_dir opts \<or> CHR ''d'' \<in> set cs"
  "opt_prompt_once (apply_letters opts cs) \<longleftrightarrow> opt_prompt_once opts \<or> CHR ''I'' \<in> set cs"
  "opt_overwrite (apply_letters opts cs) \<longleftrightarrow> opt_overwrite opts \<or> CHR ''P'' \<in> set cs"
  "opt_recursive (apply_letters opts cs) \<longleftrightarrow>
     opt_recursive opts \<or> CHR ''r'' \<in> set cs \<or> CHR ''R'' \<in> set cs"
  "opt_verbose (apply_letters opts cs) \<longleftrightarrow> opt_verbose opts \<or> CHR ''v'' \<in> set cs"
  "opt_undelete (apply_letters opts cs) \<longleftrightarrow> opt_undelete opts \<or> CHR ''W'' \<in> set cs"
  "opt_one_file_system (apply_letters opts cs) \<longleftrightarrow>
     opt_one_file_system opts \<or> CHR ''x'' \<in> set cs"
  by (induction cs rule: rev_induct) (simp_all add: apply_option_def, blast)

lemma apply_letters_options: "apply_letters default_options ls = letters_options ls"
  by (rule options.equality)
    (simp_all add: letters_options_def apply_letters_last apply_letters_flags default_options_def)

lemma parse_eq_getopt:
  "parse span =
     (case getopt_spec (args_span span) of
        Inl e \<Rightarrow> Inl e
      | Inr (opts, operands) \<Rightarrow>
          Inr \<lparr>cli_options = opts, cli_operands = operands, cli_argv = span,
               has_dropped_operands = False\<rparr>)"
proof (cases "illegal_letter (option_letters (args_span span))")
  case (Some c)
  then show ?thesis by (simp add: parse_def parse_args_eq getopt_spec_def)
next
  case None
  with last_args_span [of span] show ?thesis
    by (simp add: parse_def parse_args_eq getopt_spec_def apply_letters_options Let_def del: drop_eq_Nil drop_eq_Nil2)
qed

subsection \<open>Operands that are dropped\<close>

lemma strip_slashes_decomp: "\<exists>n. path = strip_slashes path @ replicate n CHR ''/''"
proof (induction path rule: strip_slashes.induct)
  case (1 path)
  show ?case
  proof (cases "length path > 1 \<and> last path = CHR ''/''")
    case True
    then obtain n where "butlast path = strip_slashes (butlast path) @ replicate n CHR ''/''"
      using "1.IH" by blast
    moreover from True have "path = butlast path @ [CHR ''/'']"
      by (metis append_butlast_last_id length_0_conv not_one_less_zero)
    ultimately have "path = strip_slashes (butlast path) @ replicate (Suc n) CHR ''/''"
      by (metis append.assoc replicate_append_same replicate_Suc)
    with True show ?thesis by (metis strip_slashes.simps)
  next
    case False
    then have "strip_slashes path = path" by (subst strip_slashes.simps) auto
    then show ?thesis by (intro exI [of _ 0]) simp
  qed
qed

lemma strip_slashes_append:
  assumes "p \<noteq> []" and "last p \<noteq> CHR ''/''"
  shows "strip_slashes (p @ replicate n CHR ''/'') = p"
proof (induction n)
  case 0
  with assms show ?case by (subst strip_slashes.simps) simp
next
  case (Suc n)
  have e: "p @ replicate (Suc n) CHR ''/'' = (p @ replicate n CHR ''/'') @ [CHR ''/'']"
    by (simp add: replicate_append_same)
  have "length ((p @ replicate n CHR ''/'') @ [CHR ''/'']) > 1" using assms(1) by simp
  with Suc show ?case unfolding e
    by (subst strip_slashes.simps) (simp only: butlast_snoc last_snoc if_True simp_thms)
qed

lemma dot_operand_iff:
  "is_dot_or_dot_dot_operand path \<longleftrightarrow>
     (\<exists>pre w n. path = pre @ w @ replicate n CHR ''/'' \<and> (w = ''.'' \<or> w = ''..'') \<and>
        (pre = [] \<or> last pre = CHR ''/''))"
proof -
  have al: "is_dot_or_dot_dot_operand path \<longleftrightarrow>
      after_last CHR ''/'' (strip_slashes path) = ''.'' \<or>
      after_last CHR ''/'' (strip_slashes path) = ''..''"
    by (simp add: is_dot_or_dot_dot_operand_def after_last_def Let_def split: option.split)
  show ?thesis
  proof
    assume "is_dot_or_dot_dot_operand path"
    moreover obtain n where "path = strip_slashes path @ replicate n CHR ''/''"
      using strip_slashes_decomp by blast
    moreover obtain pre where
      "strip_slashes path = pre @ after_last CHR ''/'' (strip_slashes path)"
      "pre = [] \<or> last pre = CHR ''/''"
      using after_last_decomp by blast
    ultimately show "\<exists>pre w n. path = pre @ w @ replicate n CHR ''/'' \<and>
        (w = ''.'' \<or> w = ''..'') \<and> (pre = [] \<or> last pre = CHR ''/'')"
      unfolding al by (metis append.assoc)
  next
    assume "\<exists>pre w n. path = pre @ w @ replicate n CHR ''/'' \<and>
      (w = ''.'' \<or> w = ''..'') \<and> (pre = [] \<or> last pre = CHR ''/'')"
    then obtain pre w n where p: "path = (pre @ w) @ replicate n CHR ''/''"
      "w = ''.'' \<or> w = ''..''" "pre = [] \<or> last pre = CHR ''/''" by auto
    then have "strip_slashes path = pre @ w"
      unfolding p(1) by (intro strip_slashes_append) auto
    moreover have "CHR ''/'' \<notin> set w" using p(2) by auto
    ultimately show "is_dot_or_dot_dot_operand path"
      unfolding al using p(2,3) by (simp add: after_last_unique)
  qed
qed

text \<open>The last name in a path, slashes after it left aside, and the operands rm may remove.\<close>

definition last_component :: "string \<Rightarrow> string" where
  "last_component path =
     rev (takeWhile (\<lambda>c. c \<noteq> CHR ''/'') (dropWhile (\<lambda>c. c = CHR ''/'') (rev path)))"

definition is_dot_name :: "string \<Rightarrow> bool" where
  "is_dot_name name \<longleftrightarrow> name = ''.'' \<or> name = ''..''"

definition may_remove :: "string \<Rightarrow> bool" where
  "may_remove path \<longleftrightarrow> \<not> is_dot_name (last_component path) \<and> path \<noteq> ''/''"

lemma dot_operand_last: "is_dot_or_dot_dot_operand path \<longleftrightarrow> is_dot_name (last_component path)"
proof
  assume "is_dot_or_dot_dot_operand path"
  then obtain pre w n where p: "path = pre @ w @ replicate n CHR ''/''" and w: "w = ''.'' \<or> w = ''..''"
    and pre: "pre = [] \<or> last pre = CHR ''/''" unfolding dot_operand_iff by blast
  have "dropWhile (\<lambda>c. c = CHR ''/'') (replicate n CHR ''/'' @ xs) = dropWhile (\<lambda>c. c = CHR ''/'') xs" for xs
    by (rule dropWhile_append2) simp
  moreover have "takeWhile (\<lambda>c. c \<noteq> CHR ''/'') (rev pre) = []"
    using pre by (cases pre rule: rev_cases) auto
  ultimately have "last_component path = w"
    using w by (auto simp: last_component_def p)
  with w show "is_dot_name (last_component path)" by (simp add: is_dot_name_def)
next
  let ?tail = "dropWhile (\<lambda>c. c = CHR ''/'') (rev path)"
  assume "is_dot_name (last_component path)"
  then have w: "last_component path = ''.'' \<or> last_component path = ''..''" by (simp add: is_dot_name_def)
  have "rev path = takeWhile (\<lambda>c. c = CHR ''/'') (rev path) @
      takeWhile (\<lambda>c. c \<noteq> CHR ''/'') ?tail @ dropWhile (\<lambda>c. c \<noteq> CHR ''/'') ?tail" by simp
  then have p: "path = rev (dropWhile (\<lambda>c. c \<noteq> CHR ''/'') ?tail) @ last_component path @
      rev (takeWhile (\<lambda>c. c = CHR ''/'') (rev path))"
    unfolding last_component_def by (metis append.assoc rev_append rev_rev_ident)
  have "takeWhile (\<lambda>c. c = CHR ''/'') xs = replicate (length (takeWhile (\<lambda>c. c = CHR ''/'') xs)) CHR ''/''" for xs
    by (induction xs) auto
  then have "rev (takeWhile (\<lambda>c. c = CHR ''/'') (rev path)) =
      replicate (length (takeWhile (\<lambda>c. c = CHR ''/'') (rev path))) CHR ''/''" by (metis rev_replicate)
  moreover have "rev xs = [] \<or> last (rev xs) = CHR ''/''" if "xs = [] \<or> hd xs = CHR ''/''" for xs :: string
    using that by (auto simp: last_rev)
  from this [of "dropWhile (\<lambda>c. c \<noteq> CHR ''/'') ?tail"] hd_dropWhile [of "\<lambda>c. c \<noteq> CHR ''/''" ?tail]
  have "rev (dropWhile (\<lambda>c. c \<noteq> CHR ''/'') ?tail) = [] \<or> last (rev (dropWhile (\<lambda>c. c \<noteq> CHR ''/'') ?tail)) = CHR ''/''"
    by blast
  ultimately show "is_dot_or_dot_dot_operand path" unfolding dot_operand_iff using p w by metis
qed

text \<open>What is printed about the operands left out.\<close>

definition dropped_report :: "string \<Rightarrow> string list \<Rightarrow> string list" where
  "dropped_report name operands =
     (if \<exists>p\<in>set operands. is_dot_name (last_component p)
      then [name @ '': '' @ quoted ''.'' @ '' and '' @ quoted ''..'' @ '' may not be removed'' @ [CHR 0x0A]] else []) @
     (if ''/'' \<in> set operands then [name @ '': '' @ quoted ''/'' @ '' may not be removed'' @ [CHR 0x0A]] else [])"

lemma drop_unremovable_spec:
  "drop_unremovable_operands progname c =
     (c\<lparr>cli_operands := filter may_remove (cli_operands c),
        has_dropped_operands := has_dropped_operands c \<or> (\<exists>p\<in>set (cli_operands c). \<not> may_remove p)\<rparr>,
      snd (drop_unremovable_operands progname c))" (is ?drop)
  "map concat (snd (drop_unremovable_operands progname c)) =
     dropped_report (command_name progname (cli_argv c)) (cli_operands c)" (is ?texts)
proof -
  have "filter (\<lambda>p. \<not> (is_dot_or_dot_dot_operand p \<or> p = ''/'')) ps = filter may_remove ps" for ps
    by (rule filter_cong) (simp_all add: dot_operand_last may_remove_def)
  moreover have "list_ex is_dot_or_dot_dot_operand ps \<or> list_ex (\<lambda>p. p = ''/'') ps \<longleftrightarrow> (\<exists>p\<in>set ps. \<not> may_remove p)" for ps
    by (auto simp: list_ex_iff dot_operand_last may_remove_def)
  ultimately show ?drop by (simp add: drop_unremovable_operands_def Let_def)
  have "concat (println_pieces (''{}: '' @ quoted ''.'' @ '' and '' @ quoted ''..'' @ '' may not be removed'') [ArgStr name]) =
      name @ '': '' @ quoted ''.'' @ '' and '' @ quoted ''..'' @ '' may not be removed'' @ [CHR 0x0A]" for name
    by (subst println_text) (simp_all add: format_string_ok_def quoted_def)
  moreover have "concat (println_pieces (''{}: '' @ quoted ''/'' @ '' may not be removed'') [ArgStr name]) =
      name @ '': '' @ quoted ''/'' @ '' may not be removed'' @ [CHR 0x0A]" for name
    by (subst println_text) (simp_all add: format_string_ok_def quoted_def)
  ultimately show ?texts
    by (auto simp: drop_unremovable_operands_def Let_def list_ex_iff dot_operand_last dropped_report_def
        simp del: append_assoc)
qed

lemma check_unsupported_facts:
  "check_unsupported span c = (Inr c', msgs) \<Longrightarrow>
     c' = c \<and> msgs = [] \<and> \<not> opt_interactive (cli_options c) \<and>
     (opt_undelete (cli_options c) \<longrightarrow> opt_recursive (cli_options c)) \<and>
     (opt_one_file_system (cli_options c) \<longrightarrow> \<not> opt_recursive (cli_options c))"
  "check_unsupported span c = (Inl code, msgs) \<Longrightarrow> code = k_exit_unsupported \<and> length msgs = 1"
  by (auto simp: check_unsupported_def refuse_def split: if_splits)

subsection \<open>Command lines that are refused\<close>

text \<open>Run as \<open>unlink\<close>: the name in front of the last slash of the path does not matter.\<close>

definition invoked_as_unlink :: "string list \<Rightarrow> bool" where
  "invoked_as_unlink span \<longleftrightarrow>
     span \<noteq> [] \<and> (span ! 0 = ''unlink'' \<or> (\<exists>dir. span ! 0 = dir @ ''/unlink''))"

lemma is_unlink_mode_iff: "is_unlink_mode span \<longleftrightarrow> invoked_as_unlink span"
proof -
  have al: "is_unlink_mode span \<longleftrightarrow> after_last CHR ''/'' (invocation_path span) = ''unlink''"
    by (simp add: is_unlink_mode_def after_last_def Let_def split: option.split)
  show ?thesis
  proof (cases "span = []")
    case True
    have "after_last CHR ''/'' ([] @ ''rm'') = ''rm''" by (rule after_last_unique) simp_all
    then show ?thesis unfolding al using True by (simp add: invoked_as_unlink_def invocation_path_def)
  next
    case False
    have "after_last CHR ''/'' path = ''unlink'' \<longleftrightarrow> path = ''unlink'' \<or> (\<exists>dir. path = dir @ ''/unlink'')" for path
    proof
      assume u: "after_last CHR ''/'' path = ''unlink''"
      obtain pre where "path = pre @ ''unlink''" "pre = [] \<or> last pre = CHR ''/''"
        using after_last_decomp [of path "CHR ''/''"] unfolding u by blast
      then show "path = ''unlink'' \<or> (\<exists>dir. path = dir @ ''/unlink'')"
        by (cases pre rule: rev_cases) auto
    next
      assume "path = ''unlink'' \<or> (\<exists>dir. path = dir @ ''/unlink'')"
      then obtain pre where "path = pre @ ''unlink''" "pre = [] \<or> last pre = CHR ''/''"
      proof (elim disjE exE)
        fix dir
        assume "path = dir @ ''/unlink''"
        then show thesis by (intro that [of "dir @ ''/''"]) simp_all
      qed (use that [of "[]"] in simp)
      then show "after_last CHR ''/'' path = ''unlink''" by (simp add: after_last_unique)
    qed
    with False show ?thesis unfolding al by (simp add: invoked_as_unlink_def invocation_path_def)
  qed
qed

definition usage_problem :: "string list \<Rightarrow> usage_error option" where
  "usage_problem span =
     (if invoked_as_unlink span then
        (case args_span span of
           [operand] \<Rightarrow> None
         | [dashes, operand] \<Rightarrow> if dashes = ''--'' then None else Some (UsageError None)
         | _ \<Rightarrow> Some (UsageError None))
      else (case getopt_spec (args_span span) of Inl e \<Rightarrow> Some e | Inr _ \<Rightarrow> None))"

definition unsupported_letter :: "options \<Rightarrow> char option" where
  "unsupported_letter opts =
     (if opt_interactive opts then Some (CHR ''i'')
      else if opt_undelete opts \<and> \<not> opt_recursive opts then Some (CHR ''W'')
      else if opt_one_file_system opts \<and> opt_recursive opts then Some (CHR ''x'')
      else None)"

definition usage_text :: "string list \<Rightarrow> usage_error \<Rightarrow> string" where
  "usage_text span e =
     (case e of
        UsageError (Some letter) \<Rightarrow> invocation_path span @ '': illegal option -- '' @ [letter] @ [CHR 0x0A]
      | UsageError None \<Rightarrow> []) @ k_usage_msg @ [CHR 0x0A]"

definition unsupported_text :: "string list \<Rightarrow> char \<Rightarrow> string" where
  "unsupported_text span letter =
     invocation_path span @ '': -'' @ [letter] @ '': not supported yet; nothing was removed'' @ [CHR 0x0A]"

text \<open>The exit code and the texts of a refusal; \<open>name\<close> is the name of the command.\<close>

definition refusal :: "string \<Rightarrow> string list \<Rightarrow> (int \<times> string list) option" where
  "refusal name span =
     (case usage_problem span of
        Some e \<Rightarrow> Some (64, [usage_text span e])
      | None \<Rightarrow>
          if invoked_as_unlink span then None
          else (case getopt_spec (args_span span) of
                  Inl e \<Rightarrow> None
                | Inr (opts, operands) \<Rightarrow>
                    if filter may_remove operands = [] then None
                    else map_option (\<lambda>letter. (1, dropped_report name operands @ [unsupported_text span letter]))
                      (unsupported_letter opts)))"

lemma report_usage_text: "concat (report_usage span e) = usage_text span e"
proof (cases e)
  case (UsageError letter)
  then show ?thesis
    by (cases letter) (simp_all add: report_usage_def usage_text_def println_text format_string_ok_def)
qed

lemma refuse_text: "refuse span letter = (Inl 1, [snd (refuse span letter) ! 0])"
  "concat (snd (refuse span letter) ! 0) = unsupported_text span letter"
  by (simp_all add: refuse_def k_exit_unsupported_def println_text format_string_ok_def unsupported_text_def)

lemma check_unsupported_letter:
  "check_unsupported span c =
     (case unsupported_letter (cli_options c) of None \<Rightarrow> (Inr c, []) | Some letter \<Rightarrow> refuse span letter)"
  by (simp add: check_unsupported_def unsupported_letter_def)

lemma unlink_operand_cases:
  assumes "invoked_as_unlink span"
  shows "parse_unlink_operand span = (case usage_problem span of None \<Rightarrow> Inr (last (args_span span)) | Some e \<Rightarrow> Inl e)"
  using assms
  by (auto simp: parse_unlink_operand_def usage_problem_def Let_def split: list.split)

text \<open>The command line of \<open>rm\<close>, once its options and operands are known.\<close>

lemma try_parse_rm_mode:
  assumes "\<not> invoked_as_unlink span"
  shows "getopt_spec (args_span span) = Inl e \<Longrightarrow>
      try_parse_or_abort progname span = (Inl 64, [report_usage span e])"
    and "getopt_spec (args_span span) = Inr (opts, operands) \<Longrightarrow>
      \<exists>msgs. map concat msgs = dropped_report (command_name progname span) operands \<and>
        try_parse_or_abort progname span =
          (let c = \<lparr>cli_options = opts, cli_operands = filter may_remove operands, cli_argv = span,
                 has_dropped_operands = (\<exists>p\<in>set operands. \<not> may_remove p)\<rparr>
           in if filter may_remove operands = [] then (Inr (RmCommand c), msgs)
              else (case unsupported_letter opts of
                      None \<Rightarrow> (Inr (RmCommand c), msgs)
                    | Some letter \<Rightarrow> (Inl 1, msgs @ [snd (refuse span letter) ! 0])))"
proof -
  have mode: "\<not> is_unlink_mode span" using assms by (simp add: is_unlink_mode_iff)
  show "getopt_spec (args_span span) = Inl e \<Longrightarrow> try_parse_or_abort progname span = (Inl 64, [report_usage span e])"
    using mode by (simp add: try_parse_or_abort_def parse_eq_getopt k_exit_usage_def)
  assume g: "getopt_spec (args_span span) = Inr (opts, operands)"
  let ?c0 = "\<lparr>cli_options = opts, cli_operands = operands, cli_argv = span, has_dropped_operands = False\<rparr>"
  obtain c1 msgs where d: "drop_unremovable_operands progname ?c0 = (c1, msgs)" by fastforce
  have parsed: "parse span = Inr ?c0" using g by (simp add: parse_eq_getopt)
  from drop_unremovable_spec(1) [of progname ?c0]
  have drop: "drop_unremovable_operands progname ?c0 =
      (\<lparr>cli_options = opts, cli_operands = filter may_remove operands, cli_argv = span,
         has_dropped_operands = (\<exists>p\<in>set operands. \<not> may_remove p)\<rparr>, msgs)"
    unfolding d by simp
  show "\<exists>msgs. map concat msgs = dropped_report (command_name progname span) operands \<and>
      try_parse_or_abort progname span =
        (let c = \<lparr>cli_options = opts, cli_operands = filter may_remove operands, cli_argv = span,
               has_dropped_operands = (\<exists>p\<in>set operands. \<not> may_remove p)\<rparr>
         in if filter may_remove operands = [] then (Inr (RmCommand c), msgs)
            else (case unsupported_letter opts of
                    None \<Rightarrow> (Inr (RmCommand c), msgs)
                  | Some letter \<Rightarrow> (Inl 1, msgs @ [snd (refuse span letter) ! 0])))"
  proof (intro exI [of _ msgs] conjI)
    show "map concat msgs = dropped_report (command_name progname span) operands"
      using drop_unremovable_spec(2) [of progname ?c0] unfolding d by simp
    have "check_unsupported span c =
        (case unsupported_letter (cli_options c) of
           None \<Rightarrow> (Inr c, [])
         | Some letter \<Rightarrow> (Inl 1, [snd (refuse span letter) ! 0]))" for c
      by (simp add: check_unsupported_letter refuse_text(1) [symmetric] split: option.split)
    then show "try_parse_or_abort progname span =
        (let c = \<lparr>cli_options = opts, cli_operands = filter may_remove operands, cli_argv = span,
               has_dropped_operands = (\<exists>p\<in>set operands. \<not> may_remove p)\<rparr>
         in if filter may_remove operands = [] then (Inr (RmCommand c), msgs)
            else (case unsupported_letter opts of
                    None \<Rightarrow> (Inr (RmCommand c), msgs)
                  | Some letter \<Rightarrow> (Inl 1, msgs @ [snd (refuse span letter) ! 0])))"
      using mode drop by (simp add: try_parse_or_abort_def parsed Let_def split: option.split)
  qed
qed

lemma accepted_command:
  assumes "try_parse_or_abort progname span = (Inr (RmCommand c), msgs)"
  shows "\<exists>opts operands. getopt_spec (args_span span) = Inr (opts, operands) \<and>
    c = \<lparr>cli_options = opts, cli_operands = filter may_remove operands, cli_argv = span,
         has_dropped_operands = (\<exists>p\<in>set operands. \<not> may_remove p)\<rparr> \<and>
    map concat msgs = dropped_report (command_name progname span) operands \<and>
    (filter may_remove operands = [] \<or> unsupported_letter opts = None)"
proof -
  from assms have mode: "\<not> invoked_as_unlink span"
    by (auto simp: try_parse_or_abort_def is_unlink_mode_iff split: if_splits sum.splits)
  show ?thesis
  proof (cases "getopt_spec (args_span span)")
    case (Inl e)
    with try_parse_rm_mode(1) [OF mode this, of progname] assms show ?thesis by simp
  next
    case (Inr r)
    obtain opts operands where r: "r = (opts, operands)" by fastforce
    from try_parse_rm_mode(2) [OF mode Inr [unfolded r], of progname] assms
    show ?thesis unfolding Inr r by (auto simp: Let_def split: if_splits option.splits)
  qed
qed

lemma operands_le_argv:
  "try_parse_or_abort progname span = (Inr (RmCommand c), msgs) \<Longrightarrow> length (cli_operands c) \<le> length span"
proof -
  assume "try_parse_or_abort progname span = (Inr (RmCommand c), msgs)"
  from accepted_command [OF this] obtain opts operands where
    g: "getopt_spec (args_span span) = Inr (opts, operands)" and c: "cli_operands c = filter may_remove operands" by auto
  from g have "operands = operand_args (args_span span)"
    by (auto simp: getopt_spec_def Let_def split: option.splits if_splits)
  then have "length operands \<le> length span"
    using length_operand_args [of "args_span span"] by (simp add: args_span_def split: if_splits)
  then show "length (cli_operands c) \<le> length span" unfolding c by (rule le_trans [OF length_filter_le])
qed

lemma parse_no_dropped: "parse span = Inr c \<Longrightarrow> \<not> has_dropped_operands c"
  by (auto simp: parse_eq_getopt split: sum.splits)

lemma try_parse_error:
  assumes "try_parse_or_abort progname span = (Inl code, msgs)"
  shows "code = 64 \<or> code = 1" and "msgs \<noteq> []"
  using assms
  by (auto simp: try_parse_or_abort_def k_exit_usage_def k_exit_unsupported_def
      check_unsupported_def refuse_def split: if_splits sum.splits prod.splits)

subsection \<open>Properties\<close>

text \<open>
  C31: the index-based parser is the reference scanner: the options are the letters of the
  arguments before the first operand, in order, a single \<open>--\<close> ends them and is dropped, the
  first letter rm does not know is the error reported, and without operands only \<open>-f\<close> is
  not a usage error.
\<close>

theorem parse_is_getopt:
  "parse span =
     (case getopt_spec (args_span span) of
        Inl e \<Rightarrow> Inl e
      | Inr (opts, operands) \<Rightarrow>
          Inr \<lparr>cli_options = opts, cli_operands = operands, cli_argv = span,
               has_dropped_operands = False\<rparr>)"
  by (rule parse_eq_getopt)

text \<open>
  Of \<open>-f\<close> and \<open>-i\<close> the last one given wins, they are never both in force, and every
  other flag is on exactly when its letter was given.
\<close>

theorem parsed_options:
  assumes "parse span = Inr c"
  shows "let ls = option_letters (args_span span); opts = cli_options c
    in (opt_force opts \<longleftrightarrow> fi_letters ls \<noteq> [] \<and> last (fi_letters ls) = CHR ''f'') \<and>
       (opt_interactive opts \<longleftrightarrow> fi_letters ls \<noteq> [] \<and> last (fi_letters ls) = CHR ''i'') \<and>
       (opt_recursive opts \<longleftrightarrow> CHR ''r'' \<in> set ls \<or> CHR ''R'' \<in> set ls) \<and>
       (opt_dir opts \<longleftrightarrow> CHR ''d'' \<in> set ls) \<and> (opt_verbose opts \<longleftrightarrow> CHR ''v'' \<in> set ls) \<and>
       (opt_prompt_once opts \<longleftrightarrow> CHR ''I'' \<in> set ls) \<and> (opt_overwrite opts \<longleftrightarrow> CHR ''P'' \<in> set ls) \<and>
       (opt_undelete opts \<longleftrightarrow> CHR ''W'' \<in> set ls) \<and> (opt_one_file_system opts \<longleftrightarrow> CHR ''x'' \<in> set ls)"
proof -
  from assms have "cli_options c = letters_options (option_letters (args_span span))"
    by (auto simp: parse_eq_getopt getopt_spec_def Let_def
        split: sum.splits option.splits if_splits)
  then show ?thesis by (simp add: Let_def letters_options_def)
qed

theorem parsed_options_witness:
  "let ls = option_letters (args_span [''rm'', ''-irf'', ''d'']);
       opts = letters_options ''irf''
    in (opt_force opts \<longleftrightarrow> fi_letters ls \<noteq> [] \<and> last (fi_letters ls) = CHR ''f'') \<and> opt_force opts"
proof -
  have p: "parse [''rm'', ''-irf'', ''d''] = Inr \<lparr>cli_options = letters_options ''irf'',
      cli_operands = [''d''], cli_argv = [''rm'', ''-irf'', ''d''], has_dropped_operands = False\<rparr>"
    by (simp add: parse_eq_getopt getopt_spec_def args_span_def option_letters_def operand_args_def
        is_option_arg_def rm_letters_def Let_def)
  have "opt_force (letters_options ''irf'')"
    by (simp add: letters_options_def fi_letters_def)
  with parsed_options [OF p] show ?thesis by (simp add: Let_def)
qed

text \<open>
  An operand counts as \<open>.\<close> or \<open>..\<close> exactly when its last component is one of them,
  whatever number of slashes follows it.
\<close>

theorem dot_operand_correct:
  "is_dot_or_dot_dot_operand path \<longleftrightarrow>
     (\<exists>pre w n. path = pre @ w @ replicate n CHR ''/'' \<and> (w = ''.'' \<or> w = ''..'') \<and>
        (pre = [] \<or> last pre = CHR ''/''))"
  by (rule dot_operand_iff)

text \<open>
  C32: a command line that is accepted for removal keeps, in order, exactly the operands other
  than \<open>/\<close> whose last component, slashes after it left aside, is neither \<open>.\<close> nor \<open>..\<close>; the
  options are those given, whether an operand was dropped is remembered and said on standard
  error, and, unless nothing is left to remove, no option is set that is not supported.
\<close>

theorem accepted_operands:
  assumes "try_parse_or_abort progname span = (Inr (RmCommand c), msgs)"
  shows "\<exists>opts operands. getopt_spec (args_span span) = Inr (opts, operands) \<and>
    c = \<lparr>cli_options = opts, cli_operands = filter may_remove operands, cli_argv = span,
         has_dropped_operands = (\<exists>p\<in>set operands. \<not> may_remove p)\<rparr> \<and>
    map concat msgs = dropped_report (command_name progname span) operands \<and>
    (filter may_remove operands = [] \<or> unsupported_letter opts = None)"
  using assms by (rule accepted_command)

theorem accepted_operands_witness:
  "\<exists>c msgs. try_parse_or_abort ''rm'' [''rm'', ''-r'', ''a'', ''b/..//'', ''.c'', ''/'', ''..''] = (Inr (RmCommand c), msgs) \<and>
     cli_operands c = [''a'', ''.c''] \<and> has_dropped_operands c \<and> length msgs = 2"
proof -
  let ?argv = "[''rm'', ''-r'', ''a'', ''b/..//'', ''.c'', ''/'', ''..'']"
  have "case try_parse_or_abort ''rm'' ?argv of (Inr (RmCommand c), msgs) \<Rightarrow> True | _ \<Rightarrow> False"
    by code_simp
  then obtain c msgs where run: "try_parse_or_abort ''rm'' ?argv = (Inr (RmCommand c), msgs)"
    by (auto split: prod.splits sum.splits command.splits)
  have "getopt_spec (args_span ?argv) = Inr (letters_options ''r'', [''a'', ''b/..//'', ''.c'', ''/'', ''..''])"
    by (simp add: getopt_spec_def args_span_def option_letters_def operand_args_def is_option_arg_def
        rm_letters_def Let_def)
  with accepted_operands [OF run]
  have c: "cli_operands c = filter may_remove [''a'', ''b/..//'', ''.c'', ''/'', ''..'']"
    "has_dropped_operands c \<longleftrightarrow> (\<exists>p\<in>set [''a'', ''b/..//'', ''.c'', ''/'', ''..'']. \<not> may_remove p)"
    "map concat msgs = dropped_report (command_name ''rm'' ?argv) [''a'', ''b/..//'', ''.c'', ''/'', ''..'']"
    by auto
  from c(3) have "length msgs = 2"
    by (auto simp: dropped_report_def last_component_def is_dot_name_def dest: arg_cong [where f = length])
  with run c(1,2) show ?thesis by (simp add: may_remove_def last_component_def is_dot_name_def)
qed

text \<open>
  C33: which command lines are refused, with which exit code and which text. A usage error
  (an unknown option, no operand without \<open>-f\<close>, or, run as \<open>unlink\<close>, anything but one operand)
  ends the program with 64 and the usage, after the unknown letter if there is one. Otherwise
  \<open>-i\<close>, \<open>-W\<close> without \<open>-r\<close> or \<open>-x\<close> with \<open>-r\<close> ends it with 1 and a line that names the option, unless
  no operand is left to remove. Every other command line is accepted.
\<close>

theorem refused_command_line:
  "case try_parse_or_abort progname span of
     (Inl code, msgs) \<Rightarrow> refusal (command_name progname span) span = Some (code, map concat msgs)
   | (Inr command, msgs) \<Rightarrow> refusal (command_name progname span) span = None"
proof (cases "invoked_as_unlink span")
  case True
  then show ?thesis
    by (simp add: try_parse_or_abort_def is_unlink_mode_iff refusal_def unlink_operand_cases
        k_exit_usage_def report_usage_text split: option.split)
next
  case False
  show ?thesis
  proof (cases "getopt_spec (args_span span)")
    case (Inl e)
    with False try_parse_rm_mode(1) [OF False Inl, of progname] show ?thesis
      by (simp add: refusal_def usage_problem_def report_usage_text)
  next
    case (Inr r)
    obtain opts operands where r: "r = (opts, operands)" by fastforce
    from try_parse_rm_mode(2) [OF False Inr [unfolded r], of progname] obtain msgs where
      texts: "map concat msgs = dropped_report (command_name progname span) operands" and
      run: "try_parse_or_abort progname span =
        (let c = \<lparr>cli_options = opts, cli_operands = filter may_remove operands, cli_argv = span,
               has_dropped_operands = (\<exists>p\<in>set operands. \<not> may_remove p)\<rparr>
         in if filter may_remove operands = [] then (Inr (RmCommand c), msgs)
            else (case unsupported_letter opts of
                    None \<Rightarrow> (Inr (RmCommand c), msgs)
                  | Some letter \<Rightarrow> (Inl 1, msgs @ [snd (refuse span letter) ! 0])))" by blast
    have refused: "refusal (command_name progname span) span =
        (if filter may_remove operands = [] then None
         else map_option (\<lambda>letter. (1, dropped_report (command_name progname span) operands @ [unsupported_text span letter]))
           (unsupported_letter opts))"
      using False Inr r by (simp add: refusal_def usage_problem_def)
    show ?thesis
      unfolding run refused Let_def
      by (cases "filter may_remove operands = []"; cases "unsupported_letter opts")
        (simp_all add: texts refuse_text(2))
  qed
qed

text \<open>A refusal with an operand dropped before it.\<close>

lemma refused_example:
  "refusal ''rm'' [''rm'', ''-i'', ''a'', ''..''] =
     Some (1, [''rm: '' @ quoted ''.'' @ '' and '' @ quoted ''..'' @ '' may not be removed'' @ [CHR 0x0A],
       ''rm: -i: not supported yet; nothing was removed'' @ [CHR 0x0A]])"
proof -
  have "\<not> invoked_as_unlink [''rm'', ''-i'', ''a'', ''..'']"
    unfolding is_unlink_mode_iff [symmetric] by code_simp
  moreover have "getopt_spec (args_span [''rm'', ''-i'', ''a'', ''..'']) = Inr (letters_options ''i'', [''a'', ''..''])"
    by (simp add: getopt_spec_def args_span_def option_letters_def operand_args_def is_option_arg_def
        rm_letters_def Let_def)
  ultimately show ?thesis
    by (simp add: refusal_def usage_problem_def may_remove_def last_component_def is_dot_name_def
        unsupported_letter_def letters_options_def fi_letters_def dropped_report_def unsupported_text_def
        invocation_path_def)
qed

text \<open>
  In the unlink mode exactly one operand is accepted, which a single leading \<open>--\<close> may
  precede; options are not parsed, so \<open>-f\<close> and \<open>--\<close> alone are file names.
\<close>

theorem unlink_operand_correct:
  "parse_unlink_operand span = Inr operand \<longleftrightarrow>
     args_span span = [operand] \<or> args_span span = [''--'', operand]"
  by (cases "args_span span" rule: list.exhaust; cases "tl (args_span span)")
    (auto simp: parse_unlink_operand_def Let_def length_Suc_conv numeral_2_eq_2)

subsection \<open>The comment on DropUnremovableOperands\<close>

text \<open>
  The header says that arguments ending with \<open>.\<close>, \<open>..\<close> or \<open>/\<close> are filtered out. The code
  filters by the last component and by equality with \<open>/\<close>: \<open>a.\<close>, \<open>d/\<close> and even \<open>//\<close> are kept.
\<close>

lemma drop_keeps_trailing_slash:
  "list_all (\<lambda>p. p \<in> set (cli_operands (fst (drop_unremovable_operands ''rm''
     \<lparr>cli_options = default_options, cli_operands = [p], cli_argv = [''rm'', p],
      has_dropped_operands = False\<rparr>)))) [''a.'', ''d/'', ''//'']"
  by code_simp

end
