(* ===== verification/Warn.thy ===== *)
theory Warn
  imports Print
begin

section \<open>Warnings\<close>

text \<open>
  \<open>cutils/io/warn.hpp\<close>: the messages of \<open>warn(3)\<close> and \<open>warnx(3)\<close>, whose body is escaped
  as Apple's \<open>err(3)\<close> does. An iterator of \<open>WarnPieces\<close> is a part number, the pieces of
  that part it has not passed (the first of them from the iterator's offset on) and the
  three parts: the suffix views \<open>Rest()\<close> computes from \<open>index_\<close> and \<open>offset_\<close>.
\<close>

subsection \<open>Escapes\<close>

definition backslash :: "string \<Rightarrow> string" where
  "backslash s = CHR 0x5C # s"

definition warn_escapes :: "string list" where
  "warn_escapes =
    ['''', backslash ''001'', backslash ''002'', backslash ''003'', backslash ''004'',
     backslash ''005'', backslash ''006'', backslash ''a'',
     backslash ''b'', '''', '''', backslash ''v'', backslash ''f'', backslash ''r'',
     backslash ''016'', backslash ''017'',
     backslash ''020'', backslash ''021'', backslash ''022'', backslash ''023'',
     backslash ''024'', backslash ''025'', backslash ''026'', backslash ''027'',
     backslash ''030'', backslash ''031'', backslash ''032'', backslash ''033'',
     backslash ''034'', backslash ''035'', backslash ''036'', backslash ''037'']"

definition warn_escape :: "char \<Rightarrow> string" where
  "warn_escape byte =
     (let value = (of_char byte :: nat)
      in if value < length warn_escapes then warn_escapes ! value else [])"

subsection \<open>The piece iterator\<close>

record warn_iter =
  part :: nat
  views :: "string list"

definition part_of :: "string list list \<Rightarrow> nat \<Rightarrow> string list" where
  "part_of parts p = (if p < length parts then parts ! p else [])"

text \<open>\<open>kBody\<close> is 1 and \<open>kEnd\<close> is 3.\<close>

function settle :: "string list list \<Rightarrow> warn_iter \<Rightarrow> warn_iter" where
  "settle parts it =
     (if part it < 3 then
        (case views it of
           [] \<Rightarrow> settle parts \<lparr>part = Suc (part it), views = part_of parts (Suc (part it))\<rparr>
         | v # vs \<Rightarrow> if v = [] then settle parts (it\<lparr>views := vs\<rparr>) else it)
      else it)"
  by pat_completeness auto
termination
  by (relation "measures [\<lambda>(_, it). 3 - part it, \<lambda>(_, it). length (views it)]") auto

declare settle.simps [simp del]

definition raw_run :: "string \<Rightarrow> nat" where
  "raw_run rest = length (takeWhile (\<lambda>byte. warn_escape byte = []) rest)"

definition deref :: "warn_iter \<Rightarrow> string" where
  "deref it =
     (let rest = hd (views it)
      in if part it \<noteq> 1 then rest
         else if warn_escape (hd rest) \<noteq> [] then warn_escape (hd rest)
         else take (raw_run rest) rest)"

text \<open>
  An iterator with no view left is past its part, where the code would read out of range;
  no settled iterator is, and the model then only settles.
\<close>

definition advance :: "string list list \<Rightarrow> warn_iter \<Rightarrow> warn_iter" where
  "advance parts it =
     (case views it of
        [] \<Rightarrow> settle parts it
      | rest # vs \<Rightarrow>
          (let n = (if part it \<noteq> 1 then length rest
                    else if warn_escape (hd rest) \<noteq> [] then 1
                    else raw_run rest)
           in settle parts (it\<lparr>views := drop n rest # vs\<rparr>)))"

definition warn_begin :: "string list list \<Rightarrow> warn_iter" where
  "warn_begin parts = settle parts \<lparr>part = 0, views = part_of parts 0\<rparr>"

text \<open>The bytes and views an iterator still has to go through in its part.\<close>

definition left_in_part :: "warn_iter \<Rightarrow> nat" where
  "left_in_part it = length (concat (views it)) + length (views it)"

lemma settle_cases:
  "part it < 3 \<Longrightarrow> views it = [] \<Longrightarrow>
     settle parts it = settle parts \<lparr>part = Suc (part it), views = part_of parts (Suc (part it))\<rparr>"
  "part it < 3 \<Longrightarrow> views it = [] # vs \<Longrightarrow> settle parts it = settle parts (it\<lparr>views := vs\<rparr>)"
  "part it < 3 \<Longrightarrow> views it = v # vs \<Longrightarrow> v \<noteq> [] \<Longrightarrow> settle parts it = it"
  "3 \<le> part it \<Longrightarrow> settle parts it = it"
  by (simp_all add: settle.simps [of parts it])

lemma settle_decreases:
  "(part it < part (settle parts it) \<and> part (settle parts it) \<le> 3) \<or>
   (part (settle parts it) = part it \<and> left_in_part (settle parts it) \<le> left_in_part it)"
proof (induction parts it rule: settle.induct)
  case (1 parts it)
  consider "3 \<le> part it" | "part it < 3" "views it = []"
    | vs where "part it < 3" "views it = [] # vs"
    | v vs where "part it < 3" "views it = v # vs" "v \<noteq> []"
    by (metis list.exhaust not_le)
  then show ?case
  proof cases
    case 2
    from "1.IH"(1) [OF 2] show ?thesis
      unfolding settle_cases(1) [OF 2] by (elim disjE conjE) (use 2(1) in simp_all)
  next
    case (3 vs)
    have "left_in_part (it\<lparr>views := vs\<rparr>) \<le> left_in_part it"
      using 3 by (simp add: left_in_part_def)
    with "1.IH"(2) [OF 3] show ?thesis
      unfolding settle_cases(2) [OF 3] by (auto intro: order_trans)
  qed (simp_all add: settle_cases)
qed

lemma raw_run_pos: "rest \<noteq> [] \<Longrightarrow> warn_escape (hd rest) = [] \<Longrightarrow> 0 < raw_run rest"
  by (cases rest) (simp_all add: raw_run_def)

lemma advance_decreases:
  assumes "part it < 3"
  shows "(part it < part (advance parts it) \<and> part (advance parts it) \<le> 3) \<or>
    (part (advance parts it) = part it \<and> left_in_part (advance parts it) < left_in_part it)"
proof (cases "views it")
  case Nil
  from assms Nil show ?thesis
    using settle_decreases [of "\<lparr>part = Suc (part it), views = part_of parts (Suc (part it))\<rparr>" parts]
    by (elim disjE conjE) (simp_all add: advance_def settle_cases)
next
  case (Cons rest vs)
  show ?thesis
  proof (cases "rest = []")
    case True
    with Cons assms show ?thesis
      using settle_decreases [of "it\<lparr>views := vs\<rparr>" parts]
      by (elim disjE conjE) (simp_all add: advance_def Let_def settle_cases left_in_part_def)
  next
    case False
    define n where "n = (if part it \<noteq> 1 then length rest
      else if warn_escape (hd rest) \<noteq> [] then 1 else raw_run rest)"
    from False have n: "0 < n" by (auto simp: n_def raw_run_pos)
    from Cons have "advance parts it = settle parts (it\<lparr>views := drop n rest # vs\<rparr>)"
      by (simp add: advance_def n_def)
    moreover have "left_in_part (it\<lparr>views := drop n rest # vs\<rparr>) < left_in_part it"
      using n False Cons by (simp add: left_in_part_def)
    ultimately show ?thesis
      using settle_decreases [of "it\<lparr>views := drop n rest # vs\<rparr>" parts]
      by (elim disjE conjE) simp_all
  qed
qed

function warn_collect :: "string list list \<Rightarrow> warn_iter \<Rightarrow> string list" where
  "warn_collect parts it =
     (if part it < 3 then deref it # warn_collect parts (advance parts it) else [])"
  by pat_completeness auto
termination
proof (relation "measures [\<lambda>(_, it). 3 - part it, \<lambda>(_, it). left_in_part it]")
  fix parts :: "string list list" and it :: warn_iter
  assume "part it < 3"
  with advance_decreases [of it parts]
  show "((parts, advance parts it), parts, it)
    \<in> measures [\<lambda>(_, it). 3 - part it, \<lambda>(_, it). left_in_part it]"
    by auto
qed simp

declare warn_collect.simps [simp del]

definition warn_pieces :: "string list \<Rightarrow> string list \<Rightarrow> string list \<Rightarrow> string list" where
  "warn_pieces head body tail =
     warn_collect [head, body, tail] (warn_begin [head, body, tail])"

subsection \<open>Messages\<close>

text \<open>\<open>strerror\<close> stands for \<open>os::StrError\<close>, the text of an error code.\<close>

definition warn :: "(errc \<Rightarrow> string) \<Rightarrow> string \<Rightarrow> errc \<Rightarrow> string \<Rightarrow> fmt_arg list \<Rightarrow> string list" where
  "warn strerror prog error fmt args =
     warn_pieces [prog, '': ''] (print_pieces fmt args) ['': '', strerror error, [CHR 0x0A]]"

definition warnx :: "string \<Rightarrow> string \<Rightarrow> fmt_arg list \<Rightarrow> string list" where
  "warnx prog fmt args = warn_pieces [prog, '': ''] (print_pieces fmt args) [[CHR 0x0A]]"

subsection \<open>The text of the pieces\<close>

definition warn_byte :: "char \<Rightarrow> string" where
  "warn_byte c = (if warn_escape c = [] then [c] else warn_escape c)"

definition escaped :: "string \<Rightarrow> string" where
  "escaped s = concat (map warn_byte s)"

definition render :: "nat \<Rightarrow> string \<Rightarrow> string" where
  "render p s = (if p = 1 then escaped s else s)"

text \<open>What an iterator has still to yield: the rest of its part, then the later parts.\<close>

definition flat :: "string list list \<Rightarrow> warn_iter \<Rightarrow> string" where
  "flat parts it =
     (if part it < 3 then render (part it) (concat (views it)) @
        concat (map (\<lambda>p. render p (concat (part_of parts p))) [Suc (part it)..<3])
      else [])"

definition settled :: "warn_iter \<Rightarrow> bool" where
  "settled it \<longleftrightarrow> 3 \<le> part it \<or> (views it \<noteq> [] \<and> hd (views it) \<noteq> [])"

lemma escaped_append [simp]: "escaped (s @ t) = escaped s @ escaped t"
  by (simp add: escaped_def)

lemma escaped_Nil [simp]: "escaped [] = []"
  by (simp add: escaped_def)

lemma escaped_raw: "\<forall>c \<in> set s. warn_escape c = [] \<Longrightarrow> escaped s = s"
  by (induction s) (simp_all add: escaped_def warn_byte_def)

lemma render_append [simp]: "render p (s @ t) = render p s @ render p t"
  by (simp add: render_def)

lemma flat_next_part:
  "part it < 3 \<Longrightarrow> views it = [] \<Longrightarrow>
     flat parts \<lparr>part = Suc (part it), views = part_of parts (Suc (part it))\<rparr> = flat parts it"
  by (auto simp: flat_def render_def upt_rec)

lemma settle_flat: "settled (settle parts it) \<and> flat parts (settle parts it) = flat parts it"
proof (induction parts it rule: settle.induct)
  case (1 parts it)
  show ?case
  proof (cases "part it < 3")
    case False
    then show ?thesis by (simp add: settle.simps [of parts it] settled_def)
  next
    case True
    show ?thesis
    proof (cases "views it")
      case Nil
      with "1.IH"(1) True flat_next_part [OF True Nil, of parts] show ?thesis
        by (simp add: settle_cases)
    next
      case (Cons v vs)
      with "1.IH"(2) [OF True Cons] True show ?thesis
        by (cases "v = []") (simp_all add: settle.simps [of parts it] settled_def flat_def)
    qed
  qed
qed

lemma hd_take_run: "escaped (take (raw_run s) s) = take (raw_run s) s"
  by (rule escaped_raw) (auto simp: raw_run_def takeWhile_eq_take [symmetric] dest: set_takeWhileD)

lemma escaped_hd: "s \<noteq> [] \<Longrightarrow> warn_escape (hd s) \<noteq> [] \<Longrightarrow> escaped s = warn_escape (hd s) @ escaped (tl s)"
  by (cases s) (simp_all add: escaped_def warn_byte_def)

lemma deref_advance:
  assumes "settled it" and "part it < 3"
  shows "flat parts it = deref it @ flat parts (advance parts it)" and "deref it \<noteq> []"
proof -
  from assms obtain rest vs where v: "views it = rest # vs" "rest \<noteq> []"
    by (cases "views it") (auto simp: settled_def)
  define n where "n = (if part it \<noteq> 1 then length rest
    else if warn_escape (hd rest) \<noteq> [] then 1 else raw_run rest)"
  have adv: "advance parts it = settle parts (it\<lparr>views := drop n rest # vs\<rparr>)"
    using v by (simp add: advance_def n_def)
  have "render (part it) rest = deref it @ render (part it) (drop n rest)"
  proof -
    consider "part it \<noteq> 1" | "part it = 1" "warn_escape (hd rest) \<noteq> []"
      | "part it = 1" "warn_escape (hd rest) = []" by blast
    then show ?thesis
    proof cases
      case 3
      have "escaped rest = escaped (take (raw_run rest) rest) @ escaped (drop (raw_run rest) rest)"
        by (metis append_take_drop_id escaped_append)
      with 3 v show ?thesis by (simp add: render_def deref_def n_def hd_take_run)
    qed (use v escaped_hd [of rest] in \<open>simp_all add: render_def deref_def n_def drop_Suc\<close>)
  qed
  with assms(2) v show "flat parts it = deref it @ flat parts (advance parts it)"
    unfolding adv by (simp add: settle_flat) (simp add: flat_def)
  show "deref it \<noteq> []"
    using v raw_run_pos [of rest] by (auto simp: deref_def Let_def)
qed

lemma warn_collect_flat:
  "settled it \<Longrightarrow> concat (warn_collect parts it) = flat parts it \<and> [] \<notin> set (warn_collect parts it)"
proof (induction parts it rule: warn_collect.induct)
  case (1 parts it)
  show ?case
  proof (cases "part it < 3")
    case True
    have "settled (advance parts it)"
      by (simp add: advance_def settle_flat Let_def split: list.split)
    with 1 True deref_advance [OF "1.prems" True] show ?thesis
      by (simp add: warn_collect.simps [of parts it])
  next
    case False
    then show ?thesis by (simp add: warn_collect.simps [of parts it] flat_def)
  qed
qed

lemma warn_pieces_text:
  "concat (warn_pieces head body tail) = concat head @ escaped (concat body) @ concat tail"
  and warn_pieces_nonempty: "[] \<notin> set (warn_pieces head body tail)"
proof -
  let ?parts = "[head, body, tail]"
  have "settled (warn_begin ?parts)"
    and "flat ?parts (warn_begin ?parts) = concat head @ escaped (concat body) @ concat tail"
    by (simp_all add: warn_begin_def settle_flat)
      (simp add: flat_def part_of_def render_def upt_rec)
  then show "concat (warn_pieces head body tail) = concat head @ escaped (concat body) @ concat tail"
    and "[] \<notin> set (warn_pieces head body tail)"
    using warn_collect_flat [of "warn_begin ?parts" ?parts] by (simp_all add: warn_pieces_def)
qed

lemma warn_text:
  assumes "format_string_ok fmt (length args)"
  shows "concat (warn strerror prog error fmt args) =
    prog @ '': '' @ escaped (fill fmt (map formatter_view args)) @ '': '' @ strerror error @ [CHR 0x0A]"
  using assms by (simp add: warn_def warn_pieces_text print_pieces_def format_pieces_fill)

lemma warnx_text:
  assumes "format_string_ok fmt (length args)"
  shows "concat (warnx prog fmt args) =
    prog @ '': '' @ escaped (fill fmt (map formatter_view args)) @ [CHR 0x0A]"
  using assms by (simp add: warnx_def warn_pieces_text print_pieces_def format_pieces_fill)

text \<open>Every byte of the table's escapes is printable.\<close>

lemma warn_escapes_printable:
  "list_all (list_all (\<lambda>c. (32::nat) \<le> of_char c)) warn_escapes"
  by (simp add: warn_escapes_def backslash_def)

lemma warn_escapes_empty:
  "list_all (\<lambda>v. warn_escapes ! v = [] \<longrightarrow> v = 0 \<or> v = 9 \<or> v = 10) [0..<32]"
  by (simp add: warn_escapes_def backslash_def upt_rec)

lemma length_warn_escapes [simp]: "length warn_escapes = 32"
  by (simp add: warn_escapes_def)

lemma warn_byte_printable:
  assumes "d \<in> set (warn_byte c)" and "(of_char d :: nat) < 32"
  shows "d = c \<and> (of_char c :: nat) \<in> {0, 9, 10}"
proof (cases "warn_escape c = []")
  case True
  with assms(1) have "d = c" by (simp add: warn_byte_def)
  with True assms(2) warn_escapes_empty show ?thesis
    by (auto simp: warn_escape_def list_all_iff Let_def split: if_splits)
next
  case False
  with assms(1) have "d \<in> set (warn_escape c)" by (simp add: warn_byte_def)
  then have "warn_escape c \<in> set warn_escapes" and "d \<in> set (warn_escape c)"
    by (auto simp: warn_escape_def Let_def split: if_splits)
  with warn_escapes_printable have "(32::nat) \<le> of_char d"
    by (auto simp: list_all_iff)
  with assms(2) show ?thesis by simp
qed

subsection \<open>Properties\<close>

text \<open>
  C38: a warning is the program's name, the formatted body with its control bytes escaped,
  the error's text and a newline, and none of its pieces is empty: the iterator over the
  pieces loses, repeats and reorders nothing.
\<close>

theorem warn_message:
  assumes "format_string_ok fmt (length args)"
  shows "concat (warn strerror prog error fmt args) =
      prog @ '': '' @ escaped (fill fmt (map formatter_view args)) @ '': '' @
      strerror error @ [CHR 0x0A] \<and>
    [] \<notin> set (warn strerror prog error fmt args)"
  using warn_text [OF assms] by (simp add: warn_def warn_pieces_nonempty)

theorem warn_message_witness:
  "concat (warn (\<lambda>_. ''gone'') ''rm'' ENOENT ''{}/{}'' [ArgStr ''d'', ArgStr [CHR 0x1B]]) =
      ''rm'' @ '': '' @ escaped (fill ''{}/{}'' (map formatter_view [ArgStr ''d'', ArgStr [CHR 0x1B]]))
      @ '': '' @ ''gone'' @ [CHR 0x0A] \<and>
    [] \<notin> set (warn (\<lambda>_. ''gone'') ''rm'' ENOENT ''{}/{}'' [ArgStr ''d'', ArgStr [CHR 0x1B]])"
  by (rule warn_message) (simp add: format_string_ok_def)

text \<open>
  Whatever bytes a file name holds, no control byte reaches the terminal through the
  body of a warning, NUL, tab and newline excepted.
\<close>

theorem escaped_no_control:
  "\<forall>c \<in> set (escaped s). (of_char c :: nat) < 32 \<longrightarrow> (of_char c :: nat) \<in> {0, 9, 10}"
  using warn_byte_printable by (fastforce simp: escaped_def)

theorem escaped_no_control_witness:
  "(of_char (hd (escaped [CHR 0x0A])) :: nat) < 32 \<and>
     (of_char (hd (escaped [CHR 0x0A])) :: nat) \<in> {0, 9, 10}"
proof -
  have e: "escaped [CHR 0x0A] = [CHR 0x0A]"
    by (simp add: escaped_def warn_byte_def warn_escape_def warn_escapes_def)
  have "CHR 0x0A \<in> set (escaped [CHR 0x0A])" by (simp add: e)
  moreover have "(of_char (CHR 0x0A) :: nat) < 32" by simp
  ultimately have "(of_char (CHR 0x0A) :: nat) \<in> {0, 9, 10}"
    using escaped_no_control by blast
  then show ?thesis by (simp add: e)
qed

end
