(* ===== verification/Walk.thy ===== *)
theory Walk
  imports Walk_Protocol Cli Warn
begin

section \<open>The worker\<close>

text \<open>
  The class \<open>FileUnlinkWorker\<close> of \<open>main.cpp\<close>: what one call of \<open>Process\<close> does to the nodes,
  the descriptor pool, the tasks, the two output streams and the failure count. A call whose
  result the code ignores has only its effect; a status is the error left in \<open>errno\<close>,
  \<^const>\<open>None\<close> for 0.
\<close>

subsection \<open>State\<close>

record run =
  r_heap :: heap
  r_next :: nat
  r_pool :: pool
  r_out :: "string list list"
  r_err :: "message list"
  r_submitted :: "(nat \<times> nat) list"
  r_failures :: nat

definition k_runnable :: nat where "k_runnable = 0"
definition k_awaiting_descriptor :: nat where "k_awaiting_descriptor = 1"
definition k_ranks :: nat where "k_ranks = 2"

text \<open>What a worker is made of: the system, the command line and its command name.\<close>

record 'w worker =
  wk_sys :: "'w sys"
  wk_options :: options
  wk_prog :: string
  wk_garbage :: "nat \<Rightarrow> char"

definition warn_at :: "'w worker \<Rightarrow> string \<Rightarrow> errc \<Rightarrow> run \<Rightarrow> run" where
  "warn_at wk path error st =
     st\<lparr>r_err := r_err st @ [warn (sys_strerror (wk_sys wk)) (wk_prog wk) error ''{}'' [ArgStr path]]\<rparr>"

definition warn_at_entry :: "'w worker \<Rightarrow> string \<Rightarrow> string \<Rightarrow> errc \<Rightarrow> run \<Rightarrow> run" where
  "warn_at_entry wk dir name error st =
     st\<lparr>r_err := r_err st @ [warn (sys_strerror (wk_sys wk)) (wk_prog wk) error ''{}/{}''
       [ArgStr dir, ArgStr name]]\<rparr>"

definition log_if_removed :: "options \<Rightarrow> errc option \<Rightarrow> string \<Rightarrow> fmt_arg list \<Rightarrow> run \<Rightarrow> run" where
  "log_if_removed opts status fmt args st =
     (if status = None \<and> opt_verbose opts then st\<lparr>r_out := r_out st @ [println_pieces fmt args]\<rparr>
      else st)"

definition fail :: "run \<Rightarrow> run" where
  "fail st = st\<lparr>r_failures := Suc (r_failures st)\<rparr>"

definition submit_task :: "nat \<Rightarrow> nat \<Rightarrow> run \<Rightarrow> run" where
  "submit_task n tier st = st\<lparr>r_submitted := r_submitted st @ [(n, tier)]\<rparr>"

text \<open>A status that is a failure unless the entry was already gone.\<close>

definition failed :: "errc option \<Rightarrow> bool" where
  "failed status \<longleftrightarrow> status \<noteq> None \<and> status \<noteq> Some ENOENT"

text \<open>\<open>delete\<close> of a node closes the descriptor it still holds.\<close>

definition delete_dir_node :: "'w worker \<Rightarrow> nat \<Rightarrow> dir_node \<Rightarrow> run \<Rightarrow> 'w \<Rightarrow> run \<times> 'w" where
  "delete_dir_node wk n d st w =
     (case fd_destroy (wk_sys wk) (dn_fd d) (r_pool st) w of (p, w) \<Rightarrow>
        (st\<lparr>r_pool := p, r_heap := (r_heap st)(n := None)\<rparr>, w))"

subsection \<open>Removing directories\<close>

definition remove_empty_logged ::
  "'w worker \<Rightarrow> nat \<Rightarrow> run \<Rightarrow> 'w \<Rightarrow> (errc option \<times> string \<times> run \<times> 'w) option" where
  "remove_empty_logged wk n st w =
     Option.bind (remove_empty (wk_sys wk) (wk_garbage wk) (r_heap st) n (r_pool st) w)
       (\<lambda>(status, path, p, w).
          Some (status, path, log_if_removed (wk_options wk) status ''{}'' [ArgStr path] (st\<lparr>r_pool := p\<rparr>), w))"

partial_function (option) maybe_cleanup ::
  "'w worker \<Rightarrow> nat option \<Rightarrow> run \<Rightarrow> 'w \<Rightarrow> (run \<times> 'w) option" where
  "maybe_cleanup wk it st w =
     (case it of
        None \<Rightarrow> Some (st, w)
      | Some cur \<Rightarrow>
          Option.bind (r_heap st cur) (\<lambda>d.
            let it = dn_parent d; old = dn_refs d; d = d\<lparr>dn_refs := old - 1\<rparr>;
                st = st\<lparr>r_heap := (r_heap st)(cur \<mapsto> d)\<rparr>
            in if old \<noteq> 1 then Some (st, w)
               else
                 Option.bind (remove_empty_logged wk cur st w) (\<lambda>(status, path, st, w).
                   let st = (case status of
                               Some error \<Rightarrow>
                                 if error \<noteq> ENOENT then warn_at wk path error (fail st) else st
                             | None \<Rightarrow> st)
                   in case delete_dir_node wk cur d st w of (st, w) \<Rightarrow> maybe_cleanup wk it st w)))"

subsection \<open>Scanning a directory\<close>

text \<open>\<open>new DirNode\<close>, the count on the parent, and the submission of the child.\<close>

definition add_child :: "nat \<Rightarrow> fd \<Rightarrow> string \<Rightarrow> run \<Rightarrow> run option" where
  "add_child task child_fd name st =
     (let child = r_next st;
          st = st\<lparr>r_heap := (r_heap st)(child \<mapsto> new_dir_node child_fd (Some task) name), r_next := Suc child\<rparr>
      in Option.bind (r_heap st task) (\<lambda>d.
           let st = st\<lparr>r_heap := (r_heap st)(task \<mapsto> d\<lparr>dn_refs := dn_refs d + 1\<rparr>)\<rparr>;
               tier = (if fd_is_open child_fd then k_runnable else k_awaiting_descriptor)
           in Some (submit_task child tier st)))"

text \<open>
  \<open>report\<close>: a failure about the entry, with the path of the directory being scanned. The
  path is built again for every message.
\<close>

definition report_entry :: "'w worker \<Rightarrow> nat \<Rightarrow> string \<Rightarrow> errc \<Rightarrow> run \<Rightarrow> run option" where
  "report_entry wk task name error st =
     Option.bind (path_into (wk_garbage wk) (r_heap st) task) (\<lambda>path.
       Some (warn_at_entry wk path name error (fail st)))"

definition scan_file ::
  "'w worker \<Rightarrow> nat \<Rightarrow> string \<Rightarrow> fd \<Rightarrow> dirent \<Rightarrow> run \<Rightarrow> 'w \<Rightarrow> (bool \<times> run \<times> 'w) option" where
  "scan_file wk task dir_path dir entry st w =
     (case sys_unlinkat (wk_sys wk) dir (d_name entry) False w of (status, w) \<Rightarrow>
        let st = log_if_removed (wk_options wk) status ''{}/{}'' [ArgStr dir_path, ArgStr (d_name entry)] st
        in case status of
             Some error \<Rightarrow>
               if error \<noteq> ENOENT then
                 map_option (\<lambda>st. (False, st, w)) (report_entry wk task (d_name entry) error st)
               else Some (False, st, w)
           | None \<Rightarrow> Some (False, st, w))"

definition scan_subdir ::
  "'w worker \<Rightarrow> nat \<Rightarrow> string \<Rightarrow> fd \<Rightarrow> dirent \<Rightarrow> run \<Rightarrow> 'w \<Rightarrow> (bool \<times> run \<times> 'w) option" where
  "scan_subdir wk task dir_path dir entry st w =
     (if pool_exhausted (r_pool st) then
        map_option (\<lambda>st. (False, st, w)) (add_child task k_invalid (d_name entry) st)
      else
        (case os_openat (wk_sys wk) dir (d_name entry) OpenDirNoFollow (r_pool st) w of
           (Inr child_fd, p, w) \<Rightarrow>
             map_option (\<lambda>st. (False, st, w)) (add_child task child_fd (d_name entry) (st\<lparr>r_pool := p\<rparr>))
         | (Inl err, p, w) \<Rightarrow>
             (let st = st\<lparr>r_pool := p\<rparr>
              in if oe_retryable err then
                   map_option (\<lambda>st. (False, st, w)) (add_child task k_invalid (d_name entry) st)
                 else if \<not> opt_force (wk_options wk) then
                   map_option (\<lambda>st. (False, st, w)) (report_entry wk task (d_name entry) (oe_code err) st)
                 else
                   (case sys_unlinkat (wk_sys wk) dir (d_name entry) True w of (status, w) \<Rightarrow>
                      let st = log_if_removed (wk_options wk) status ''{}/{}''
                                 [ArgStr dir_path, ArgStr (d_name entry)] st
                      in if failed status then
                           map_option (\<lambda>st. (False, st, w))
                             (report_entry wk task (d_name entry) (oe_code err) st)
                         else Some (False, st, w)))))"

definition scan_entry ::
  "'w worker \<Rightarrow> nat \<Rightarrow> string \<Rightarrow> (dirent, errc) expected \<Rightarrow> run \<Rightarrow> 'w \<Rightarrow> (bool \<times> run \<times> 'w) option" where
  "scan_entry wk task dir_path read st w =
     (case read of
        Inl error \<Rightarrow>
          Option.bind (path_into (wk_garbage wk) (r_heap st) task) (\<lambda>path.
            Some (True, warn_at wk path error (fail st), w))
      | Inr entry \<Rightarrow>
          if entry_is_dot_or_dot_dot entry then Some (False, st, w)
          else
            Option.bind (r_heap st task) (\<lambda>d.
              let dir = dn_fd d
              in if entry_is_type_unknown entry then
                   (case sys_fstatat (wk_sys wk) dir (d_name entry) w of
                      (Inl error, w) \<Rightarrow>
                        if error \<noteq> ENOENT then
                          map_option (\<lambda>st. (False, st, w)) (report_entry wk task (d_name entry) error st)
                        else Some (False, st, w)
                    | (Inr kind, w) \<Rightarrow>
                        if kind = Directory then scan_subdir wk task dir_path dir entry st w
                        else scan_file wk task dir_path dir entry st w)
                 else if entry_is_directory entry then scan_subdir wk task dir_path dir entry st w
                 else scan_file wk task dir_path dir entry st w))"

definition scan :: "'w worker \<Rightarrow> nat \<Rightarrow> run \<Rightarrow> 'w \<Rightarrow> (run \<times> 'w) option" where
  "scan wk task st w =
     Option.bind
       (if opt_verbose (wk_options wk) then path_into (wk_garbage wk) (r_heap st) task else Some [])
       (\<lambda>dir_path.
         Option.bind (r_heap st task) (\<lambda>d.
           dir_for_each (wk_sys wk) (dn_fd d) k_default_dir_buffer_bytes
             (scan_entry wk task dir_path) st w))"

subsection \<open>Process\<close>

definition unopenable_fails :: "'w worker \<Rightarrow> nat \<Rightarrow> run \<Rightarrow> 'w \<Rightarrow> (bool \<times> run \<times> 'w) option" where
  "unopenable_fails wk task st w =
     (if \<not> opt_force (wk_options wk) then Some (True, st, w)
      else map_option (\<lambda>(status, path, st, w). (failed status, st, w)) (remove_empty_logged wk task st w))"

definition report_unopenable :: "'w worker \<Rightarrow> nat \<Rightarrow> open_error \<Rightarrow> run \<Rightarrow> run option" where
  "report_unopenable wk task err st =
     map_option (\<lambda>path. warn_at wk path (oe_code err) (fail st)) (path_into (wk_garbage wk) (r_heap st) task)"

definition delete_unopened :: "'w worker \<Rightarrow> nat \<Rightarrow> run \<Rightarrow> 'w \<Rightarrow> (run \<times> 'w) option" where
  "delete_unopened wk task st w =
     Option.bind (r_heap st task) (\<lambda>d.
       let parent = dn_parent d
       in case delete_dir_node wk task d st w of (st, w) \<Rightarrow>
            if parent \<noteq> None then maybe_cleanup wk parent st w else Some (st, w))"

definition process_unopenable :: "'w worker \<Rightarrow> nat \<Rightarrow> open_error \<Rightarrow> run \<Rightarrow> 'w \<Rightarrow> (run \<times> 'w) option" where
  "process_unopenable wk task err st w =
     Option.bind (unopenable_fails wk task st w) (\<lambda>(report, st, w).
       Option.bind (if report then report_unopenable wk task err st else Some st) (\<lambda>st.
         delete_unopened wk task st w))"

definition process :: "'w worker \<Rightarrow> nat \<Rightarrow> run \<Rightarrow> 'w \<Rightarrow> (run \<times> 'w) option" where
  "process wk task st w =
     Option.bind (dir_node_open (wk_sys wk) (wk_garbage wk) task (r_heap st) (r_pool st) w)
       (\<lambda>(open_result, h, p, w).
         let st = st\<lparr>r_heap := h, r_pool := p\<rparr>
         in case open_result of
              Inl err \<Rightarrow>
                if oe_retryable err then Some (submit_task task k_awaiting_descriptor st, w)
                else process_unopenable wk task err st w
            | Inr _ \<Rightarrow>
                Option.bind (scan wk task st w) (\<lambda>(st, w).
                  Option.bind (r_heap st task) (\<lambda>d.
                    case fd_close (wk_sys wk) (dn_fd d) (r_pool st) w of (f, p, w) \<Rightarrow>
                      maybe_cleanup wk (Some task)
                        (st\<lparr>r_heap := (r_heap st)(task \<mapsto> d\<lparr>dn_fd := f\<rparr>), r_pool := p\<rparr>) w)))"

subsection \<open>The worker follows the protocol\<close>

text \<open>
  A worker's run and a state of the protocol that agree on the nodes and on the tasks; \<open>T\<close>
  are the tasks others submitted.
\<close>

definition agrees :: "nat multiset \<Rightarrow> run \<Rightarrow> walk \<Rightarrow> bool" where
  "agrees T st s \<longleftrightarrow> w_heap s = r_heap st \<and> w_next s = r_next st \<and>
     w_tasks s = T + mset (map fst (r_submitted st))"

text \<open>From \<open>s\<close>, steps that leave the other workers alone bring worker \<open>i\<close> to the phase \<open>ph\<close>.\<close>

definition worker_reaches :: "nat multiset \<Rightarrow> walk \<Rightarrow> nat \<Rightarrow> phase \<Rightarrow> run \<Rightarrow> bool" where
  "worker_reaches T s i ph st \<longleftrightarrow>
     (\<exists>s'. walk_step\<^sup>*\<^sup>* s s' \<and> agrees T st s' \<and> w_phases s' = (w_phases s)[i := ph])"

lemma reports_agree [simp]:
  "r_heap (warn_at wk path e st) = r_heap st" "r_next (warn_at wk path e st) = r_next st"
  "r_submitted (warn_at wk path e st) = r_submitted st"
  "r_heap (warn_at_entry wk dir name e st) = r_heap st" "r_next (warn_at_entry wk dir name e st) = r_next st"
  "r_submitted (warn_at_entry wk dir name e st) = r_submitted st"
  "r_heap (log_if_removed opts status fmt as st) = r_heap st"
  "r_next (log_if_removed opts status fmt as st) = r_next st"
  "r_submitted (log_if_removed opts status fmt as st) = r_submitted st"
  "r_heap (fail st) = r_heap st" "r_next (fail st) = r_next st" "r_submitted (fail st) = r_submitted st"
  by (simp_all add: warn_at_def warn_at_entry_def log_if_removed_def fail_def)

text \<open>Two runs that agree with the same states.\<close>

definition same_nodes :: "run \<Rightarrow> run \<Rightarrow> bool" where
  "same_nodes st st' \<longleftrightarrow> r_heap st' = r_heap st \<and> r_next st' = r_next st \<and> r_submitted st' = r_submitted st"

lemma same_nodes_agrees: "same_nodes st st' \<Longrightarrow> agrees T st' s = agrees T st s"
  by (simp add: same_nodes_def agrees_def)

lemma same_nodes_reaches: "same_nodes st st' \<Longrightarrow> worker_reaches T s i ph st \<Longrightarrow> worker_reaches T s i ph st'"
  by (simp add: worker_reaches_def same_nodes_agrees)

lemma reaches_refl: "agrees T st s \<Longrightarrow> w_phases s ! i = ph \<Longrightarrow> worker_reaches T s i ph st"
  unfolding worker_reaches_def by (rule exI [of _ s]) (metis list_update_id rtranclp.rtrancl_refl)

lemma reaches_step:
  assumes "worker_reaches T s i ph st"
    and "\<And>s'. agrees T st s' \<Longrightarrow> length (w_phases s') = length (w_phases s) \<Longrightarrow>
      w_phases s' ! i = ph \<Longrightarrow> i < length (w_phases s') \<Longrightarrow> worker_reaches T s' i ph' st'"
    and "i < length (w_phases s)"
  shows "worker_reaches T s i ph' st'"
proof -
  from assms(1) obtain s1 where s1: "walk_step\<^sup>*\<^sup>* s s1" "agrees T st s1" "w_phases s1 = (w_phases s)[i := ph]"
    by (auto simp: worker_reaches_def)
  with assms(2) [of s1] assms(3) obtain s2 where "walk_step\<^sup>*\<^sup>* s1 s2" "agrees T st' s2"
    "w_phases s2 = (w_phases s1)[i := ph']"
    by (auto simp: worker_reaches_def)
  with s1 show ?thesis unfolding worker_reaches_def by (intro exI [of _ s2]) auto
qed

lemma reaches_one:
  assumes "walk_step s s'" and "agrees T st s'" and "w_phases s' = (w_phases s)[i := ph]"
  shows "worker_reaches T s i ph st"
  using assms unfolding worker_reaches_def by blast

lemma remove_empty_logged_same:
  "remove_empty_logged wk n st w = Some (status, path, st', w') \<Longrightarrow> same_nodes st st'"
  by (auto simp: remove_empty_logged_def same_nodes_def bind_eq_Some_conv)

lemma delete_dir_node_agrees:
  assumes "agrees T st s" and "delete_dir_node wk n d st w = (st', w')"
  shows "agrees T st' (set_phase i ph (delete_node n s))"
  using assms by (auto simp: agrees_def delete_dir_node_def split: prod.splits)

lemma maybe_cleanup_reaches:
  assumes "maybe_cleanup wk it st w = Some (st', w')"
    and "agrees T st s" and "i < length (w_phases s)" and "w_phases s ! i = after_node it"
  shows "worker_reaches T s i Idle st'"
proof -
  have "\<forall>s. agrees T st s \<and> i < length (w_phases s) \<and> w_phases s ! i = after_node it \<longrightarrow>
      worker_reaches T s i Idle (fst (st', w'))"
  proof (rule maybe_cleanup.raw_induct [where P = "\<lambda>wk it st w r. \<forall>s. agrees T st s \<and>
        i < length (w_phases s) \<and> w_phases s ! i = after_node it \<longrightarrow> worker_reaches T s i Idle (fst r)",
        OF _ assms(1)], intro allI impI, elim conjE, goal_cases)
    case (1 mc wk it st w r s)
    note IH = 1(1) and ag = 1(3) and i = 1(4,5)
    show ?case
    proof (cases it)
      case None
      with 1(2) i have "r = (st, w)" "w_phases s ! i = Idle" by (simp_all add: after_node_def)
      with ag show ?thesis by (simp add: reaches_refl)
    next
      case (Some n)
      with 1(2) obtain d where d: "r_heap st n = Some d" by (auto simp: bind_eq_Some_conv)
      with ag have hd: "w_heap s n = Some d" by (simp add: agrees_def)
      from i Some have ph: "w_phases s ! i = Dropping n" by (simp add: after_node_def)
      let ?d = "d\<lparr>dn_refs := dn_refs d - 1\<rparr>"
      let ?st1 = "st\<lparr>r_heap := (r_heap st)(n \<mapsto> ?d)\<rparr>"
      let ?s1 = "\<lambda>ph. set_phase i ph (update_node n (\<lambda>nd. nd\<lparr>dn_refs := dn_refs nd - 1\<rparr>) s)"
      have ag1: "agrees T ?st1 (?s1 ph)" for ph using ag d by (simp add: agrees_def)
      show ?thesis
      proof (cases "dn_refs d = 1")
        case False
        with 1(2) Some d have "r = (?st1, w)" by (simp add: Let_def)
        with drop_shared [OF i(1) ph hd False] ag1 show ?thesis by (auto intro: reaches_one)
      next
        case True
        with 1(2) Some d obtain status path st2 w2 where
          re: "remove_empty_logged wk n ?st1 w = Some (status, path, st2, w2)"
          by (auto simp: Let_def bind_eq_Some_conv)
        define st3 where "st3 = (case status of
            Some error \<Rightarrow> if error \<noteq> ENOENT then warn_at wk path error (fail st2) else st2 | None \<Rightarrow> st2)"
        obtain st4 w4 where del: "delete_dir_node wk n ?d st3 w2 = (st4, w4)" by fastforce
        have mc: "mc wk (dn_parent d) st4 w4 = Some r"
          using 1(2) Some d True re del unfolding st3_def by (simp add: Let_def)
        have same: "same_nodes ?st1 st3"
          using remove_empty_logged_same [OF re] by (auto simp: st3_def same_nodes_def split: option.splits)
        let ?s2 = "?s1 (Removing n (dn_parent d))"
        let ?s3 = "set_phase i (after_node (dn_parent d)) (delete_node n ?s2)"
        have "agrees T st3 ?s2" using ag1 same by (simp add: same_nodes_agrees)
        from delete_dir_node_agrees [OF this del] have ag4: "agrees T st4 ?s3" .
        have "walk_step s ?s2" by (rule drop_last [OF i(1) ph hd True])
        moreover have "walk_step ?s2 ?s3" using i(1) by (intro remove) simp_all
        moreover have "worker_reaches T ?s3 i Idle (fst r)"
          using IH [OF mc] ag4 i(1) by simp
        ultimately show ?thesis
          unfolding worker_reaches_def by (auto intro: converse_rtranclp_into_rtranclp)
      qed
    qed
  qed
  with assms(2-4) show ?thesis by simp
qed

lemma add_child_reaches:
  assumes "add_child task f name st = Some st'"
    and "agrees T st s" and "i < length (w_phases s)" and "w_phases s ! i = Scanning task"
  shows "worker_reaches T s i (Scanning task) st'"
proof -
  let ?h = "(r_heap st)(r_next st \<mapsto> new_dir_node f (Some task) name)"
  from assms(1) obtain d where d: "?h task = Some d"
    and st': "st' = submit_task (r_next st) (if fd_is_open f then k_runnable else k_awaiting_descriptor)
      (st\<lparr>r_next := Suc (r_next st), r_heap := ?h(task \<mapsto> d\<lparr>dn_refs := dn_refs d + 1\<rparr>)\<rparr>)"
    by (auto simp: add_child_def Let_def bind_eq_Some_conv simp del: fun_upd_apply)
  let ?s1 = "set_phase i (Publishing task (w_next s))
    (update_node task (\<lambda>nd. nd\<lparr>dn_refs := dn_refs nd + 1\<rparr>) (alloc_node f (Some task) name s))"
  let ?s2 = "set_phase i (Scanning task) (?s1\<lparr>w_tasks := add_mset (w_next s) (w_tasks ?s1)\<rparr>)"
  have "walk_step s ?s1" by (rule scan_child [OF assms(3,4)])
  moreover have "walk_step ?s1 ?s2" by (rule publish) (use assms(3) in simp_all)
  moreover have "agrees T st' ?s2"
    using assms(2) d unfolding st' by (simp add: agrees_def submit_task_def)
  ultimately show ?thesis
    unfolding worker_reaches_def by (intro exI [of _ ?s2]) (auto intro: converse_rtranclp_into_rtranclp)
qed

text \<open>What one entry does to the nodes: nothing, or one child more.\<close>

definition entry_effect :: "nat \<Rightarrow> run \<Rightarrow> run \<Rightarrow> bool" where
  "entry_effect task st st' \<longleftrightarrow>
     same_nodes st st' \<or> (\<exists>f name st0. same_nodes st st0 \<and> add_child task f name st0 = Some st')"

lemma report_entry_same: "report_entry wk task name e st = Some st' \<Longrightarrow> same_nodes st st'"
  by (auto simp: report_entry_def same_nodes_def bind_eq_Some_conv)

lemma same_nodes_simps [simp]:
  "same_nodes st st" "same_nodes st (st\<lparr>r_pool := p\<rparr>)"
  "same_nodes st (log_if_removed opts status fmt as st1) = same_nodes st st1"
  "same_nodes st (warn_at wk path e st1) = same_nodes st st1"
  "same_nodes st (fail st1) = same_nodes st st1"
  by (simp_all add: same_nodes_def)

lemma same_nodes_trans: "same_nodes a b \<Longrightarrow> same_nodes b c \<Longrightarrow> same_nodes a c"
  by (simp add: same_nodes_def)

lemma scan_file_effect:
  "scan_file wk task dp d e st w = Some (stop, st', w') \<Longrightarrow> same_nodes st st'"
  by (auto simp: scan_file_def Let_def split: prod.splits option.splits if_splits
      dest!: report_entry_same intro: same_nodes_trans [rotated])

lemma scan_subdir_effect:
  assumes "scan_subdir wk task dp d e st w = Some (stop, st', w')"
  shows "entry_effect task st st'"
proof -
  have child: "entry_effect task st st'" if "map_option (\<lambda>st. (False, st, w1)) (add_child task f name st0) =
      Some (stop, st', w')" "same_nodes st st0" for f name st0 w1
    using that by (auto simp: entry_effect_def)
  have report: "entry_effect task st st'" if "map_option (\<lambda>st. (False, st, w1))
      (report_entry wk task name err st0) = Some (stop, st', w')" "same_nodes st st0" for name err st0 w1
    using that by (auto simp: entry_effect_def dest!: report_entry_same intro: same_nodes_trans)
  show ?thesis
  proof (cases "pool_exhausted (r_pool st)")
    case True
    with assms show ?thesis unfolding scan_subdir_def by (auto intro!: child)
  next
    case False
    obtain opened p w1 where o: "os_openat (wk_sys wk) d (d_name e) OpenDirNoFollow (r_pool st) w = (opened, p, w1)"
      by (metis prod_cases3)
    show ?thesis
    proof (cases opened)
      case (Inr f)
      with assms o False show ?thesis
        by (intro child [of w1 f "d_name e" "st\<lparr>r_pool := p\<rparr>"]) (simp_all add: scan_subdir_def)
    next
      case (Inl err)
      note defs = scan_subdir_def Let_def
      consider "oe_retryable err" | "\<not> oe_retryable err" "\<not> opt_force (wk_options wk)"
        | "\<not> oe_retryable err" "opt_force (wk_options wk)" by blast
      then show ?thesis
      proof cases
        case 1
        with assms o False Inl show ?thesis
          by (intro child [of w1 k_invalid "d_name e" "st\<lparr>r_pool := p\<rparr>"]) (simp_all add: defs)
      next
        case 2
        with assms o False Inl show ?thesis
          by (intro report [of w1 "d_name e" "oe_code err" "st\<lparr>r_pool := p\<rparr>"]) (simp_all add: defs)
      next
        case 3
        obtain status w2 where u: "sys_unlinkat (wk_sys wk) d (d_name e) True w1 = (status, w2)" by fastforce
        let ?st1 = "log_if_removed (wk_options wk) status ''{}/{}'' [ArgStr dp, ArgStr (d_name e)]
          (st\<lparr>r_pool := p\<rparr>)"
        show ?thesis
        proof (cases "failed status")
          case True
          with 3 assms o False Inl u show ?thesis
            by (intro report [of w2 "d_name e" "oe_code err" ?st1]) (simp_all add: defs)
        next
          case ok: False
          with 3 assms o False Inl u have "st' = ?st1" by (simp add: defs)
          then show ?thesis by (simp add: entry_effect_def)
        qed
      qed
    qed
  qed
qed

lemma scan_entry_effect:
  assumes "scan_entry wk task dp v st w = Some (stop, st', w')"
  shows "entry_effect task st st'"
proof -
  have unlinks: "entry_effect task st st'" if "scan_file wk task dp d e st w0 = Some (stop, st', w')" for d e w0
    using scan_file_effect [OF that] by (simp add: entry_effect_def)
  have report: "entry_effect task st st'" if "report_entry wk task name err st = Some st'" for name err
    using report_entry_same [OF that] by (simp add: entry_effect_def)
  have skip: "entry_effect task st0 st0" for st0 by (simp add: entry_effect_def)
  have stopped: "entry_effect task st (warn_at wk path err (fail st))" for path err
    by (simp add: entry_effect_def)
  show ?thesis
    using assms unfolding scan_entry_def Let_def
    by (auto split: sum.splits if_splits prod.splits simp: bind_eq_Some_conv skip stopped
        intro: unlinks report scan_subdir_effect)
qed

lemma entry_effect_reaches:
  assumes "entry_effect task st st'" and "agrees T st s" and "i < length (w_phases s)"
    and "w_phases s ! i = Scanning task"
  shows "worker_reaches T s i (Scanning task) st'"
  using assms(1) unfolding entry_effect_def
proof (elim disjE exE conjE)
  assume "same_nodes st st'"
  with assms show ?thesis by (intro reaches_refl) (simp_all add: same_nodes_agrees)
next
  fix f name st0
  assume "same_nodes st st0" "add_child task f name st0 = Some st'"
  with assms add_child_reaches show ?thesis by (simp add: same_nodes_agrees)
qed

lemma scan_reaches:
  assumes "scan wk task st w = Some (st', w')"
    and "agrees T st s" and i: "i < length (w_phases s)" and "w_phases s ! i = Scanning task"
  shows "worker_reaches T s i (Scanning task) st'"
proof -
  from assms(1) obtain dp d where
    "dir_for_each (wk_sys wk) d k_default_dir_buffer_bytes (scan_entry wk task dp) st w = Some (st', w')"
    by (auto simp: scan_def bind_eq_Some_conv)
  from dir_for_each_invariant [where P = "\<lambda>st w. worker_reaches T s i (Scanning task) st", OF this]
  show ?thesis
    using reaches_refl [OF assms(2,4)] reaches_step [OF _ _ i, of T "Scanning task" _ "Scanning task"]
      entry_effect_reaches scan_entry_effect by metis
qed

lemma dir_node_open_shape:
  assumes "dir_node_open sys g n h p w = Some (res, h', p', w')"
  shows "(\<exists>err. res = Inl err \<and> h' = h) \<or>
    (\<exists>d f. res = Inr () \<and> h n = Some d \<and> h' = h(n \<mapsto> d\<lparr>dn_fd := f\<rparr>))"
proof -
  from assms obtain d where d: "h n = Some d" by (auto simp: dir_node_open_def bind_eq_Some_conv)
  show ?thesis
  proof (cases "fd_is_open (dn_fd d)")
    case True
    with assms d have "res = Inr ()" "h' = h" by (auto simp: dir_node_open_def)
    with d show ?thesis by (intro disjI2 exI [of _ d] exI [of _ "dn_fd d"]) (simp add: fun_upd_idem)
  next
    case False
    with assms d obtain path where path: "path_into g h n = Some path"
      by (auto simp: dir_node_open_def elim: bind_SomeE)
    obtain r p1 w1 where o: "open_long sys path OpenDirNoFollow p w = (r, p1, w1)" by (metis prod_cases3)
    show ?thesis
    proof (cases r)
      case (Inl err)
      with assms d False path o show ?thesis by (auto simp: dir_node_open_def)
    next
      case (Inr f)
      obtain f1 f2 p2 w2 where m: "fd_move_assign sys (dn_fd d) f p1 w1 = (f1, f2, p2, w2)" by (metis prod_cases4)
      with assms d False path o Inr show ?thesis by (auto simp: dir_node_open_def)
    qed
  qed
qed

lemma process_unopenable_reaches:
  assumes "process_unopenable wk task err st w = Some (st', w')"
    and ag: "agrees T st s" and i: "i < length (w_phases s)" and ph: "w_phases s ! i = Opening task"
  shows "worker_reaches T s i Idle st'"
proof -
  from assms(1) obtain report st1 w1 st2 where
    r: "unopenable_fails wk task st w = Some (report, st1, w1)"
    and rp: "(if report then report_unopenable wk task err st1 else Some st1) = Some st2"
    and del0: "delete_unopened wk task st2 w1 = Some (st', w')"
    unfolding process_unopenable_def by (elim bind_SomeE) (auto elim: bind_SomeE)
  have same1: "same_nodes st st1"
    using r by (auto simp: unopenable_fails_def split: if_splits dest: remove_empty_logged_same)
  have st2: "same_nodes st1 st2"
    using rp by (auto simp: report_unopenable_def split: if_splits)
  obtain d where d: "r_heap st2 task = Some d"
    using del0 by (auto simp: delete_unopened_def elim: bind_SomeE)
  obtain st3 w3 where del: "delete_dir_node wk task d st2 w1 = (st3, w3)" by fastforce
  have mc: "(if dn_parent d \<noteq> None then maybe_cleanup wk (dn_parent d) st3 w3 else Some (st3, w3)) = Some (st', w')"
    using del0 d del by (simp add: delete_unopened_def Let_def)
  have ag2: "agrees T st2 s" using ag same1 st2 by (simp add: same_nodes_agrees)
  then have hd: "w_heap s task = Some d" using d by (simp add: agrees_def)
  let ?s1 = "set_phase i (after_node (dn_parent d)) (delete_node task s)"
  have step: "walk_step s ?s1" by (rule open_fail [OF i ph hd])
  have ag3: "agrees T st3 ?s1" by (rule delete_dir_node_agrees [OF ag2 del])
  have "worker_reaches T ?s1 i Idle st'"
  proof (cases "dn_parent d")
    case None
    with mc have "st' = st3" by simp
    with ag3 None i show ?thesis by (intro reaches_refl) (simp_all add: after_node_def)
  next
    case (Some p)
    with mc have "maybe_cleanup wk (dn_parent d) st3 w3 = Some (st', w')" by simp
    then show ?thesis by (rule maybe_cleanup_reaches [OF _ ag3]) (use i in simp_all)
  qed
  with step show ?thesis
    unfolding worker_reaches_def by (auto intro: converse_rtranclp_into_rtranclp)
qed

lemma process_reaches:
  assumes "process wk task st w = Some (st', w')"
    and ag: "agrees T st s" and i: "i < length (w_phases s)" and ph: "w_phases s ! i = Opening task"
  shows "worker_reaches T s i Idle st'"
proof -
  from assms(1) obtain res h p w1 where
    o: "dir_node_open (wk_sys wk) (wk_garbage wk) task (r_heap st) (r_pool st) w = Some (res, h, p, w1)"
    unfolding process_def by (elim bind_SomeE) auto
  let ?st1 = "st\<lparr>r_heap := h, r_pool := p\<rparr>"
  show ?thesis
    using dir_node_open_shape [OF o]
  proof (elim disjE exE conjE)
    fix err
    assume res: "res = Inl err" and h: "h = r_heap st"
    then have ag1: "agrees T ?st1 s" using ag by (simp add: agrees_def)
    show ?thesis
    proof (cases "oe_retryable err")
      case True
      with assms(1) o res have st': "st' = submit_task task k_awaiting_descriptor ?st1"
        by (simp add: process_def Let_def)
      from open_retry [OF i ph] show ?thesis
        by (rule reaches_one) (use ag1 in \<open>simp_all add: st' agrees_def submit_task_def\<close>)
    next
      case False
      with assms(1) o res have "process_unopenable wk task err ?st1 w1 = Some (st', w')"
        by (simp add: process_def Let_def)
      then show ?thesis by (rule process_unopenable_reaches [OF _ ag1 i ph])
    qed
  next
    fix d f
    assume res: "res = Inr ()" and d: "r_heap st task = Some d" and h: "h = (r_heap st)(task \<mapsto> d\<lparr>dn_fd := f\<rparr>)"
    from assms(1) o res have "Option.bind (scan wk task ?st1 w1) (\<lambda>(st, w).
        Option.bind (r_heap st task) (\<lambda>d.
          case fd_close (wk_sys wk) (dn_fd d) (r_pool st) w of (f, p, w) \<Rightarrow>
            maybe_cleanup wk (Some task)
              (st\<lparr>r_heap := (r_heap st)(task \<mapsto> d\<lparr>dn_fd := f\<rparr>), r_pool := p\<rparr>) w)) = Some (st', w')"
      by (simp add: process_def Let_def)
    then obtain st2 w2 d2 where
      sc: "scan wk task ?st1 w1 = Some (st2, w2)" and d2: "r_heap st2 task = Some d2"
      and rest: "(case fd_close (wk_sys wk) (dn_fd d2) (r_pool st2) w2 of (f, p, w) \<Rightarrow>
            maybe_cleanup wk (Some task)
              (st2\<lparr>r_heap := (r_heap st2)(task \<mapsto> d2\<lparr>dn_fd := f\<rparr>), r_pool := p\<rparr>) w) = Some (st', w')"
      by (elim bind_SomeE) (auto elim: bind_SomeE)
    obtain f2 p2 w3 where cl: "fd_close (wk_sys wk) (dn_fd d2) (r_pool st2) w2 = (f2, p2, w3)"
      by (metis prod_cases3)
    with rest have mc: "maybe_cleanup wk (Some task)
        (st2\<lparr>r_heap := (r_heap st2)(task \<mapsto> d2\<lparr>dn_fd := f2\<rparr>), r_pool := p2\<rparr>) w3 = Some (st', w')"
      by simp
    let ?s1 = "set_phase i (Scanning task) (update_node task (\<lambda>nd. nd\<lparr>dn_fd := f\<rparr>) s)"
    have step: "walk_step s ?s1" by (rule open_ok [OF i ph])
    have "agrees T ?st1 ?s1" using ag d h by (simp add: agrees_def)
    from scan_reaches [OF sc this] i have "worker_reaches T ?s1 i (Scanning task) st2" by simp
    moreover have "worker_reaches T s' i Idle st'"
      if s': "agrees T st2 s'" "w_phases s' ! i = Scanning task" "i < length (w_phases s')" for s'
    proof -
      let ?s2 = "set_phase i (Dropping task) (update_node task (\<lambda>nd. nd\<lparr>dn_fd := k_invalid\<rparr>) s')"
      have "f2 = k_invalid" using cl by (auto simp: fd_close_def split: if_splits)
      then have "agrees T (st2\<lparr>r_heap := (r_heap st2)(task \<mapsto> d2\<lparr>dn_fd := f2\<rparr>), r_pool := p2\<rparr>) ?s2"
        using s'(1) d2 by (simp add: agrees_def)
      from maybe_cleanup_reaches [OF mc this] s'(3) have "worker_reaches T ?s2 i Idle st'"
        by (simp add: after_node_def)
      moreover have "walk_step s' ?s2" by (rule scan_done [OF s'(3,2)])
      ultimately show ?thesis
        unfolding worker_reaches_def by (auto intro: converse_rtranclp_into_rtranclp)
    qed
    ultimately have "worker_reaches T ?s1 i Idle st'"
      by (rule reaches_step) (use i in simp_all)
    with step show ?thesis
      unfolding worker_reaches_def by (auto intro: converse_rtranclp_into_rtranclp)
  qed
qed

text \<open>
  C9: one call of \<open>Process\<close>, with everything it does (opening, the whole scan with its
  submissions, the clean-up of the node and of as many ancestors as it finishes), is a run
  of the protocol by that worker alone, from the moment it took the task until it is idle
  again, and the tasks it submitted are those the protocol has.
\<close>

theorem process_refines_protocol:
  assumes "process wk task st w = Some (st', w')"
    and "walk_reachable workers s" and "i < workers" and "w_phases s ! i = Opening task"
    and "w_heap s = r_heap st" and "w_next s = r_next st" and "r_submitted st = []"
  shows "\<exists>s'. walk_step\<^sup>*\<^sup>* s s' \<and> walk_reachable workers s' \<and> w_heap s' = r_heap st' \<and>
    w_next s' = r_next st' \<and> w_tasks s' = w_tasks s + mset (map fst (r_submitted st')) \<and>
    w_phases s' = (w_phases s)[i := Idle]"
proof -
  have "agrees (w_tasks s) st s" using assms(5-7) by (simp add: agrees_def)
  from process_reaches [OF assms(1) this _ assms(4)] reachable_workers [OF assms(2)] assms(3)
  obtain s' where s': "walk_step\<^sup>*\<^sup>* s s'" "agrees (w_tasks s) st' s'" "w_phases s' = (w_phases s)[i := Idle]"
    by (auto simp: worker_reaches_def)
  with reachable_steps [OF s'(1) assms(2)] show ?thesis by (auto simp: agrees_def)
qed

text \<open>A root that cannot be opened: every call of the system fails.\<close>

definition example_worker :: "unit worker" where
  "example_worker = \<lparr>wk_sys = null_sys, wk_options = default_options, wk_prog = ''rm'',
     wk_garbage = (\<lambda>i. CHR ''?'')\<rparr>"

definition example_run :: run where
  "example_run = \<lparr>r_heap = [0 \<mapsto> new_dir_node k_invalid None ''top''], r_next = 1,
     r_pool = initial_pool, r_out = [], r_err = [], r_submitted = [], r_failures = 0\<rparr>"

lemma example_run_ok: "heap_ok (r_heap example_run)"
  by (auto simp: heap_ok_def example_run_def new_dir_node_def)

lemma example_path:
  "path_into (\<lambda>i. CHR ''?'') (r_heap example_run) 0 = Some ''top''"
proof -
  have "chain_nodes (r_heap example_run) 0 = Some [new_dir_node k_invalid None ''top'']"
    by (simp add: chain_nodes_def parent_chain_Some example_run_def)
  from path_into_eq [OF example_run_ok this] show ?thesis
    by (simp add: node_path_def new_dir_node_def)
qed

lemma example_open:
  "\<exists>p. dir_node_open null_sys (\<lambda>i. CHR ''?'') 0 (r_heap example_run) initial_pool () =
     Some (Inl \<lparr>oe_code = EIO, oe_retryable = False\<rparr>, r_heap example_run, p, ())"
proof -
  obtain r p where o: "open_long null_sys ''top'' OpenDirNoFollow initial_pool () = (r, p, ())"
    by (cases "open_long null_sys ''top'' OpenDirNoFollow initial_pool ()") simp
  moreover have "fst (open_long null_sys ''top'' OpenDirNoFollow initial_pool ()) =
      Inl \<lparr>oe_code = EIO, oe_retryable = False\<rparr>"
    by (simp add: open_long_def open_long_loop.simps path_max_def open_at_def os_open_def fd_open_def
        null_sys_def fd_is_open_def split: prod.split)
  ultimately have "open_long null_sys ''top'' OpenDirNoFollow initial_pool () =
      (Inl \<lparr>oe_code = EIO, oe_retryable = False\<rparr>, p, ())" by simp
  moreover have "r_heap example_run 0 = Some (new_dir_node k_invalid None ''top'')"
    by (simp add: example_run_def)
  ultimately show ?thesis
    by (simp add: dir_node_open_def example_path) (simp add: new_dir_node_def fd_is_open_def)
qed

lemma example_process:
  "\<exists>st'. process example_worker 0 example_run () = Some (st', ()) \<and> r_failures st' = 1 \<and>
     r_heap st' = (\<lambda>n. None) \<and> r_submitted st' = []"
proof -
  obtain p where "dir_node_open null_sys (\<lambda>i. CHR ''?'') 0 (r_heap example_run) initial_pool () =
     Some (Inl \<lparr>oe_code = EIO, oe_retryable = False\<rparr>, r_heap example_run, p, ())"
    using example_open by blast
  moreover have "r_pool example_run = initial_pool" by (simp add: example_run_def)
  ultimately have "process example_worker 0 example_run () =
      process_unopenable example_worker 0 \<lparr>oe_code = EIO, oe_retryable = False\<rparr> (example_run\<lparr>r_pool := p\<rparr>) ()"
    by (simp add: process_def example_worker_def)
  then show ?thesis
    using example_path
    by (simp add: process_unopenable_def unopenable_fails_def example_worker_def default_options_def
        report_unopenable_def delete_unopened_def delete_dir_node_def fd_destroy_def fd_close_def)
      (simp add: example_run_def new_dir_node_def warn_at_def fail_def fun_eq_iff)
qed

theorem process_refines_protocol_witness:
  "\<exists>st' s'. process example_worker 0 example_run () = Some (st', ()) \<and> walk_reachable 1 s' \<and>
     w_heap s' = r_heap st' \<and> w_tasks s' = {#} \<and> w_phases s' = [Idle]"
proof -
  let ?s1 = "(alloc_node k_invalid None ''top'' (initial_walk 1))\<lparr>w_tasks := {#0#}\<rparr>"
  let ?s2 = "set_phase 0 (Opening 0) (?s1\<lparr>w_tasks := {#}\<rparr>)"
  have "walk_step (initial_walk 1) ?s1"
    using seed [of "initial_walk 1" k_invalid "''top''"] by (simp add: initial_walk_def alloc_node_def)
  then have 1: "walk_reachable 1 ?s1" by (rule walk_next [OF walk_start])
  have "walk_step ?s1 ?s2" using take_task [of 0 ?s1 0] by (simp add: initial_walk_def)
  then have 2: "walk_reachable 1 ?s2" by (rule walk_next [OF 1])
  obtain st' where st': "process example_worker 0 example_run () = Some (st', ())" "r_submitted st' = []"
    using example_process by blast
  from process_refines_protocol [OF st'(1) 2, of 0] st'(2)
  obtain s' where "walk_reachable 1 s'" "w_heap s' = r_heap st'" "w_tasks s' = w_tasks ?s2"
    "w_phases s' = (w_phases ?s2)[0 := Idle]"
    by (auto simp: example_run_def initial_walk_def)
  with st'(1) show ?thesis by (intro exI [of _ st'] exI [of _ s']) (simp add: initial_walk_def)
qed

subsection \<open>Failures and messages\<close>

text \<open>
  Between two states of a worker: every failure counted has printed one message and nothing
  else did, and standard output got lines only under \<open>-v\<close>.
\<close>

definition balanced :: "options \<Rightarrow> run \<Rightarrow> run \<Rightarrow> bool" where
  "balanced opts st st' \<longleftrightarrow>
     (\<exists>msgs. r_err st' = r_err st @ msgs \<and> r_failures st' = r_failures st + length msgs) \<and>
     (\<exists>printed. r_out st' = r_out st @ printed \<and> (opt_verbose opts \<or> printed = []))"

lemma balanced_refl [simp]: "balanced opts st st"
  by (simp add: balanced_def)

lemma balanced_trans: "balanced opts a b \<Longrightarrow> balanced opts b c \<Longrightarrow> balanced opts a c"
  unfolding balanced_def by (elim conjE exE) (simp, blast)

lemma balanced_silent:
  "r_err st' = r_err st \<Longrightarrow> r_failures st' = r_failures st \<Longrightarrow> r_out st' = r_out st \<Longrightarrow> balanced opts st st'"
  by (simp add: balanced_def)

lemma balanced_warn [simp]:
  "balanced opts st st' \<Longrightarrow> balanced opts st (warn_at wk path e (fail st'))"
  "balanced opts st st' \<Longrightarrow> balanced opts st (warn_at_entry wk dir name e (fail st'))"
  by (auto simp: balanced_def warn_at_def warn_at_entry_def fail_def)

lemma balanced_log [simp]:
  "balanced opts st st' \<Longrightarrow> balanced opts st (log_if_removed opts status fmt as st')"
  by (auto simp: balanced_def log_if_removed_def)

lemma balanced_updates [simp]:
  "balanced opts st (st'\<lparr>r_pool := p\<rparr>) = balanced opts st st'"
  "balanced opts st (st'\<lparr>r_heap := h\<rparr>) = balanced opts st st'"
  "balanced opts st (st'\<lparr>r_next := n\<rparr>) = balanced opts st st'"
  "balanced opts st (submit_task m tier st') = balanced opts st st'"
  by (simp_all add: balanced_def submit_task_def)

lemma remove_empty_logged_balanced:
  "remove_empty_logged wk n st w = Some (status, path, st', w') \<Longrightarrow> balanced (wk_options wk) st st'"
  by (auto simp: remove_empty_logged_def elim!: bind_SomeE)

lemma delete_dir_node_balanced:
  "delete_dir_node wk n d st w = (st', w') \<Longrightarrow> balanced opts st0 st' = balanced opts st0 st"
  by (auto simp: delete_dir_node_def split: prod.splits)

lemma maybe_cleanup_balanced:
  assumes "maybe_cleanup wk it st w = Some (st', w')"
  shows "balanced (wk_options wk) st st'"
proof -
  have "balanced (wk_options wk) st (fst (st', w'))"
  proof (rule maybe_cleanup.raw_induct [where P = "\<lambda>wk it st w r. balanced (wk_options wk) st (fst r)", OF _ assms],
      goal_cases)
    case (1 mc wk it st w r)
    show ?case
    proof (cases it)
      case None
      with 1(2) show ?thesis by auto
    next
      case (Some n)
      with 1(2) obtain d where d: "r_heap st n = Some d" by (auto elim: bind_SomeE)
      let ?d = "d\<lparr>dn_refs := dn_refs d - 1\<rparr>"
      let ?st1 = "st\<lparr>r_heap := (r_heap st)(n \<mapsto> ?d)\<rparr>"
      show ?thesis
      proof (cases "dn_refs d = 1")
        case False
        with 1(2) Some d have "r = (?st1, w)" by (simp add: Let_def)
        then show ?thesis by simp
      next
        case True
        with 1(2) Some d obtain status path st2 w2 where
          re: "remove_empty_logged wk n ?st1 w = Some (status, path, st2, w2)"
          by (auto simp: Let_def elim: bind_SomeE)
        define st3 where "st3 = (case status of
            Some error \<Rightarrow> if error \<noteq> ENOENT then warn_at wk path error (fail st2) else st2 | None \<Rightarrow> st2)"
        obtain st4 w4 where del: "delete_dir_node wk n ?d st3 w2 = (st4, w4)" by fastforce
        have mc: "mc wk (dn_parent d) st4 w4 = Some r"
          using 1(2) Some d True re del unfolding st3_def by (simp add: Let_def)
        have "balanced (wk_options wk) st ?st1" by simp
        with remove_empty_logged_balanced [OF re] have "balanced (wk_options wk) st st2"
          by (blast intro: balanced_trans)
        then have "balanced (wk_options wk) st st3" by (auto simp: st3_def split: option.split)
        then have "balanced (wk_options wk) st st4" by (simp add: delete_dir_node_balanced [OF del])
        with 1(1) [OF mc] show ?thesis by (blast intro: balanced_trans)
      qed
    qed
  qed
  then show ?thesis by simp
qed

lemma add_child_balanced: "add_child task f name st = Some st' \<Longrightarrow> balanced opts st0 st' = balanced opts st0 st"
  by (auto simp: add_child_def Let_def elim!: bind_SomeE)

lemma report_entry_balanced:
  "report_entry wk task name e st = Some st' \<Longrightarrow> balanced opts st0 st \<Longrightarrow> balanced opts st0 st'"
  by (auto simp: report_entry_def elim!: bind_SomeE)

lemma scan_file_balanced:
  "scan_file wk task dp d e st w = Some (stop, st', w') \<Longrightarrow> balanced (wk_options wk) st st'"
  by (auto simp: scan_file_def Let_def split: prod.splits option.splits if_splits intro: report_entry_balanced)

lemma scan_subdir_balanced:
  "scan_subdir wk task dp d e st w = Some (stop, st', w') \<Longrightarrow> balanced (wk_options wk) st st'"
  by (auto simp: scan_subdir_def Let_def add_child_balanced split: prod.splits sum.splits if_splits
      intro: report_entry_balanced)

lemma scan_entry_balanced:
  assumes "scan_entry wk task dp v st w = Some (stop, st', w')"
  shows "balanced (wk_options wk) st st'"
  using assms unfolding scan_entry_def Let_def
  by (auto split: sum.splits if_splits prod.splits elim!: bind_SomeE
      intro: scan_file_balanced scan_subdir_balanced report_entry_balanced [OF _ balanced_refl])

lemma scan_balanced:
  assumes "scan wk task st w = Some (st', w')"
  shows "balanced (wk_options wk) st st'"
proof -
  from assms obtain dp d where
    "dir_for_each (wk_sys wk) d k_default_dir_buffer_bytes (scan_entry wk task dp) st w = Some (st', w')"
    by (auto simp: scan_def elim!: bind_SomeE)
  then show ?thesis
    by (rule dir_for_each_invariant [where P = "\<lambda>st1 w. balanced (wk_options wk) st st1"])
      (auto intro: balanced_trans dest: scan_entry_balanced)
qed

lemma delete_unopened_balanced:
  assumes "delete_unopened wk task st w = Some (st', w')"
  shows "balanced (wk_options wk) st st'"
proof -
  from assms obtain d where d: "r_heap st task = Some d" by (auto simp: delete_unopened_def elim: bind_SomeE)
  obtain st1 w1 where del: "delete_dir_node wk task d st w = (st1, w1)" by fastforce
  have 1: "balanced (wk_options wk) st st1" by (simp add: delete_dir_node_balanced [OF del])
  show ?thesis
  proof (cases "dn_parent d")
    case None
    with assms d del 1 show ?thesis by (simp add: delete_unopened_def)
  next
    case (Some p)
    with assms d del have "maybe_cleanup wk (Some p) st1 w1 = Some (st', w')"
      by (simp add: delete_unopened_def)
    from balanced_trans [OF 1 maybe_cleanup_balanced [OF this]] show ?thesis .
  qed
qed

lemma process_unopenable_balanced:
  assumes "process_unopenable wk task err st w = Some (st', w')"
  shows "balanced (wk_options wk) st st'"
proof -
  from assms obtain report st1 w1 st2 where
    r: "unopenable_fails wk task st w = Some (report, st1, w1)"
    and rp: "(if report then report_unopenable wk task err st1 else Some st1) = Some st2"
    and del: "delete_unopened wk task st2 w1 = Some (st', w')"
    unfolding process_unopenable_def by (elim bind_SomeE) (auto elim: bind_SomeE)
  have "balanced (wk_options wk) st st1"
    using r by (auto simp: unopenable_fails_def split: if_splits dest: remove_empty_logged_balanced)
  then have "balanced (wk_options wk) st st2"
    using rp by (auto simp: report_unopenable_def split: if_splits)
  with delete_unopened_balanced [OF del] show ?thesis by (blast intro: balanced_trans)
qed

lemma process_balanced:
  assumes "process wk task st w = Some (st', w')"
  shows "balanced (wk_options wk) st st'"
proof -
  from assms obtain res h p w1 where
    o: "dir_node_open (wk_sys wk) (wk_garbage wk) task (r_heap st) (r_pool st) w = Some (res, h, p, w1)"
    unfolding process_def by (elim bind_SomeE) auto
  let ?st1 = "st\<lparr>r_heap := h, r_pool := p\<rparr>"
  show ?thesis
  proof (cases res)
    case (Inl err)
    show ?thesis
    proof (cases "oe_retryable err")
      case True
      with assms o Inl show ?thesis by (auto simp: process_def Let_def)
    next
      case False
      with assms o Inl have "process_unopenable wk task err ?st1 w1 = Some (st', w')"
        by (simp add: process_def Let_def)
      from process_unopenable_balanced [OF this] show ?thesis by (rule balanced_trans [rotated]) simp
    qed
  next
    case (Inr u)
    with assms o obtain st2 w2 where sc: "scan wk task ?st1 w1 = Some (st2, w2)"
      and rest: "Option.bind (r_heap st2 task) (\<lambda>d.
          case fd_close (wk_sys wk) (dn_fd d) (r_pool st2) w2 of (f, p, w) \<Rightarrow>
            maybe_cleanup wk (Some task)
              (st2\<lparr>r_heap := (r_heap st2)(task \<mapsto> d\<lparr>dn_fd := f\<rparr>), r_pool := p\<rparr>) w) = Some (st', w')"
      by (auto simp: process_def Let_def elim!: bind_SomeE)
    have "balanced (wk_options wk) st ?st1" by simp
    with scan_balanced [OF sc] have 2: "balanced (wk_options wk) st st2" by (blast intro: balanced_trans)
    from rest obtain d where rest2: "(case fd_close (wk_sys wk) (dn_fd d) (r_pool st2) w2 of (f, p, w) \<Rightarrow>
            maybe_cleanup wk (Some task)
              (st2\<lparr>r_heap := (r_heap st2)(task \<mapsto> d\<lparr>dn_fd := f\<rparr>), r_pool := p\<rparr>) w) = Some (st', w')"
      by (rule bind_SomeE)
    obtain f p2 w3 where "fd_close (wk_sys wk) (dn_fd d) (r_pool st2) w2 = (f, p2, w3)" by (metis prod_cases3)
    with rest2 have mc: "maybe_cleanup wk (Some task)
        (st2\<lparr>r_heap := (r_heap st2)(task \<mapsto> d\<lparr>dn_fd := f\<rparr>), r_pool := p2\<rparr>) w3 = Some (st', w')" by simp
    from maybe_cleanup_balanced [OF mc] show ?thesis
      by (rule balanced_trans [rotated]) (simp add: 2)
  qed
qed

text \<open>
  C16: however a call of \<open>Process\<close> goes, the worker's failure count, on which the exit
  status rests, goes up by exactly the number of messages it wrote to standard error, and it
  writes to standard output only under \<open>-v\<close>.
\<close>

theorem process_reports_failures:
  assumes "process wk task st w = Some (st', w')"
  shows "(\<exists>msgs. r_err st' = r_err st @ msgs \<and> r_failures st' = r_failures st + length msgs) \<and>
    (opt_verbose (wk_options wk) \<or> r_out st' = r_out st)"
  using process_balanced [OF assms] by (auto simp: balanced_def)

theorem process_reports_failures_witness:
  "\<exists>st'. process example_worker 0 example_run () = Some (st', ()) \<and> length (r_err st') = 1 \<and> r_out st' = []"
proof -
  obtain st' where st': "process example_worker 0 example_run () = Some (st', ())" "r_failures st' = 1"
    using example_process by blast
  from process_reports_failures [OF st'(1)] st' show ?thesis
    by (auto simp: example_run_def example_worker_def default_options_def)
qed

subsection \<open>Process always returns\<close>

text \<open>Every node of a run was allocated, and its parent is alive.\<close>

definition run_ok :: "run \<Rightarrow> bool" where
  "run_ok st \<longleftrightarrow> heap_ok (r_heap st) \<and> (\<forall>n. r_heap st n \<noteq> None \<longrightarrow> n < r_next st)"

text \<open>The other calls a scan makes do not lengthen a directory's listing.\<close>

definition calls_keep :: "'w sys \<Rightarrow> ('w \<Rightarrow> nat) \<Rightarrow> bool" where
  "calls_keep sys m \<longleftrightarrow>
     (\<forall>l w. m (snd (sys_setrlimit sys l w)) \<le> m w) \<and>
     (\<forall>d path fl w. m (snd (sys_openat sys d path fl w)) \<le> m w) \<and>
     (\<forall>d name r w. m (snd (sys_unlinkat sys d name r w)) \<le> m w) \<and>
     (\<forall>d name w. m (snd (sys_fstatat sys d name w)) \<le> m w)"

lemma calls_keepD:
  assumes "calls_keep sys m"
  shows "sys_setrlimit sys l w = (a, w') \<Longrightarrow> m w' \<le> m w"
    and "sys_openat sys d path fl w = (b, w') \<Longrightarrow> m w' \<le> m w"
    and "sys_unlinkat sys d name r w = (e, w') \<Longrightarrow> m w' \<le> m w"
    and "sys_fstatat sys d name w = (f, w') \<Longrightarrow> m w' \<le> m w"
  using assms unfolding calls_keep_def by (metis snd_conv)+

lemma set_max_keeps:
  assumes "calls_keep sys m" and "set_max sys w = (r, w')"
  shows "m w' \<le> m w"
  using assms(2) calls_keepD(1) [OF assms(1)]
  by (auto simp: set_max_def set_limit_def Let_def split: sum.splits option.splits prod.splits if_splits)

lemma os_openat_keeps:
  assumes "calls_keep sys m" and "os_openat sys d name fl p w = (r, p', w')"
  shows "m w' \<le> m w"
proof -
  obtain rs p1 w1 where r: "pool_reserve sys p w = (rs, p1, w1)" by (metis prod_cases3)
  have 1: "m w1 \<le> m w"
    using r set_max_keeps [OF assms(1)]
    by (auto simp: pool_reserve_def raise_if_needed_def Let_def split: prod.splits sum.splits if_splits)
  obtain a w2 where o: "sys_openat sys d name fl w1 = (a, w2)" by fastforce
  have "w' = w2"
    using assms(2) r o by (auto simp: os_openat_def fd_open_def Let_def split: sum.splits prod.splits if_splits)
  with calls_keepD(2) [OF assms(1) o] 1 show ?thesis by simp
qed

lemma remove_empty_total:
  assumes "heap_ok_upto h n" and "h n \<noteq> None"
  shows "\<exists>r. remove_empty sys g h n p w = Some r"
proof -
  obtain path where "path_into g h n = Some path" using path_into_total [OF assms] by blast
  then show ?thesis by (auto simp: remove_empty_def split: option.split prod.split sum.split)
qed

lemma remove_empty_logged_total:
  assumes "heap_ok_upto (r_heap st) n" and "r_heap st n \<noteq> None"
  shows "\<exists>status path st' w'. remove_empty_logged wk n st w = Some (status, path, st', w') \<and>
    r_heap st' = r_heap st \<and> r_next st' = r_next st"
proof -
  obtain status path p w' where
    "remove_empty (wk_sys wk) (wk_garbage wk) (r_heap st) n (r_pool st) w = Some (status, path, p, w')"
    using remove_empty_total [OF assms] by (metis prod_cases4)
  then show ?thesis by (simp add: remove_empty_logged_def)
qed

lemma heap_ok_upto_delete:
  assumes "heap_ok_upto h n" and "h n = Some d" and "dn_parent d = Some p"
  shows "heap_ok_upto (h(n := None)) p \<and> (h(n := None)) p \<noteq> None \<and> p < n"
proof -
  from assms have p: "p < n" "h p \<noteq> None" unfolding heap_ok_upto_def by (metis order_refl)+
  have "q < k \<and> (h(n := None)) q \<noteq> None"
    if k: "k \<le> p" "(h(n := None)) k = Some e" "dn_parent e = Some q" for k e q
  proof -
    from k(2) have "h k = Some e" by (simp split: if_splits)
    with assms(1) k p(1) have "q < k" "h q \<noteq> None" unfolding heap_ok_upto_def by (meson le_less_trans less_imp_le)+
    with k(1) p(1) show ?thesis by simp
  qed
  with p show ?thesis unfolding heap_ok_upto_def by simp
qed

lemma heap_ok_upto_update:
  assumes "heap_ok_upto h n" and "h m = Some d" and "dn_parent d' = dn_parent d"
  shows "heap_ok_upto (h(m \<mapsto> d')) n"
  unfolding heap_ok_upto_def
proof (intro allI impI)
  fix k e q
  assume k: "k \<le> n" "(h(m \<mapsto> d')) k = Some e" "dn_parent e = Some q"
  with assms(2,3) obtain e0 where "h k = Some e0" "dn_parent e0 = Some q"
    by (cases "k = m") auto
  with assms(1) k(1) show "q < k \<and> (h(m \<mapsto> d')) q \<noteq> None" by (simp add: heap_ok_upto_def)
qed

lemma maybe_cleanup_total:
  "heap_ok_upto (r_heap st) n \<Longrightarrow> r_heap st n \<noteq> None \<Longrightarrow>
     \<exists>st' w'. maybe_cleanup wk (Some n) st w = Some (st', w')"
proof (induction n arbitrary: st w rule: less_induct)
  case (less n)
  then obtain d where d: "r_heap st n = Some d" by blast
  let ?d = "d\<lparr>dn_refs := dn_refs d - 1\<rparr>"
  let ?st1 = "st\<lparr>r_heap := (r_heap st)(n \<mapsto> ?d)\<rparr>"
  show ?case
  proof (cases "dn_refs d = 1")
    case False
    with d show ?thesis by (subst maybe_cleanup.simps) (simp add: Let_def)
  next
    case True
    have ok1: "heap_ok_upto (r_heap ?st1) n" using heap_ok_upto_update [OF less.prems(1) d] by simp
    obtain status path st2 w2 where re: "remove_empty_logged wk n ?st1 w = Some (status, path, st2, w2)"
      and h2: "r_heap st2 = r_heap ?st1"
      using remove_empty_logged_total [OF ok1, of wk w] by auto
    define st3 where "st3 = (case status of
        Some error \<Rightarrow> if error \<noteq> ENOENT then warn_at wk path error (fail st2) else st2 | None \<Rightarrow> st2)"
    have h3: "r_heap st3 = r_heap ?st1" using h2 by (simp add: st3_def split: option.split)
    obtain st4 w4 where del: "delete_dir_node wk n ?d st3 w2 = (st4, w4)" by fastforce
    have h4: "r_heap st4 = (r_heap ?st1)(n := None)"
      using del h3 by (auto simp: delete_dir_node_def split: prod.splits)
    have unfold: "maybe_cleanup wk (Some n) st w = maybe_cleanup wk (dn_parent d) st4 w4"
      by (subst maybe_cleanup.simps) (use d True re del in \<open>simp add: Let_def st3_def\<close>)
    show ?thesis
    proof (cases "dn_parent d")
      case None
      then show ?thesis unfolding unfold by (simp add: maybe_cleanup.simps)
    next
      case (Some p)
      from heap_ok_upto_delete [OF ok1, of ?d p] Some
      have "heap_ok_upto (r_heap st4) p" "r_heap st4 p \<noteq> None" "p < n" by (auto simp: h4)
      with less.IH show ?thesis unfolding unfold Some by blast
    qed
  qed
qed

text \<open>The state a scan keeps: well formed, with the directory scanned alive.\<close>

definition scan_ok :: "nat \<Rightarrow> run \<Rightarrow> bool" where
  "scan_ok task st \<longleftrightarrow> run_ok st \<and> r_heap st task \<noteq> None"

lemma add_child_total:
  assumes "scan_ok task st"
  shows "\<exists>st'. add_child task f name st = Some st' \<and> scan_ok task st'"
proof -
  from assms obtain d where d: "r_heap st task = Some d" and lt: "task < r_next st"
    and ok: "heap_ok (r_heap st)" and fresh: "\<forall>n. r_heap st n \<noteq> None \<longrightarrow> n < r_next st"
    by (auto simp: scan_ok_def run_ok_def)
  let ?h = "(r_heap st)(r_next st \<mapsto> new_dir_node f (Some task) name, task \<mapsto> d\<lparr>dn_refs := dn_refs d + 1\<rparr>)"
  have "heap_ok ?h"
    unfolding heap_ok_def
  proof (intro allI impI)
    fix n d' p
    assume n: "?h n = Some d'" and p: "dn_parent d' = Some p"
    show "p < n \<and> ?h p \<noteq> None"
    proof (cases "n = r_next st")
      case True
      with n p lt show ?thesis by auto
    next
      case False
      with n p obtain d0 where "r_heap st n = Some d0" "dn_parent d0 = Some p"
        using d by (auto split: if_splits)
      with ok show ?thesis by (auto simp: heap_ok_def)
    qed
  qed
  moreover have "\<forall>n. ?h n \<noteq> None \<longrightarrow> n < Suc (r_next st)"
    using fresh lt by (auto simp: less_Suc_eq)
  ultimately show ?thesis
    using d lt by (simp add: add_child_def Let_def scan_ok_def run_ok_def submit_task_def)
qed

lemma report_entry_total:
  assumes "scan_ok task st"
  shows "\<exists>st'. report_entry wk task name e st = Some st' \<and> scan_ok task st'"
proof -
  have "heap_ok_upto (r_heap st) task" "r_heap st task \<noteq> None"
    using assms heap_ok_upto by (auto simp: scan_ok_def run_ok_def)
  from path_into_total [OF this] obtain path where "path_into (wk_garbage wk) (r_heap st) task = Some path"
    by blast
  with assms show ?thesis by (simp add: report_entry_def scan_ok_def run_ok_def)
qed

lemma scan_ok_updates [simp]:
  "scan_ok task (st\<lparr>r_pool := p\<rparr>) = scan_ok task st"
  "scan_ok task (log_if_removed opts status fmt as st) = scan_ok task st"
  "scan_ok task (warn_at wk path e st) = scan_ok task st"
  "scan_ok task (fail st) = scan_ok task st"
  by (simp_all add: scan_ok_def run_ok_def)

text \<open>What the loop needs of one pass: it returns, keeps the state and the measure.\<close>

definition passes :: "('w \<Rightarrow> nat) \<Rightarrow> nat \<Rightarrow> 'w \<Rightarrow> (bool \<times> run \<times> 'w) option \<Rightarrow> bool" where
  "passes m task w r \<longleftrightarrow> (\<exists>stop st' w'. r = Some (stop, st', w') \<and> scan_ok task st' \<and> m w' \<le> m w)"

lemma passes_Some [simp]: "passes m task w (Some (stop, st, w')) \<longleftrightarrow> scan_ok task st \<and> m w' \<le> m w"
  by (simp add: passes_def)

lemma passes_child:
  "scan_ok task st \<Longrightarrow> m w' \<le> m w \<Longrightarrow>
     passes m task w (map_option (\<lambda>st. (False, st, w')) (add_child task f name st))"
  using add_child_total [of task st f name] by (auto simp: passes_def)

lemma passes_report:
  "scan_ok task st \<Longrightarrow> m w' \<le> m w \<Longrightarrow>
     passes m task w (map_option (\<lambda>st. (False, st, w')) (report_entry wk task name e st))"
  using report_entry_total [of task st wk name e] by (auto simp: passes_def)

lemma scan_file_passes:
  assumes "calls_keep (wk_sys wk) m" and "scan_ok task st" and "m w0 \<le> m w"
  shows "passes m task w (scan_file wk task dp d e st w0)"
proof -
  obtain status w1 where u: "sys_unlinkat (wk_sys wk) d (d_name e) False w0 = (status, w1)" by fastforce
  from calls_keepD(3) [OF assms(1) u] assms(3) have "m w1 \<le> m w" by simp
  with assms(2) show ?thesis
    by (simp add: scan_file_def u Let_def passes_report split: option.split)
qed

lemma scan_subdir_passes:
  assumes "calls_keep (wk_sys wk) m" and ok: "scan_ok task st" and "m w0 \<le> m w"
  shows "passes m task w (scan_subdir wk task dp d e st w0)"
proof (cases "pool_exhausted (r_pool st)")
  case True
  with assms show ?thesis by (simp add: scan_subdir_def passes_child)
next
  case False
  obtain opened p w1 where o: "os_openat (wk_sys wk) d (d_name e) OpenDirNoFollow (r_pool st) w0 = (opened, p, w1)"
    by (metis prod_cases3)
  from os_openat_keeps [OF assms(1) o] assms(3) have 1: "m w1 \<le> m w" by simp
  obtain status w2 where u: "sys_unlinkat (wk_sys wk) d (d_name e) True w1 = (status, w2)" by fastforce
  from calls_keepD(3) [OF assms(1) u] 1 have 2: "m w2 \<le> m w" by simp
  show ?thesis
    using ok 1 2 False by (simp add: scan_subdir_def o u Let_def passes_report passes_child split: sum.split)
qed

lemma scan_entry_passes:
  assumes keep: "calls_keep (wk_sys wk) m" and ok: "scan_ok task st"
  shows "passes m task w (scan_entry wk task dp v st w)"
proof (cases v)
  case (Inl e)
  have "heap_ok_upto (r_heap st) task" "r_heap st task \<noteq> None"
    using ok heap_ok_upto by (auto simp: scan_ok_def run_ok_def)
  from path_into_total [OF this] obtain path where "path_into (wk_garbage wk) (r_heap st) task = Some path"
    by blast
  with Inl ok show ?thesis by (simp add: scan_entry_def)
next
  case (Inr e)
  from ok obtain d where d: "r_heap st task = Some d" by (auto simp: scan_ok_def)
  obtain ans w1 where f: "sys_fstatat (wk_sys wk) (dn_fd d) (d_name e) w = (ans, w1)" by fastforce
  from calls_keepD(4) [OF keep f] have "m w1 \<le> m w" .
  with Inr ok d f keep show ?thesis
    by (simp add: scan_entry_def Let_def passes_report scan_file_passes scan_subdir_passes split: sum.split)
qed

lemma scan_total:
  assumes "records_advance (wk_sys wk)" and "listing_bound (wk_sys wk) m" and "calls_keep (wk_sys wk) m"
    and ok: "scan_ok task st"
  shows "\<exists>st' w'. scan wk task st w = Some (st', w') \<and> scan_ok task st'"
proof -
  have "heap_ok_upto (r_heap st) task" "r_heap st task \<noteq> None"
    using ok heap_ok_upto by (auto simp: scan_ok_def run_ok_def)
  then obtain path where path: "path_into (wk_garbage wk) (r_heap st) task = Some path"
    using path_into_total by blast
  from ok obtain d where d: "r_heap st task = Some d" by (auto simp: scan_ok_def)
  let ?dp = "if opt_verbose (wk_options wk) then path else []"
  have body: "\<exists>stop st' w'. scan_entry wk task ?dp v st w = Some (stop, st', w') \<and> scan_ok task st' \<and> m w' \<le> m w"
    if "scan_ok task st" for v st w
    using scan_entry_passes [OF assms(3) that] by (auto simp: passes_def)
  obtain st' w' where r: "dir_for_each (wk_sys wk) (dn_fd d) k_default_dir_buffer_bytes
      (scan_entry wk task ?dp) st w = Some (st', w')"
    using dir_for_each_total [where P = "\<lambda>st w. scan_ok task st" and m = m, OF assms(1,2) ok] body by blast
  have "scan_ok task st'"
    by (rule dir_for_each_invariant [where P = "\<lambda>st w. scan_ok task st", OF r ok])
      (use body in \<open>metis option.inject prod.inject\<close>)+
  with r path d show ?thesis by (cases "opt_verbose (wk_options wk)") (simp_all add: scan_def)
qed

lemma process_unopenable_total:
  assumes upto: "heap_ok_upto (r_heap st) task" and d: "r_heap st task = Some d"
  shows "\<exists>st' w'. process_unopenable wk task err st w = Some (st', w')"
proof -
  from path_into_total [OF upto] d obtain path where
    path: "path_into (wk_garbage wk) (r_heap st) task = Some path" by auto
  have "\<exists>report st2 w2. unopenable_fails wk task st w = Some (report, st2, w2) \<and> r_heap st2 = r_heap st"
    using remove_empty_logged_total [of st task wk w] upto d by (auto simp: unopenable_fails_def)
  then obtain report st2 w2 where u: "unopenable_fails wk task st w = Some (report, st2, w2)"
    and h2: "r_heap st2 = r_heap st" by blast
  have "\<exists>st3. (if report then report_unopenable wk task err st2 else Some st2) = Some st3 \<and> r_heap st3 = r_heap st"
    using path h2 by (simp add: report_unopenable_def)
  then obtain st3 where r: "(if report then report_unopenable wk task err st2 else Some st2) = Some st3"
    and h3: "r_heap st3 = r_heap st" by blast
  obtain st4 w4 where del: "delete_dir_node wk task d st3 w2 = (st4, w4)" by fastforce
  then have h4: "r_heap st4 = (r_heap st)(task := None)"
    using h3 by (auto simp: delete_dir_node_def split: prod.splits)
  have "\<exists>st' w'. delete_unopened wk task st3 w2 = Some (st', w')"
  proof (cases "dn_parent d")
    case None
    with d del h3 show ?thesis by (simp add: delete_unopened_def)
  next
    case (Some q)
    from heap_ok_upto_delete [OF upto d Some] maybe_cleanup_total [of st4 q wk w4]
    have "\<exists>st' w'. maybe_cleanup wk (Some q) st4 w4 = Some (st', w')"
      by (auto simp: h4 split: if_splits)
    with d del h3 Some show ?thesis by (simp add: delete_unopened_def)
  qed
  with u r show ?thesis by (simp add: process_unopenable_def Let_def)
qed

text \<open>
  A call of \<open>Process\<close> on a live node of a well-formed heap always returns: it never
  follows a dangling pointer or reads outside a block of records, and it terminates, as long
  as the listing of the directory does.
\<close>

theorem process_total:
  assumes "records_advance (wk_sys wk)" and "listing_bound (wk_sys wk) m" and "calls_keep (wk_sys wk) m"
    and "run_ok st" and "r_heap st task \<noteq> None"
  shows "\<exists>st' w'. process wk task st w = Some (st', w')"
proof -
  obtain d where d: "r_heap st task = Some d" using assms(5) by blast
  have upto: "heap_ok_upto (r_heap st) task" using assms(4) heap_ok_upto by (simp add: run_ok_def)
  from path_into_total [OF upto assms(5)] obtain path where
    "path_into (wk_garbage wk) (r_heap st) task = Some path" by blast
  with d have "\<exists>res h p w1. dir_node_open (wk_sys wk) (wk_garbage wk) task (r_heap st) (r_pool st) w = Some (res, h, p, w1)"
    by (simp add: dir_node_open_def split: prod.split sum.split)
  then obtain res h p w1 where
    o: "dir_node_open (wk_sys wk) (wk_garbage wk) task (r_heap st) (r_pool st) w = Some (res, h, p, w1)" by blast
  let ?st1 = "st\<lparr>r_heap := h, r_pool := p\<rparr>"
  show ?thesis
    using dir_node_open_shape [OF o]
  proof (elim disjE exE conjE)
    fix err
    assume "res = Inl err" and "h = r_heap st"
    with o process_unopenable_total [of ?st1 task d wk err w1] upto d show ?thesis by (auto simp: process_def Let_def)
  next
    fix d0 f
    assume res: "res = Inr ()" and d0: "r_heap st task = Some d0"
      and h: "h = (r_heap st)(task \<mapsto> d0\<lparr>dn_fd := f\<rparr>)"
    have "heap_ok h"
      using assms(4) d0 unfolding h run_ok_def heap_ok_def by (auto split: if_splits)
    then have "scan_ok task ?st1" using assms(4,5) by (auto simp: scan_ok_def run_ok_def h)
    from scan_total [OF assms(1-3) this, of w1] obtain st2 w2 where
      sc: "scan wk task ?st1 w1 = Some (st2, w2)" and ok2: "scan_ok task st2" by blast
    obtain d2 where d2: "r_heap st2 task = Some d2" using ok2 by (auto simp: scan_ok_def)
    obtain f2 p2 w3 where cl: "fd_close (wk_sys wk) (dn_fd d2) (r_pool st2) w2 = (f2, p2, w3)" by (metis prod_cases3)
    let ?st3 = "st2\<lparr>r_heap := (r_heap st2)(task \<mapsto> d2\<lparr>dn_fd := f2\<rparr>), r_pool := p2\<rparr>"
    have "heap_ok_upto (r_heap ?st3) task"
      using ok2 d2 heap_ok_upto heap_ok_upto_update [of "r_heap st2" task task d2] by (auto simp: scan_ok_def run_ok_def)
    from maybe_cleanup_total [OF this, of wk w3] o res sc d2 cl show ?thesis
      by (simp add: process_def Let_def)
  qed
qed

theorem process_total_witness:
  "\<exists>st' w'. process example_worker 0 example_run () = Some (st', w')"
proof (rule process_total [where m = "\<lambda>_. 0"])
  show "records_advance (wk_sys example_worker)"
    by (simp add: records_advance_def example_worker_def null_sys_def)
  show "listing_bound (wk_sys example_worker) (\<lambda>_. 0)"
    by (simp add: listing_bound_def example_worker_def null_sys_def)
  show "calls_keep (wk_sys example_worker) (\<lambda>_. 0)" by (simp add: calls_keep_def)
  show "run_ok example_run" using example_run_ok by (auto simp: run_ok_def) (simp add: example_run_def split: if_splits)
  show "r_heap example_run 0 \<noteq> None" by (simp add: example_run_def)
qed

end
