(* ===== verification/Readers.thy ===== *)
theory Readers
  imports Os
begin

section \<open>Readers\<close>

text \<open>
  \<open>FdReader\<close>, \<open>BufferedReader\<close> and the reader of standard input. A reader is its \<open>Read\<close>: a
  function of the number of bytes asked for and of its state that returns the bytes it got;
  \<^const>\<open>None\<close> is a call that does not return.
\<close>

type_synonym 's read_result = "((string, errc) expected \<times> 's) option"

subsection \<open>The interface\<close>

text \<open>
  \<open>unread\<close> is what will still be read before the input ends or a call fails. A call takes a
  beginning of it, not more than it was asked for, and nothing only at the end; and a call that
  fails does so when nothing is left of it. What comes after the failure is not described.
\<close>

locale reader =
  fixes read :: "nat \<Rightarrow> 's \<Rightarrow> 's read_result"
    and unread :: "'s \<Rightarrow> string"
    and inv :: "'s \<Rightarrow> bool"
  assumes read_ok: "inv s \<Longrightarrow> 0 < n \<Longrightarrow> read n s = Some (Inr d, s') \<Longrightarrow>
      length d \<le> n \<and> unread s = d @ unread s' \<and> (d = [] \<longrightarrow> unread s = [])"
    and read_failed: "inv s \<Longrightarrow> 0 < n \<Longrightarrow> read n s = Some (Inl e, s') \<Longrightarrow> unread s = []"
    and inv_kept: "inv s \<Longrightarrow> 0 < n \<Longrightarrow> read n s = Some (r, s') \<Longrightarrow> inv s'"

text \<open>A reader whose calls return.\<close>

locale returning_reader = reader +
  assumes returns: "inv s \<Longrightarrow> 0 < n \<Longrightarrow> \<exists>res. read n s = Some res"

subsection \<open>\<open>FdReader\<close>\<close>

partial_function (option) fdr_read :: "'w sys \<Rightarrow> int \<Rightarrow> nat \<Rightarrow> 'w \<Rightarrow> 'w read_result" where
  "fdr_read sys d n w =
     (case sys_read sys d n w of
        (Inr got, w) \<Rightarrow> Some (Inr got, w)
      | (Inl e, w) \<Rightarrow> if e \<noteq> EINTR then Some (Inl e, w) else fdr_read sys d n w)"

text \<open>
  The documented behaviour of \<open>read\<close> on a descriptor: \<open>input\<close> is what it still gives before
  the end of the file or the first error that is not an interruption. An interrupted call
  takes nothing. So a descriptor that is closed gives the empty input, and one that fails
  halfway gives what comes before the failure. And interruptions come to an end.
\<close>

definition reads_stream :: "'w sys \<Rightarrow> int \<Rightarrow> ('w \<Rightarrow> string) \<Rightarrow> bool" where
  "reads_stream sys d input \<longleftrightarrow>
     (\<forall>n w r w'. 0 < n \<longrightarrow> sys_read sys d n w = (r, w') \<longrightarrow>
        (case r of
           Inl e \<Rightarrow> if e = EINTR then input w' = input w else input w = []
         | Inr got \<Rightarrow> length got \<le> n \<and> input w = got @ input w' \<and> (got = [] \<longrightarrow> input w = [])))"

definition read_interruptions_end :: "'w sys \<Rightarrow> int \<Rightarrow> ('w \<Rightarrow> nat) \<Rightarrow> bool" where
  "read_interruptions_end sys d m \<longleftrightarrow>
     (\<forall>n w w'. sys_read sys d n w = (Inl EINTR, w') \<longrightarrow> m w' < m w)"

text \<open>A descriptor that is not open: every call fails.\<close>

lemma closed_reads_nothing:
  assumes "\<And>n w. \<exists>w'. sys_read sys d n w = (Inl e, w')" and "e \<noteq> EINTR"
  shows "reads_stream sys d (\<lambda>_. [])" and "read_interruptions_end sys d m"
proof -
  have r: "r = Inl e" if "sys_read sys d n w = (r, w')" for n w r w'
    using assms(1) [of n w] that by auto
  show "reads_stream sys d (\<lambda>_. [])" unfolding reads_stream_def using r assms(2) by (auto dest!: r)
  show "read_interruptions_end sys d m" unfolding read_interruptions_end_def using assms(2) by (auto dest: r)
qed

lemma fdr_read_stream:
  assumes run: "fdr_read sys d n w = Some res" and str: "reads_stream sys d input" and "0 < n"
  shows "case fst res of
      Inl e \<Rightarrow> input w = [] \<and> e \<noteq> EINTR
    | Inr got \<Rightarrow> length got \<le> n \<and> input w = got @ input (snd res) \<and> (got = [] \<longrightarrow> input w = [])"
proof -
  let ?ok = "\<lambda>w res. case fst res of
      Inl e \<Rightarrow> input w = [] \<and> e \<noteq> EINTR
    | Inr got \<Rightarrow> length got \<le> n \<and> input w = got @ input (snd res) \<and> (got = [] \<longrightarrow> input w = [])"
  have "sys = sys \<and> d = d \<and> n = n \<longrightarrow> ?ok w res"
  proof (rule fdr_read.raw_induct [where P = "\<lambda>sys0 d0 n0 w res. sys0 = sys \<and> d0 = d \<and> n0 = n \<longrightarrow> ?ok w res",
        OF _ run], intro impI, elim conjE)
    fix rd :: "'a sys \<Rightarrow> int \<Rightarrow> nat \<Rightarrow> 'a \<Rightarrow> 'a read_result" and sys0 d0 n0 w res
    assume IH: "\<And>sys0 d0 n0 w res. rd sys0 d0 n0 w = Some res \<Longrightarrow>
          sys0 = sys \<and> d0 = d \<and> n0 = n \<longrightarrow> ?ok w res"
      and run: "(case sys_read sys0 d0 n0 w of
          (Inl e, w) \<Rightarrow> if e \<noteq> EINTR then Some (Inl e, w) else rd sys0 d0 n0 w
        | (Inr got, w) \<Rightarrow> Some (Inr got, w)) = Some res"
      and s: "sys0 = sys" "d0 = d" "n0 = n"
    obtain ans w1 where call: "sys_read sys d n w = (ans, w1)" by fastforce
    have law: "case ans of
         Inl e \<Rightarrow> if e = EINTR then input w1 = input w else input w = []
       | Inr got \<Rightarrow> length got \<le> n \<and> input w = got @ input w1 \<and> (got = [] \<longrightarrow> input w = [])"
      using str call assms(3) unfolding reads_stream_def by blast
    show "?ok w res"
    proof (cases ans)
      case (Inr got)
      with run call s have "res = (Inr got, w1)" by simp
      with law Inr show ?thesis by auto
    next
      case (Inl e)
      show ?thesis
      proof (cases "e = EINTR")
        case True
        with run call s Inl have "rd sys d n w1 = Some res" by simp
        from IH [OF this] law Inl True show ?thesis by (auto split: sum.splits)
      next
        case False
        with run call s Inl have "res = (Inl e, w1)" by simp
        with law Inl False show ?thesis by auto
      qed
    qed
  qed
  then show ?thesis by simp
qed

lemma fdr_read_total:
  assumes "read_interruptions_end sys d m"
  shows "\<exists>res. fdr_read sys d n w = Some res"
proof (induction "m w" arbitrary: w rule: less_induct)
  case less
  obtain ans w1 where call: "sys_read sys d n w = (ans, w1)" by fastforce
  show ?case
  proof (cases "ans = Inl EINTR")
    case True
    with assms call have "m w1 < m w" by (auto simp: read_interruptions_end_def)
    from less [OF this] call True show ?thesis by (subst fdr_read.simps) simp
  next
    case False
    with call show ?thesis by (subst fdr_read.simps) (auto split: sum.splits)
  qed
qed

interpretation fdr: returning_reader "fdr_read sys d" input
  "\<lambda>w. reads_stream sys d input \<and> read_interruptions_end sys d m" for sys d input m
  by unfold_locales (use fdr_read_stream [of sys d _ _ _ input] fdr_read_total [of sys d m] in fastforce)+

subsection \<open>\<open>BufferedReader\<close>\<close>

record 's buffered_reader =
  br_reader :: 's
  br_buf :: string
  br_capacity :: nat
  br_pos :: nat
  br_len :: nat

definition buffered_reader :: "nat \<Rightarrow> 's \<Rightarrow> 's buffered_reader" where
  "buffered_reader capacity r = \<lparr>br_reader = r, br_buf = [], br_capacity = capacity, br_pos = 0, br_len = 0\<rparr>"

definition br_move :: "'s buffered_reader \<Rightarrow> 's buffered_reader \<times> 's buffered_reader" where
  "br_move other = (other, other\<lparr>br_buf := [], br_pos := 0, br_len := 0\<rparr>)"

definition br_buffered :: "'s buffered_reader \<Rightarrow> string" where
  "br_buffered s = drop (br_pos s) (take (br_len s) (br_buf s))"

text \<open>The buffer is allocated by the first call, with whatever is in the memory.\<close>

definition br_fill :: "(nat \<Rightarrow> char) \<Rightarrow> (nat \<Rightarrow> 's \<Rightarrow> 's read_result) \<Rightarrow> 's buffered_reader
    \<Rightarrow> ((nat, errc) expected \<times> 's buffered_reader) option" where
  "br_fill garbage rd s =
     (let s = s\<lparr>br_pos := 0, br_len := 0\<rparr>;
          s = (if br_buf s = [] then s\<lparr>br_buf := map garbage [0..<br_capacity s]\<rparr> else s)
      in case rd (length (br_buf s)) (br_reader s) of
           None \<Rightarrow> None
         | Some (Inl e, r) \<Rightarrow> Some (Inl e, s\<lparr>br_reader := r\<rparr>)
         | Some (Inr got, r) \<Rightarrow> Some (Inr (length got),
             s\<lparr>br_reader := r, br_buf := copy_n got (br_buf s) 0, br_len := length got\<rparr>))"

definition br_take :: "nat \<Rightarrow> 's buffered_reader \<Rightarrow> string \<times> 's buffered_reader" where
  "br_take n s =
     (let taken = take (min n (length (br_buffered s))) (br_buffered s)
      in (taken, s\<lparr>br_pos := br_pos s + length taken\<rparr>))"

definition br_read :: "(nat \<Rightarrow> char) \<Rightarrow> (nat \<Rightarrow> 's \<Rightarrow> 's read_result) \<Rightarrow> nat \<Rightarrow> 's buffered_reader
    \<Rightarrow> 's buffered_reader read_result" where
  "br_read garbage rd n s =
     (if br_buffered s = [] then
        (if n \<ge> br_capacity s
         then map_option (\<lambda>(res, r). (res, s\<lparr>br_reader := r\<rparr>)) (rd n (br_reader s))
         else
           (case br_fill garbage rd s of
              None \<Rightarrow> None
            | Some (Inl e, s) \<Rightarrow> Some (Inl e, s)
            | Some (Inr filled, s) \<Rightarrow>
                if filled = 0 then Some (Inr [], s)
                else (case br_take n s of (taken, s) \<Rightarrow> Some (Inr taken, s))))
      else (case br_take n s of (taken, s) \<Rightarrow> Some (Inr taken, s)))"

definition br_read_byte :: "(nat \<Rightarrow> char) \<Rightarrow> (nat \<Rightarrow> 's \<Rightarrow> 's read_result) \<Rightarrow> 's buffered_reader
    \<Rightarrow> (char option \<times> 's buffered_reader) option" where
  "br_read_byte garbage rd s =
     (let next = (\<lambda>s. (Some (br_buf s ! br_pos s), s\<lparr>br_pos := br_pos s + 1\<rparr>))
      in if br_buffered s = [] then
           (case br_fill garbage rd s of
              None \<Rightarrow> None
            | Some (filled, s) \<Rightarrow> if value_or filled 0 = 0 then Some (None, s) else Some (next s))
         else Some (next s))"

partial_function (option) br_skip_past :: "(nat \<Rightarrow> char) \<Rightarrow> (nat \<Rightarrow> 's \<Rightarrow> 's read_result) \<Rightarrow> char
    \<Rightarrow> 's buffered_reader \<Rightarrow> (bool \<times> 's buffered_reader) option" where
  "br_skip_past garbage rd delim s =
     (let found = length (takeWhile (\<lambda>c. c \<noteq> delim) (br_buffered s))
      in if found \<noteq> length (br_buffered s) then Some (True, s\<lparr>br_pos := br_pos s + found + 1\<rparr>)
         else
           Option.bind (br_fill garbage rd s) (\<lambda>(filled, s).
             if value_or filled 0 = 0 then Some (False, s) else br_skip_past garbage rd delim s))"

text \<open>The invariant of the class.\<close>

definition br_ok :: "'s buffered_reader \<Rightarrow> bool" where
  "br_ok s \<longleftrightarrow> 0 < br_capacity s \<and> br_pos s \<le> br_len s \<and> br_len s \<le> length (br_buf s) \<and>
     (br_buf s = [] \<or> length (br_buf s) = br_capacity s)"

lemma br_buffered_length: "br_ok s \<Longrightarrow> length (br_buffered s) = br_len s - br_pos s"
  by (simp add: br_buffered_def br_ok_def)

lemma br_buffered_advance:
  "k \<le> length (br_buffered s) \<Longrightarrow> br_buffered (s\<lparr>br_pos := br_pos s + k\<rparr>) = drop k (br_buffered s)"
  by (simp add: br_buffered_def add.commute)

lemma br_ok_advance:
  "br_ok s \<Longrightarrow> k \<le> length (br_buffered s) \<Longrightarrow> br_ok (s\<lparr>br_pos := br_pos s + k\<rparr>)"
  using br_buffered_length [of s] by (auto simp: br_ok_def)

lemma br_first: "br_buffered s \<noteq> [] \<Longrightarrow> br_buf s ! br_pos s = hd (br_buffered s)"
  by (simp add: br_buffered_def hd_drop_conv_nth not_le)

lemma takeWhile_found:
  assumes "d \<notin> set xs \<Longrightarrow> takeWhile (\<lambda>x. x \<noteq> d) xs = xs \<Longrightarrow> P"
    and "\<And>skip rest. xs = skip @ d # rest \<Longrightarrow> d \<notin> set skip \<Longrightarrow> takeWhile (\<lambda>x. x \<noteq> d) xs = skip \<Longrightarrow> P"
  shows P
proof (cases "d \<in> set xs")
  case True
  from split_list_first [OF this] obtain skip rest where "xs = skip @ d # rest" "d \<notin> set skip" by blast
  then show ?thesis using assms(2) [of skip rest] by (simp add: takeWhile_append)
next
  case False
  with assms(1) show ?thesis by (auto simp: takeWhile_eq_all_conv)
qed

lemma br_skip_past_simps:
  "delim \<in> set (br_buffered s) \<Longrightarrow> br_skip_past g rd delim s =
     Some (True, s\<lparr>br_pos := br_pos s + Suc (length (takeWhile (\<lambda>c. c \<noteq> delim) (br_buffered s)))\<rparr>)"
  "delim \<notin> set (br_buffered s) \<Longrightarrow> br_skip_past g rd delim s =
     Option.bind (br_fill g rd s) (\<lambda>(filled, s).
       if value_or filled 0 = 0 then Some (False, s) else br_skip_past g rd delim s)"
proof -
  have *: "length (takeWhile (\<lambda>c. c \<noteq> delim) (br_buffered s)) \<noteq> length (br_buffered s) \<longleftrightarrow>
      delim \<in> set (br_buffered s)"
    by (metis (mono_tags, lifting) takeWhile_eq_all_conv append_take_drop_id length_takeWhile_le
        takeWhile_eq_take take_all_iff order_refl)
  show "delim \<in> set (br_buffered s) \<Longrightarrow> br_skip_past g rd delim s =
     Some (True, s\<lparr>br_pos := br_pos s + Suc (length (takeWhile (\<lambda>c. c \<noteq> delim) (br_buffered s)))\<rparr>)"
    by (subst br_skip_past.simps) (simp add: *)
  show "delim \<notin> set (br_buffered s) \<Longrightarrow> br_skip_past g rd delim s =
     Option.bind (br_fill g rd s) (\<lambda>(filled, s).
       if value_or filled 0 = 0 then Some (False, s) else br_skip_past g rd delim s)"
    using * by (subst br_skip_past.simps) simp
qed

subsection \<open>The input a buffered reader still holds or will get\<close>

locale buffered_reading = reader +
  fixes garbage :: "nat \<Rightarrow> char"
begin

definition input :: "'a buffered_reader \<Rightarrow> string" where
  "input s = br_buffered s @ unread (br_reader s)"

definition good :: "'a buffered_reader \<Rightarrow> bool" where
  "good s \<longleftrightarrow> br_ok s \<and> inv (br_reader s)"

text \<open>A fill drops what the buffer held, and neither loses nor invents other input.\<close>

lemma fill_input:
  assumes "good s" and "br_fill garbage read s = Some (filled, s')"
  shows "good s' \<and> br_capacity s' = br_capacity s \<and> (case filled of
      Inr got \<Rightarrow> input s = br_buffered s @ input s' \<and> length (br_buffered s') = got \<and> (got = 0 \<longrightarrow> input s' = [])
    | Inl e \<Rightarrow> input s = br_buffered s)"
proof -
  let ?s = "s\<lparr>br_pos := 0, br_len := 0\<rparr>"
  define t where "t = (if br_buf ?s = [] then ?s\<lparr>br_buf := map garbage [0..<br_capacity ?s]\<rparr> else ?s)"
  have t: "0 < br_capacity t" "length (br_buf t) = br_capacity t" "br_reader t = br_reader s" "br_pos t = 0"
    "br_len t = 0" "br_capacity t = br_capacity s"
    using assms(1) by (auto simp: t_def good_def br_ok_def)
  have i: "inv (br_reader s)" using assms(1) by (simp add: good_def)
  have pos: "0 < length (br_buf t)" using t by simp
  have "br_fill garbage read s = (case read (length (br_buf t)) (br_reader t) of
       None \<Rightarrow> None
     | Some (Inl e, r) \<Rightarrow> Some (Inl e, t\<lparr>br_reader := r\<rparr>)
     | Some (Inr got, r) \<Rightarrow> Some (Inr (length got),
         t\<lparr>br_reader := r, br_buf := copy_n got (br_buf t) 0, br_len := length got\<rparr>))"
    unfolding br_fill_def Let_def t_def by (rule refl)
  note fill = this [unfolded t(3)]
  from assms(2) obtain ans r where call: "read (length (br_buf t)) (br_reader s) = Some (ans, r)"
    unfolding fill by (cases "read (length (br_buf t)) (br_reader s)") auto
  note kept = inv_kept [OF i pos call]
  show ?thesis
  proof (cases ans)
    case (Inl e)
    with assms(2) call have "filled = Inl e" and s': "s' = t\<lparr>br_reader := r\<rparr>" by (auto simp: fill)
    moreover from read_failed [OF i pos call [unfolded Inl]] have "unread (br_reader s) = []" .
    ultimately show ?thesis using t kept by (auto simp: good_def br_ok_def input_def)
  next
    case (Inr got)
    with assms(2) call have f: "filled = Inr (length got)"
      and s': "s' = t\<lparr>br_reader := r, br_buf := copy_n got (br_buf t) 0, br_len := length got\<rparr>"
      by (auto simp: fill)
    note law = read_ok [OF i pos call [unfolded Inr]]
    then have len: "length (copy_n got (br_buf t) 0) = length (br_buf t)" by (simp add: length_copy_n)
    have b: "br_buffered s' = got" using s' t by (simp add: br_buffered_def copy_n_def)
    moreover have "good s'" using s' t kept law len by (simp add: good_def br_ok_def)
    ultimately show ?thesis using law f s' t by (auto simp: input_def)
  qed
qed

lemma take_input:
  assumes "good s" and "br_take n s = (taken, s')"
  shows "good s' \<and> length taken \<le> n \<and> input s = taken @ input s' \<and>
    (0 < n \<longrightarrow> br_buffered s \<noteq> [] \<longrightarrow> taken \<noteq> [])"
proof -
  let ?k = "min n (length (br_buffered s))"
  have s': "taken = take ?k (br_buffered s)" "s' = s\<lparr>br_pos := br_pos s + ?k\<rparr>"
    using assms(2) by (auto simp: br_take_def Let_def min_def)
  have "br_buffered s' = drop ?k (br_buffered s)" using br_buffered_advance [of ?k s] s' by simp
  moreover have "good s'" using assms(1) br_ok_advance [of s ?k] s' by (simp add: good_def)
  ultimately show ?thesis using s' by (auto simp: input_def)
qed

lemma read_byte_input:
  assumes "good s" and "br_read_byte garbage read s = Some (c, s')"
  shows "good s' \<and> br_capacity s' = br_capacity s \<and>
    (case c of None \<Rightarrow> input s = [] | Some c \<Rightarrow> input s = c # input s')"
proof -
  have step: "good (t\<lparr>br_pos := br_pos t + 1\<rparr>) \<and> input t = br_buf t ! br_pos t # input (t\<lparr>br_pos := br_pos t + 1\<rparr>)"
    if "good t" "br_buffered t \<noteq> []" for t :: "'a buffered_reader"
    using that br_first [of t] br_buffered_advance [of 1 t] br_ok_advance [of t 1]
    by (cases "br_buffered t") (simp_all add: good_def input_def)
  show ?thesis
  proof (cases "br_buffered s = []")
    case False
    with assms(2) have "c = Some (br_buf s ! br_pos s)" "s' = s\<lparr>br_pos := br_pos s + 1\<rparr>"
      by (auto simp: br_read_byte_def)
    with step [OF assms(1) False] show ?thesis by simp
  next
    case empty: True
    with assms(2) obtain filled t where f: "br_fill garbage read s = Some (filled, t)"
      and k: "(if value_or filled 0 = 0 then (None, t)
         else (Some (br_buf t ! br_pos t), t\<lparr>br_pos := br_pos t + 1\<rparr>)) = (c, s')"
      by (auto simp: br_read_byte_def split: option.splits if_splits)
    note fl = fill_input [OF assms(1) f]
    show ?thesis
    proof (cases "value_or filled 0 = 0")
      case True
      with fl k empty show ?thesis by (cases filled) auto
    next
      case False
      then obtain got where "filled = Inr got" "got \<noteq> 0" by (cases filled) auto
      with fl step [of t] k empty show ?thesis by (auto simp: input_def)
    qed
  qed
qed

lemma read_input:
  assumes "good s" and "0 < n" and "br_read garbage read n s = Some (r, s')"
  shows "good s' \<and> (case r of
      Inr got \<Rightarrow> length got \<le> n \<and> input s = got @ input s' \<and> (got = [] \<longrightarrow> input s = [])
    | Inl e \<Rightarrow> input s = [])"
proof (cases "br_buffered s = []")
  case False
  obtain taken t where tk: "br_take n s = (taken, t)" by fastforce
  with False assms(3) have "r = Inr taken" "s' = t" by (auto simp: br_read_def)
  with take_input [OF assms(1) tk] assms(2) False show ?thesis by auto
next
  case empty: True
  show ?thesis
  proof (cases "n \<ge> br_capacity s")
    case True
    from assms(3) empty True obtain r1 where call: "read n (br_reader s) = Some (r, r1)"
      and s': "s' = s\<lparr>br_reader := r1\<rparr>" by (auto simp: br_read_def)
    have i: "inv (br_reader s)" using assms(1) by (simp add: good_def)
    have "good s'" using assms(1) s' inv_kept [OF i assms(2) call] by (simp add: good_def br_ok_def)
    moreover have "br_buffered s' = []" using empty s' by (simp add: br_buffered_def)
    ultimately show ?thesis
      using call s' empty read_ok [OF i assms(2), of _ r1] read_failed [OF i assms(2), of _ r1]
      by (cases r) (auto simp: input_def)
  next
    case False
    with assms(3) empty obtain filled t where f: "br_fill garbage read s = Some (filled, t)"
      and k: "(case filled of
          Inl e \<Rightarrow> Some (Inl e, t)
        | Inr filled \<Rightarrow> if filled = 0 then Some (Inr [], t)
            else (case br_take n t of (taken, s) \<Rightarrow> Some (Inr taken, s))) = Some (r, s')"
      by (auto simp: br_read_def split: option.splits sum.splits)
    note fl = fill_input [OF assms(1) f]
    show ?thesis
    proof (cases filled)
      case (Inl e)
      with fl k empty show ?thesis by auto
    next
      case (Inr got)
      obtain taken u where tk: "br_take n t = (taken, u)" by fastforce
      with take_input [of t n taken u] fl k Inr assms(2) empty show ?thesis
        by (cases "got = 0") auto
    qed
  qed
qed

lemma skip_past_input:
  assumes run: "br_skip_past garbage read delim s = Some res" and "good s"
  shows "good (snd res) \<and> br_capacity (snd res) = br_capacity s \<and> (\<exists>skipped. delim \<notin> set skipped \<and>
    input s = (if fst res then skipped @ delim # input (snd res) else skipped))"
proof -
  let ?ok = "\<lambda>s res. good (snd res) \<and> br_capacity (snd res) = br_capacity s \<and> (\<exists>skipped. delim \<notin> set skipped \<and>
    input s = (if fst res then skipped @ delim # input (snd res) else skipped))"
  have "garbage = garbage \<and> read = read \<and> delim = delim \<and> good s \<longrightarrow> ?ok s res"
  proof (rule br_skip_past.raw_induct [where P = "\<lambda>g rd c s res. g = garbage \<and> rd = read \<and> c = delim \<and> good s \<longrightarrow> ?ok s res",
        OF _ run], intro impI, elim conjE)
    fix sk :: "(nat \<Rightarrow> char) \<Rightarrow> (nat \<Rightarrow> 'a \<Rightarrow> 'a read_result) \<Rightarrow> char \<Rightarrow> 'a buffered_reader
        \<Rightarrow> (bool \<times> 'a buffered_reader) option" and g rd c s res
    assume IH: "\<And>g rd c s res. sk g rd c s = Some res \<Longrightarrow>
          g = garbage \<and> rd = read \<and> c = delim \<and> good s \<longrightarrow> ?ok s res"
      and run: "(let found = length (takeWhile (\<lambda>x. x \<noteq> c) (br_buffered s))
          in if found \<noteq> length (br_buffered s) then Some (True, s\<lparr>br_pos := br_pos s + found + 1\<rparr>)
             else Option.bind (br_fill g rd s) (\<lambda>(filled, s).
               if value_or filled 0 = 0 then Some (False, s) else sk g rd c s)) = Some res"
      and eqs: "g = garbage" "rd = read" "c = delim" and g: "good s"
    show "?ok s res"
    proof (rule takeWhile_found [of delim "br_buffered s"])
      assume "delim \<notin> set (br_buffered s)"
        and all: "takeWhile (\<lambda>x. x \<noteq> delim) (br_buffered s) = br_buffered s"
      with run [unfolded eqs] have "Option.bind (br_fill garbage read s) (\<lambda>(filled, s).
          if value_or filled 0 = 0 then Some (False, s) else sk garbage read delim s) = Some res"
        by (simp add: Let_def)
      then obtain filled t where f: "br_fill garbage read s = Some (filled, t)"
        and k: "(if value_or filled 0 = 0 then Some (False, t) else sk garbage read delim t) = Some res"
        by (auto elim: bind_SomeE)
      note fl = fill_input [OF g f]
      show "?ok s res"
      proof (cases "value_or filled 0 = 0")
        case True
        with k have res: "res = (False, t)" by simp
        from True fl have "input s = br_buffered s" by (cases filled) (auto simp: input_def)
        with fl res \<open>delim \<notin> set (br_buffered s)\<close> show ?thesis by auto
      next
        case False
        with k have "sk garbage read delim t = Some res" by simp
        from IH [OF this] fl have t: "?ok t res" by blast
        then obtain skipped where "delim \<notin> set skipped"
          and "input t = (if fst res then skipped @ delim # input (snd res) else skipped)" by blast
        moreover from False fl have "input s = br_buffered s @ input t" by (cases filled) auto
        ultimately show ?thesis using t fl \<open>delim \<notin> set (br_buffered s)\<close>
          by (intro conjI exI [of _ "br_buffered s @ skipped"]) auto
      qed
    next
      fix skip rest
      assume b: "br_buffered s = skip @ delim # rest" "delim \<notin> set skip"
        and sk: "takeWhile (\<lambda>x. x \<noteq> delim) (br_buffered s) = skip"
      with run eqs have res: "res = (True, s\<lparr>br_pos := br_pos s + Suc (length skip)\<rparr>)"
        by (auto simp: Let_def)
      have lt: "Suc (length skip) \<le> length (br_buffered s)" using b by simp
      from res g b br_buffered_advance [OF lt] br_ok_advance [OF _ lt] show "?ok s res"
        by (auto simp: good_def input_def)
    qed
  qed
  with assms(2) show ?thesis by simp
qed

end

text \<open>A buffered reader over a reader is a reader.\<close>

sublocale buffered_reading \<subseteq> br: reader "br_read garbage read" input good
proof
  fix s s' :: "'a buffered_reader" and n :: nat and d r e
  assume i: "good s" "0 < n"
  show "br_read garbage read n s = Some (Inr d, s') \<Longrightarrow>
      length d \<le> n \<and> input s = d @ input s' \<and> (d = [] \<longrightarrow> input s = [])"
    using read_input [OF i, of "Inr d" s'] by auto
  show "br_read garbage read n s = Some (Inl e, s') \<Longrightarrow> input s = []"
    using read_input [OF i, of "Inl e" s'] by simp
  show "br_read garbage read n s = Some (r, s') \<Longrightarrow> good s'"
    using read_input [OF i, of r s'] by simp
qed

text \<open>Over a reader whose calls return, every call returns.\<close>

locale returning_buffered = buffered_reading + returning_reader
begin

lemma fill_returns: "good s \<Longrightarrow> \<exists>res. br_fill garbage read s = Some res"
proof -
  assume "good s"
  then have "\<exists>res. read (if br_buf s = [] then br_capacity s else length (br_buf s)) (br_reader s) = Some res"
    by (intro returns) (auto simp: good_def br_ok_def)
  then show ?thesis
    by (cases "br_buf s = []") (auto simp: br_fill_def Let_def split: sum.splits)
qed

lemma read_byte_returns: "good s \<Longrightarrow> \<exists>res. br_read_byte garbage read s = Some res"
  using fill_returns [of s] by (auto simp: br_read_byte_def)

lemma skip_past_returns: "good s \<Longrightarrow> \<exists>res. br_skip_past garbage read delim s = Some res"
proof (induction "length (unread (br_reader s))" arbitrary: s rule: less_induct)
  case less
  show ?case
  proof (cases "delim \<in> set (br_buffered s)")
    case True
    then show ?thesis by (auto simp: br_skip_past_simps)
  next
    case False
    obtain filled t where f: "br_fill garbage read s = Some (filled, t)"
      using fill_returns [OF less.prems] by auto
    note fl = fill_input [OF less.prems f]
    show ?thesis
    proof (cases "value_or filled 0 = 0")
      case True
      with False f show ?thesis by (auto simp: br_skip_past_simps)
    next
      case n: False
      with fl have "br_buffered t \<noteq> []" by (cases filled) auto
      moreover from fl n have "unread (br_reader s) = br_buffered t @ unread (br_reader t)"
        by (cases filled) (simp_all add: input_def)
      ultimately have "length (unread (br_reader t)) < length (unread (br_reader s))" by simp
      from less.hyps [OF this] fl n False f show ?thesis by (auto simp: br_skip_past_simps)
    qed
  qed
qed

end

text \<open>There the calls are the list operations on what is still to be read.\<close>

context returning_buffered
begin

lemma read_byte_scans:
  assumes "good s"
  obtains s' where "br_read_byte garbage read s = Some (if input s = [] then None else Some (hd (input s)), s')"
    and "good s'" and "input s \<noteq> [] \<longrightarrow> input s' = tl (input s)"
proof -
  obtain c s' where b: "br_read_byte garbage read s = Some (c, s')" using read_byte_returns [OF assms] by auto
  from read_byte_input [OF assms b] b show ?thesis
    by (intro that [of s']) (auto split: option.splits)
qed

lemma read_scans:
  assumes "good s" and "0 < n"
  obtains r s' where "br_read garbage read n s = Some (r, s')" and "good s'"
    and "case r of
        Inr got \<Rightarrow> length got \<le> n \<and> input s = got @ input s' \<and> (got = [] \<longleftrightarrow> input s = [])
      | Inl e \<Rightarrow> input s = []"
proof -
  have "\<exists>r s'. br_read garbage read n s = Some (r, s')"
  proof (cases "br_buffered s = [] \<and> n < br_capacity s")
    case True
    obtain filled t where f: "br_fill garbage read s = Some (filled, t)" using fill_returns [OF assms(1)] by auto
    with True show ?thesis by (auto simp: br_read_def split: prod.splits sum.splits)
  next
    case False
    obtain r s1 where "read n (br_reader s) = Some (r, s1)"
      using returns [of "br_reader s" n] assms by (auto simp: good_def)
    with False show ?thesis by (auto simp: br_read_def split: prod.splits)
  qed
  then obtain r s' where r: "br_read garbage read n s = Some (r, s')" by blast
  from read_input [OF assms r] r show ?thesis
    by (intro that [of r s']) (auto split: sum.splits)
qed

lemma skip_past_scans:
  assumes "good s"
  obtains s' where "br_skip_past garbage read delim s = Some (delim \<in> set (input s), s')" and "good s'"
    and "delim \<in> set (input s) \<longrightarrow> input s' = tl (dropWhile (\<lambda>c. c \<noteq> delim) (input s))"
proof -
  obtain r s' where b: "br_skip_past garbage read delim s = Some (r, s')"
    using skip_past_returns [OF assms, of delim] by auto
  from skip_past_input [OF b assms, unfolded fst_conv snd_conv] obtain skipped where
    g: "good s'" and nin: "delim \<notin> set skipped" and
    k: "input s = (if r then skipped @ delim # input s' else skipped)" by blast
  have "dropWhile (\<lambda>c. c \<noteq> delim) (skipped @ delim # xs) = delim # xs" for xs
    using nin by (subst dropWhile_append2) auto
  with b g nin k show ?thesis by (intro that [of s']) (auto split: if_splits)
qed

end

subsection \<open>Standard input\<close>

definition stdin_fileno :: int where "stdin_fileno = 0"

definition k_stdin_capacity :: nat where "k_stdin_capacity = 4096"

definition stdin_reader :: "'w \<Rightarrow> 'w buffered_reader" where
  "stdin_reader w = buffered_reader k_stdin_capacity w"

interpretation stdin: returning_buffered "fdr_read sys stdin_fileno" input
  "\<lambda>w. reads_stream sys stdin_fileno input \<and> read_interruptions_end sys stdin_fileno m" garbage for sys input m garbage
  by unfold_locales

definition unread_input :: "('w \<Rightarrow> string) \<Rightarrow> 'w buffered_reader \<Rightarrow> string" where
  "unread_input inp s = br_buffered s @ inp (br_reader s)"

lemma stdin_input: "stdin.input inp s = unread_input inp s"
  by (simp add: stdin.input_def unread_input_def)

lemma br_ok_buffered_reader: "0 < n \<Longrightarrow> br_ok (buffered_reader n r)"
  by (simp add: br_ok_def buffered_reader_def)

lemma unread_buffered_reader [simp]: "unread_input inp (buffered_reader n r) = inp r"
  by (simp add: unread_input_def buffered_reader_def br_buffered_def)

lemma stdin_read_byte:
  assumes "reads_stream sys stdin_fileno inp" and "read_interruptions_end sys stdin_fileno m" and "br_ok s"
  obtains s1 where "br_read_byte garbage (fdr_read sys stdin_fileno) s =
        Some (if unread_input inp s = [] then None else Some (hd (unread_input inp s)), s1)"
    and "br_ok s1" and "unread_input inp s \<noteq> [] \<longrightarrow> unread_input inp s1 = tl (unread_input inp s)"
proof -
  have g: "stdin.good sys inp m s" unfolding stdin.good_def using assms by simp
  show ?thesis
    by (rule stdin.read_byte_scans [OF g, of garbage])
      (rule that, simp_all add: stdin.good_def stdin_input)
qed

lemma stdin_skip_past:
  assumes "reads_stream sys stdin_fileno inp" and "read_interruptions_end sys stdin_fileno m" and "br_ok s"
  obtains s2 where "br_skip_past garbage (fdr_read sys stdin_fileno) delim s =
        Some (delim \<in> set (unread_input inp s), s2)"
    and "br_ok s2" and "delim \<in> set (unread_input inp s) \<longrightarrow>
      unread_input inp s2 = tl (dropWhile (\<lambda>c. c \<noteq> delim) (unread_input inp s))"
proof -
  have g: "stdin.good sys inp m s" unfolding stdin.good_def using assms by simp
  show ?thesis
    by (rule stdin.skip_past_scans [OF g, of garbage delim])
      (rule that, simp_all add: stdin.good_def stdin_input)
qed

text \<open>
  C30: on standard input, in any state the reader can be in and whatever \<open>read\<close> answers, errors
  included, as long as its interruptions come to an end. What is still to be read is what
  comes before the end of the file or the first error. \<open>ReadByte\<close> returns, with the next byte or,
  exactly when nothing is left, nothing; \<open>SkipPast\<close> returns, says whether the delimiter
  occurs in what is left and then leaves what comes after its first occurrence; \<open>Read\<close> returns
  the next bytes, at least one if any is left and not more than was asked for, or, only when
  nothing is left, an error. The sizes of the buffer and of the answers of \<open>read\<close> do not matter.
\<close>

theorem stdin_reader_scans_the_input:
  assumes "reads_stream sys stdin_fileno inp" and "read_interruptions_end sys stdin_fileno m"
    and "br_ok s" and "0 < n"
  shows "(\<exists>s1. br_read_byte garbage (fdr_read sys stdin_fileno) s =
        Some (if unread_input inp s = [] then None else Some (hd (unread_input inp s)), s1) \<and>
      br_ok s1 \<and> (unread_input inp s \<noteq> [] \<longrightarrow> unread_input inp s1 = tl (unread_input inp s))) \<and>
    (\<exists>s2. br_skip_past garbage (fdr_read sys stdin_fileno) delim s =
        Some (delim \<in> set (unread_input inp s), s2) \<and> br_ok s2 \<and>
      (delim \<in> set (unread_input inp s) \<longrightarrow>
        unread_input inp s2 = tl (dropWhile (\<lambda>c. c \<noteq> delim) (unread_input inp s)))) \<and>
    (\<exists>r s3. br_read garbage (fdr_read sys stdin_fileno) n s = Some (r, s3) \<and> br_ok s3 \<and> (case r of
        Inr got \<Rightarrow> length got \<le> n \<and> unread_input inp s = got @ unread_input inp s3 \<and>
          (got = [] \<longleftrightarrow> unread_input inp s = [])
      | Inl e \<Rightarrow> unread_input inp s = []))"
proof (intro conjI)
  have g: "stdin.good sys inp m s" unfolding stdin.good_def using assms by simp
  show "\<exists>s1. br_read_byte garbage (fdr_read sys stdin_fileno) s =
        Some (if unread_input inp s = [] then None else Some (hd (unread_input inp s)), s1) \<and>
      br_ok s1 \<and> (unread_input inp s \<noteq> [] \<longrightarrow> unread_input inp s1 = tl (unread_input inp s))"
    by (rule stdin_read_byte [OF assms(1-3), of garbage]) blast
  show "\<exists>s2. br_skip_past garbage (fdr_read sys stdin_fileno) delim s =
        Some (delim \<in> set (unread_input inp s), s2) \<and> br_ok s2 \<and>
      (delim \<in> set (unread_input inp s) \<longrightarrow>
        unread_input inp s2 = tl (dropWhile (\<lambda>c. c \<noteq> delim) (unread_input inp s)))"
    by (rule stdin_skip_past [OF assms(1-3), of garbage delim]) blast
  show "\<exists>r s3. br_read garbage (fdr_read sys stdin_fileno) n s = Some (r, s3) \<and> br_ok s3 \<and> (case r of
        Inr got \<Rightarrow> length got \<le> n \<and> unread_input inp s = got @ unread_input inp s3 \<and>
          (got = [] \<longleftrightarrow> unread_input inp s = [])
      | Inl e \<Rightarrow> unread_input inp s = [])"
    by (rule stdin.read_scans [OF g assms(4), of garbage, unfolded stdin_input stdin.good_def]) blast
qed

text \<open>
  The input is the world, given out two bytes at a time with an interruption before each call
  while the count lasts; then every call fails.
\<close>

definition trickle_sys :: "(string \<times> nat) sys" where
  "trickle_sys = null_sys\<lparr>sys_read := (\<lambda>d n (rest, k).
     if 0 < k then (Inl EINTR, (rest, k - 1))
     else if rest = [] then (Inl EIO, (rest, k))
     else (Inr (take (min 2 n) rest), (drop (min 2 n) rest, k)))\<rparr>"

lemma trickle_sys_facts:
  "reads_stream trickle_sys d fst" "read_interruptions_end trickle_sys d snd"
  by (auto simp: reads_stream_def read_interruptions_end_def trickle_sys_def split: if_splits)

theorem stdin_reader_scans_the_input_witness:
  "(\<exists>s1. br_read_byte (\<lambda>_. CHR 0x00) (fdr_read trickle_sys stdin_fileno) (stdin_reader (''no'', 2)) = Some (Some (CHR ''n''), s1) \<and>
      unread_input fst s1 = ''o'') \<and>
    (\<exists>s2. br_skip_past (\<lambda>_. CHR 0x00) (fdr_read trickle_sys stdin_fileno) (CHR 0x0A) (stdin_reader (''no'', 2)) = Some (False, s2)) \<and>
    (\<exists>r s3. br_read (\<lambda>_. CHR 0x00) (fdr_read trickle_sys stdin_fileno) 1 (stdin_reader (''no'', 2)) = Some (r, s3) \<and>
      (case r of Inr got \<Rightarrow> length got = 1 | Inl e \<Rightarrow> False))"
proof -
  let ?s = "stdin_reader (''no'', 2 :: nat)"
  have u: "unread_input fst ?s = ''no''" by (simp add: stdin_reader_def)
  have ok: "br_ok ?s" by (simp add: stdin_reader_def br_ok_buffered_reader k_stdin_capacity_def)
  note r = stdin_reader_scans_the_input [OF trickle_sys_facts ok, where n = 1 and delim = "CHR 0x0A" and
      garbage = "\<lambda>_. CHR 0x00", unfolded u]
  from r obtain r3 s3 where "br_read (\<lambda>_. CHR 0x00) (fdr_read trickle_sys stdin_fileno) 1 ?s = Some (r3, s3)"
    and "case r3 of Inr got \<Rightarrow> length got \<le> 1 \<and> ''no'' = got @ unread_input fst s3 \<and> (got = [] \<longleftrightarrow> ''no'' = [])
      | Inl e \<Rightarrow> ''no'' = []" by auto
  moreover from this(2) have "case r3 of Inr got \<Rightarrow> length got = 1 | Inl e \<Rightarrow> False"
    by (cases r3) (auto simp: le_Suc_eq)
  ultimately show ?thesis using r by auto
qed

end
