(* ===== verification/Writers.thy ===== *)
theory Writers
  imports Os
begin

section \<open>Writers\<close>

text \<open>
  \<open>cutils/io\<close>: the writer to a descriptor and its gathering loop, the buffered writer, the
  mutex around a writer, the reference to one, and what they are composed to: the standard
  error writer, and the concurrent writer behind standard output. A writer is the pair of
  its \<open>WriteMany\<close> and \<open>Flush\<close> on a state; \<^const>\<open>None\<close> is a call that does not return.
\<close>

type_synonym 's write_result = "((unit, errc) expected \<times> 's) option"

subsection \<open>The interface\<close>

text \<open>
  What a client of a writer relies on. \<open>stream\<close> is everything the writer has accepted, the
  bytes already sent first; a call that succeeds appends its pieces, a call that fails leaves
  a beginning of them behind whatever was sent before.
\<close>

locale writer =
  fixes write_many :: "string list \<Rightarrow> 's \<Rightarrow> 's write_result"
    and flush :: "'s \<Rightarrow> 's write_result"
    and sent :: "'s \<Rightarrow> string"
    and pending :: "'s \<Rightarrow> string"
    and inv :: "'s \<Rightarrow> bool"
  assumes write_ok: "inv s \<Longrightarrow> write_many ps s = Some (Inr (), s') \<Longrightarrow>
      sent s' @ pending s' = sent s @ pending s @ concat ps"
    and write_failed: "inv s \<Longrightarrow> write_many ps s = Some (Inl e, s') \<Longrightarrow>
      \<exists>k. sent s' @ pending s' = sent s @ take k (pending s @ concat ps)"
    and flush_ok: "inv s \<Longrightarrow> flush s = Some (Inr (), s') \<Longrightarrow> sent s' @ pending s' = sent s @ pending s"
    and flush_failed: "inv s \<Longrightarrow> flush s = Some (Inl e, s') \<Longrightarrow>
      \<exists>k. sent s' @ pending s' = sent s @ take k (pending s)"
    and sent_grows: "inv s \<Longrightarrow> write_many ps s = Some (r, s') \<Longrightarrow> prefix (sent s) (sent s')"
      "inv s \<Longrightarrow> flush s = Some (r, s') \<Longrightarrow> prefix (sent s) (sent s')"
    and inv_kept: "inv s \<Longrightarrow> write_many ps s = Some (r, s') \<Longrightarrow> inv s'"
      "inv s \<Longrightarrow> flush s = Some (r, s') \<Longrightarrow> inv s'"

text \<open>A writer whose \<open>Flush\<close> leaves nothing behind.\<close>

locale draining_writer = writer +
  assumes drained: "inv s \<Longrightarrow> flush s = Some (Inr (), s') \<Longrightarrow> pending s' = []"

text \<open>A writer that keeps nothing to itself.\<close>

locale unbuffered_writer = writer +
  assumes nothing_pending: "inv s \<Longrightarrow> pending s = []"

sublocale unbuffered_writer \<subseteq> draining_writer
  by unfold_locales (rule nothing_pending [OF inv_kept(2)])

text \<open>\<open>Write\<close> of every writer of the directory.\<close>

definition write_one :: "(string list \<Rightarrow> 's \<Rightarrow> 's write_result) \<Rightarrow> string \<Rightarrow> 's
    \<Rightarrow> ((nat, errc) expected \<times> 's) option" where
  "write_one write_many sv s =
     (case write_many [sv] s of
        None \<Rightarrow> None
      | Some (Inl e, s) \<Rightarrow> Some (Inl e, s)
      | Some (Inr _, s) \<Rightarrow> Some (Inr (length sv), s))"

text \<open>A series of calls, each of which must succeed.\<close>

fun write_all :: "(string list \<Rightarrow> 's \<Rightarrow> 's write_result) \<Rightarrow> string list list \<Rightarrow> 's \<Rightarrow> 's option" where
  "write_all write_many [] s = Some s"
| "write_all write_many (ps # pss) s =
     (case write_many ps s of
        Some (Inr _, s) \<Rightarrow> write_all write_many pss s
      | _ \<Rightarrow> None)"

context writer
begin

lemma write_all_stream:
  "write_all write_many pss s = Some s' \<Longrightarrow> inv s \<Longrightarrow>
     inv s' \<and> sent s' @ pending s' = sent s @ pending s @ concat (map concat pss)"
proof (induction pss arbitrary: s)
  case (Cons ps pss)
  from Cons.prems(1) obtain u s1 where w: "write_many ps s = Some (Inr u, s1)"
    and r: "write_all write_many pss s1 = Some s'" by (auto split: option.splits sum.splits)
  from w have w': "write_many ps s = Some (Inr (), s1)" by simp
  from Cons.IH [OF r inv_kept(1) [OF Cons.prems(2) w']] write_ok [OF Cons.prems(2) w']
  show ?case by simp
qed simp

lemma write_all_grows: "write_all write_many pss s = Some s' \<Longrightarrow> inv s \<Longrightarrow> prefix (sent s) (sent s')"
proof (induction pss arbitrary: s)
  case (Cons ps pss)
  then obtain r s1 where w: "write_many ps s = Some (r, s1)" and k: "write_all write_many pss s1 = Some s'"
    by (auto split: option.splits sum.splits)
  from sent_grows(1) [OF Cons.prems(2) w] Cons.IH [OF k inv_kept(1) [OF Cons.prems(2) w]]
  show ?case by (rule prefix_order.trans)
qed simp

lemma write_one_ok:
  "inv s \<Longrightarrow> write_one write_many sv s = Some (Inr n, s') \<Longrightarrow>
     n = length sv \<and> sent s' @ pending s' = sent s @ pending s @ sv"
  using write_ok [of s "[sv]"] by (auto simp: write_one_def split: option.splits sum.splits)

end

context draining_writer
begin

lemma write_all_flush:
  assumes "write_all write_many pss s = Some s1" and "flush s1 = Some (Inr (), s')" and "inv s"
  shows "sent s' = sent s @ pending s @ concat (map concat pss)"
  using write_all_stream [OF assms(1,3)] flush_ok [OF _ assms(2)] drained [OF _ assms(2)] by simp

end

subsection \<open>The writer to a descriptor\<close>

definition k_max_pieces :: nat where "k_max_pieces = 64"
definition k_max_batch_bytes :: nat where "k_max_batch_bytes = 2 ^ 31 - 1"

text \<open>
  Filling the array of \<open>iovec\<close>s: \<open>rest\<close> is what is left of the piece at hand, \<open>it\<close> the pieces
  after it.
\<close>

function gather :: "string list \<Rightarrow> string \<Rightarrow> string list \<Rightarrow> string list \<times> string \<times> string list" where
  "gather iov rest it =
     (if length iov < k_max_pieces \<and> length (concat iov) < k_max_batch_bytes then
        (if rest = [] then
           (case it of [] \<Rightarrow> (iov, rest, it) | p # it \<Rightarrow> gather iov p it)
         else
           (let n = min (length rest) (k_max_batch_bytes - length (concat iov))
            in gather (iov @ [take n rest]) (drop n rest) it))
      else (iov, rest, it))"
  by pat_completeness auto
termination
  by (relation "measures [\<lambda>(iov, rest, it). length it, \<lambda>(iov, rest, it). length rest]") auto

declare gather.simps [simp del]

text \<open>Dropping what was written from the front of a batch.\<close>

fun consume :: "nat \<Rightarrow> string list \<Rightarrow> string list" where
  "consume n [] = []"
| "consume n (p # ps) = (if n \<ge> length p then consume (n - length p) ps else drop n p # ps)"

partial_function (option) write_batch ::
  "'w sys \<Rightarrow> int \<Rightarrow> string list \<Rightarrow> 'w \<Rightarrow> ((unit, errc) expected \<times> 'w) option" where
  "write_batch sys d batch w =
     (if batch = [] then Some (Inr (), w)
      else
        (case sys_writev sys d batch w of
           (Inl e, w) \<Rightarrow> if e = EINTR then write_batch sys d batch w else Some (Inl e, w)
         | (Inr n, w) \<Rightarrow> if n = 0 then Some (Inl EIO, w) else write_batch sys d (consume n batch) w))"

partial_function (option) write_pieces ::
  "'w sys \<Rightarrow> int \<Rightarrow> string \<Rightarrow> string list \<Rightarrow> 'w \<Rightarrow> ((unit, errc) expected \<times> 'w) option" where
  "write_pieces sys d rest it w =
     (case gather [] rest it of (batch, rest, it) \<Rightarrow>
        if batch = [] then Some (Inr (), w)
        else Option.bind (write_batch sys d batch w) (\<lambda>(r, w).
          case r of Inl e \<Rightarrow> Some (Inl e, w) | Inr _ \<Rightarrow> write_pieces sys d rest it w))"

text \<open>
  A \<open>BasicFdWriter\<close> holds nothing but its descriptor; what it changes is the world.
\<close>

definition fdw_write_many :: "'w sys \<Rightarrow> int \<Rightarrow> string list \<Rightarrow> 'w \<Rightarrow> 'w write_result" where
  "fdw_write_many sys d ps w = write_pieces sys d [] ps w"

definition fdw_flush :: "'w \<Rightarrow> 'w write_result" where
  "fdw_flush w = Some (Inr (), w)"

text \<open>
  The documented behaviour of \<open>writev\<close> on what the code passes, at most \<open>IOV_MAX\<close> pieces of
  at most \<open>INT_MAX\<close> bytes: it appends a beginning of the pieces to what the descriptor
  received, as long as the number it returns, or nothing when it fails.
\<close>

definition batch_ok :: "string list \<Rightarrow> bool" where
  "batch_ok ps \<longleftrightarrow> length ps \<le> k_max_pieces \<and> length (concat ps) \<le> k_max_batch_bytes \<and> [] \<notin> set ps"

definition writev_appends :: "'w sys \<Rightarrow> int \<Rightarrow> ('w \<Rightarrow> string) \<Rightarrow> bool" where
  "writev_appends sys d sink \<longleftrightarrow>
     (\<forall>ps w r w'. batch_ok ps \<longrightarrow> ps \<noteq> [] \<longrightarrow> sys_writev sys d ps w = (r, w') \<longrightarrow>
        (case r of
           Inl e \<Rightarrow> sink w' = sink w
         | Inr n \<Rightarrow> n \<le> length (concat ps) \<and> sink w' = sink w @ take n (concat ps)))"

text \<open>Interruptions come to an end: each one uses up some of \<open>m\<close>.\<close>

definition interruptions_end :: "'w sys \<Rightarrow> int \<Rightarrow> ('w \<Rightarrow> nat) \<Rightarrow> bool" where
  "interruptions_end sys d m \<longleftrightarrow>
     (\<forall>ps w w'. sys_writev sys d ps w = (Inl EINTR, w') \<longrightarrow> m w' < m w)"

lemma writev_appendsD:
  assumes "writev_appends sys d sink" and "batch_ok ps" and "ps \<noteq> []"
  shows "sys_writev sys d ps w = (Inl e, w') \<Longrightarrow> sink w' = sink w"
    and "sys_writev sys d ps w = (Inr n, w') \<Longrightarrow> n \<le> length (concat ps)"
    and "sys_writev sys d ps w = (Inr n, w') \<Longrightarrow> sink w' = sink w @ take n (concat ps)"
  using assms unfolding writev_appends_def by fastforce+

subsection \<open>What a batch holds\<close>

lemma gather_content:
  "gather iov rest it = (iov', rest', it') \<Longrightarrow>
     concat iov' @ rest' @ concat it' = concat iov @ rest @ concat it"
proof (induction iov rest it rule: gather.induct)
  case (1 iov rest it)
  show ?case
  proof (cases "length iov < k_max_pieces \<and> length (concat iov) < k_max_batch_bytes")
    case False
    with 1(3) show ?thesis by (simp add: gather.simps [of iov])
  next
    case room: True
    show ?thesis
    proof (cases "rest = []")
      case True
      with 1 room show ?thesis by (cases it) (simp_all add: gather.simps [of iov])
    next
      case False
      with 1(2) [OF room False refl] 1(3) room show ?thesis
        by (simp add: gather.simps [of iov] Let_def)
    qed
  qed
qed

lemma gather_bounds:
  "gather iov rest it = (iov', rest', it') \<Longrightarrow> batch_ok iov \<Longrightarrow> batch_ok iov'"
proof (induction iov rest it rule: gather.induct)
  case (1 iov rest it)
  show ?case
  proof (cases "length iov < k_max_pieces \<and> length (concat iov) < k_max_batch_bytes")
    case False
    with 1 show ?thesis by (simp add: gather.simps [of iov])
  next
    case room: True
    show ?thesis
    proof (cases "rest = []")
      case True
      with 1 room show ?thesis by (cases it) (simp_all add: gather.simps [of iov])
    next
      case False
      let ?n = "min (length rest) (k_max_batch_bytes - length (concat iov))"
      have "take ?n rest \<noteq> []" using False room by auto
      moreover have "length (concat iov) + ?n \<le> k_max_batch_bytes" using room by (auto simp: min_def)
      ultimately have "batch_ok (iov @ [take ?n rest])" using 1(4) room by (simp add: batch_ok_def)
      with 1(2) [OF room False refl] 1(3) room False show ?thesis
        by (simp add: gather.simps [of iov] Let_def)
    qed
  qed
qed

text \<open>A batch is empty only when there is nothing left to write.\<close>

lemma gather_stops:
  "gather iov rest it = (iov', rest', it') \<Longrightarrow> iov' = [] \<Longrightarrow> iov = [] \<and> rest' = [] \<and> it' = []"
proof (induction iov rest it rule: gather.induct)
  case (1 iov rest it)
  show ?case
  proof (cases "length iov < k_max_pieces \<and> length (concat iov) < k_max_batch_bytes")
    case False
    with 1(3) have "iov' = iov" by (simp add: gather.simps [of iov])
    with 1(4) False show ?thesis by (simp add: k_max_pieces_def k_max_batch_bytes_def)
  next
    case room: True
    show ?thesis
    proof (cases "rest = []")
      case True
      with 1 room show ?thesis by (cases it) (simp_all add: gather.simps [of iov])
    next
      case False
      with 1(2) [OF room False refl] 1(3,4) room False show ?thesis
        by (simp add: gather.simps [of iov] Let_def)
    qed
  qed
qed

lemma concat_consume: "concat (consume n ps) = drop n (concat ps)"
  by (induction n ps rule: consume.induct) auto

lemma set_consume: "[] \<notin> set ps \<Longrightarrow> [] \<notin> set (consume n ps)"
  by (induction n ps rule: consume.induct) auto

lemma length_consume: "length (consume n ps) \<le> length ps"
  by (induction n ps rule: consume.induct) (auto intro: le_SucI)

lemma batch_ok_consume: "batch_ok ps \<Longrightarrow> batch_ok (consume n ps)"
  using length_consume [of n ps]
  by (auto simp: batch_ok_def concat_consume set_consume intro: order_trans)

lemma batch_ok_Nil: "batch_ok []"
  by (simp add: batch_ok_def)

lemma concat_nonempty: "batch_ok ps \<Longrightarrow> ps \<noteq> [] \<Longrightarrow> concat ps \<noteq> []"
  by (cases ps) (auto simp: batch_ok_def)

subsection \<open>Writing a batch, and all of them\<close>

text \<open>
  What a call leaves on the descriptor: everything on success, a beginning on an error.
\<close>

definition appended :: "('w \<Rightarrow> string) \<Rightarrow> 'w \<Rightarrow> string \<Rightarrow> (unit, errc) expected \<Rightarrow> 'w \<Rightarrow> bool" where
  "appended sink w bytes r w' \<longleftrightarrow>
     (case r of
        Inr _ \<Rightarrow> sink w' = sink w @ bytes
      | Inl e \<Rightarrow> (\<exists>k. sink w' = sink w @ take k bytes))"

lemma appended_after:
  assumes "appended sink w1 (drop n bytes) r w'" and "sink w1 = sink w @ take n bytes" and "n \<le> length bytes"
  shows "appended sink w bytes r w'"
proof (cases r)
  case (Inl e)
  with assms(1) obtain k where "sink w' = sink w1 @ take k (drop n bytes)" by (auto simp: appended_def)
  with assms(2) have "sink w' = sink w @ take (n + k) bytes" by (simp add: take_add)
  with Inl show ?thesis by (auto simp: appended_def)
next
  case (Inr u)
  with assms show ?thesis by (simp add: appended_def)
qed

lemma appended_then:
  assumes "appended sink w a (Inr u) w1" and "appended sink w1 b r w'"
  shows "appended sink w (a @ b) r w'"
  by (rule appended_after [of _ w1 "length a"]) (use assms in \<open>simp_all add: appended_def\<close>)

lemma appended_first: "appended sink w a (Inl e) w' \<Longrightarrow> appended sink w (a @ b) (Inl e) w'"
  unfolding appended_def sum.case
proof (elim exE)
  fix k assume "sink w' = sink w @ take k a"
  then have "sink w' = sink w @ take (min k (length a)) (a @ b)" by (simp add: min_def)
  then show "\<exists>k. sink w' = sink w @ take k (a @ b)" by blast
qed

lemma write_batch_appends:
  assumes run: "write_batch sys d batch w = Some res" and app: "writev_appends sys d sink"
    and "batch_ok batch"
  shows "appended sink w (concat batch) (fst res) (snd res)"
proof -
  have "sys = sys \<and> d = d \<and> batch_ok batch \<longrightarrow> appended sink w (concat batch) (fst res) (snd res)"
  proof (rule write_batch.raw_induct [where P = "\<lambda>sys0 d0 batch w res. sys0 = sys \<and> d0 = d \<and> batch_ok batch \<longrightarrow>
        appended sink w (concat batch) (fst res) (snd res)", OF _ run], intro impI, elim conjE)
    fix wb :: "'a sys \<Rightarrow> int \<Rightarrow> string list \<Rightarrow> 'a \<Rightarrow> ((unit, errc) expected \<times> 'a) option"
      and sys0 d0 batch w res
    assume IH: "\<And>sys0 d0 batch w res. wb sys0 d0 batch w = Some res \<Longrightarrow>
          sys0 = sys \<and> d0 = d \<and> batch_ok batch \<longrightarrow> appended sink w (concat batch) (fst res) (snd res)"
      and run: "(if batch = [] then Some (Inr (), w)
        else case sys_writev sys0 d0 batch w of
            (Inl e, w) \<Rightarrow> if e = EINTR then wb sys0 d0 batch w else Some (Inl e, w)
          | (Inr n, w) \<Rightarrow> if n = 0 then Some (Inl EIO, w) else wb sys0 d0 (consume n batch) w) = Some res"
      and s: "sys0 = sys" "d0 = d" and ok: "batch_ok batch"
    show "appended sink w (concat batch) (fst res) (snd res)"
    proof (cases "batch = []")
      case True
      with run show ?thesis by (auto simp: appended_def)
    next
      case False
      note D = writev_appendsD [OF app ok False]
      obtain ans w1 where call: "sys_writev sys d batch w = (ans, w1)" by fastforce
      show ?thesis
      proof (cases ans)
        case (Inl e)
        note same = D(1) [OF call [unfolded Inl]]
        show ?thesis
        proof (cases "e = EINTR")
          case True
          with run s call Inl False have "wb sys d batch w1 = Some res" by simp
          from IH [OF this] ok same show ?thesis by (simp add: appended_def split: sum.splits)
        next
          case False
          with run s call Inl \<open>batch \<noteq> []\<close> same show ?thesis
            by (auto simp: appended_def intro!: exI [of _ 0])
        qed
      next
        case (Inr n)
        note len = D(2) [OF call [unfolded Inr]] and snk = D(3) [OF call [unfolded Inr]]
        show ?thesis
        proof (cases "n = 0")
          case True
          with run s call Inr False snk show ?thesis
            by (auto simp: appended_def intro!: exI [of _ 0])
        next
          case n: False
          with run s call Inr False have "wb sys d (consume n batch) w1 = Some res" by simp
          from IH [OF this] ok have "appended sink w1 (drop n (concat batch)) (fst res) (snd res)"
            by (simp add: batch_ok_consume concat_consume)
          from appended_after [OF this snk len] show ?thesis .
        qed
      qed
    qed
  qed
  with assms(3) show ?thesis by simp
qed

lemma write_batch_total:
  assumes "writev_appends sys d sink" and "interruptions_end sys d m" and "batch_ok batch"
  shows "\<exists>res. write_batch sys d batch w = Some res"
  using assms(3)
proof (induction "(batch, w)" arbitrary: batch w
    rule: wf_induct_rule [OF wf_measures [of "[\<lambda>(b, w). length (concat b), \<lambda>(b, w). m w]"]])
  case (1 batch w)
  show ?case
  proof (cases "batch = []")
    case True
    then show ?thesis by (subst write_batch.simps) simp
  next
    case False
    note D = writev_appendsD [OF assms(1) 1(2) False]
    obtain ans w1 where call: "sys_writev sys d batch w = (ans, w1)" by fastforce
    show ?thesis
    proof (cases ans)
      case (Inl e)
      show ?thesis
      proof (cases "e = EINTR")
        case True
        with assms(2) call Inl have "m w1 < m w" by (auto simp: interruptions_end_def)
        with 1(1) [OF _ 1(2), of w1] True Inl call False show ?thesis by (subst write_batch.simps) simp
      next
        case e: False
        with Inl call False show ?thesis by (subst write_batch.simps) simp
      qed
    next
      case (Inr n)
      show ?thesis
      proof (cases "n = 0")
        case True
        with Inr call False show ?thesis by (subst write_batch.simps) simp
      next
        case n: False
        have "length (concat (consume n batch)) < length (concat batch)"
          using n concat_nonempty [OF 1(2) False] by (simp add: concat_consume)
        with 1(1) [OF _ batch_ok_consume [OF 1(2)], of n w1] n Inr call False
        show ?thesis by (subst write_batch.simps) simp
      qed
    qed
  qed
qed

lemma write_pieces_appends:
  assumes run: "write_pieces sys d rest it w = Some res" and app: "writev_appends sys d sink"
  shows "appended sink w (rest @ concat it) (fst res) (snd res)"
proof -
  have "sys = sys \<and> d = d \<longrightarrow> appended sink w (rest @ concat it) (fst res) (snd res)"
  proof (rule write_pieces.raw_induct [where P = "\<lambda>sys0 d0 rest it w res. sys0 = sys \<and> d0 = d \<longrightarrow>
        appended sink w (rest @ concat it) (fst res) (snd res)", OF _ run], intro impI, elim conjE)
    fix wp :: "'a sys \<Rightarrow> int \<Rightarrow> string \<Rightarrow> string list \<Rightarrow> 'a \<Rightarrow> ((unit, errc) expected \<times> 'a) option"
      and sys0 d0 rest it w res
    assume IH: "\<And>sys0 d0 rest it w res. wp sys0 d0 rest it w = Some res \<Longrightarrow>
          sys0 = sys \<and> d0 = d \<longrightarrow> appended sink w (rest @ concat it) (fst res) (snd res)"
      and run: "(case gather [] rest it of (batch, rest, it) \<Rightarrow>
          if batch = [] then Some (Inr (), w)
          else Option.bind (write_batch sys0 d0 batch w) (\<lambda>(r, w).
            case r of Inl e \<Rightarrow> Some (Inl e, w) | Inr x \<Rightarrow> wp sys0 d0 rest it w)) = Some res"
      and s: "sys0 = sys" "d0 = d"
    obtain batch rest1 it1 where g: "gather [] rest it = (batch, rest1, it1)"
      by (metis prod_cases3)
    note content = gather_content [OF g, symmetric]
    show "appended sink w (rest @ concat it) (fst res) (snd res)"
    proof (cases "batch = []")
      case True
      with run g content gather_stops [OF g True] show ?thesis by (auto simp: appended_def)
    next
      case False
      with run [unfolded s g prod.case] have "Option.bind (write_batch sys d batch w) (\<lambda>(r, w).
            case r of Inl e \<Rightarrow> Some (Inl e, w) | Inr x \<Rightarrow> wp sys d rest1 it1 w) = Some res" by simp
      then obtain r w1 where b: "write_batch sys d batch w = Some (r, w1)"
        and k: "(case r of Inl e \<Rightarrow> Some (Inl e, w1) | Inr x \<Rightarrow> wp sys d rest1 it1 w1) = Some res"
        by (auto elim: bind_SomeE)
      note wrote = write_batch_appends [OF b app gather_bounds [OF g batch_ok_Nil], simplified]
      show ?thesis
      proof (cases r)
        case (Inl e)
        with k have "res = (Inl e, w1)" by simp
        with Inl appended_first [OF wrote [unfolded Inl]] content show ?thesis by simp
      next
        case (Inr u)
        with k have "wp sys d rest1 it1 w1 = Some res" by simp
        from IH [OF this] have "appended sink w1 (rest1 @ concat it1) (fst res) (snd res)" by simp
        from appended_then [OF wrote [unfolded Inr] this] content show ?thesis by simp
      qed
    qed
  qed
  then show ?thesis by simp
qed

lemma write_pieces_total:
  assumes "writev_appends sys d sink" and "interruptions_end sys d m"
  shows "\<exists>res. write_pieces sys d rest it w = Some res"
proof (induction "length (rest @ concat it)" arbitrary: rest it w rule: less_induct)
  case less
  obtain batch rest1 it1 where g: "gather [] rest it = (batch, rest1, it1)"
    by (metis prod_cases3)
  show ?case
  proof (cases "batch = []")
    case True
    with g show ?thesis by (subst write_pieces.simps) simp
  next
    case False
    note ok = gather_bounds [OF g batch_ok_Nil]
    obtain r w1 where b: "write_batch sys d batch w = Some (r, w1)"
      using write_batch_total [OF assms ok, of w] by auto
    have "0 < length (concat batch)"
      using concat_nonempty [OF ok False] by (simp only: length_greater_0_conv not_False_eq_True)
    then have "length (rest1 @ concat it1) < length (rest @ concat it)"
      using arg_cong [OF gather_content [OF g], of length] unfolding length_append concat.simps list.size by linarith
    from less [OF this, of w1] b g False show ?thesis
      by (subst write_pieces.simps) (auto split: sum.splits)
  qed
qed

interpretation fdw: unbuffered_writer "fdw_write_many sys d" fdw_flush sink "\<lambda>w. []"
  "\<lambda>w. writev_appends sys d sink" for sys d sink
proof unfold_locales
  fix s ps s' e
  assume app: "writev_appends sys d sink"
  show "fdw_write_many sys d ps s = Some (Inr (), s') \<Longrightarrow> sink s' @ [] = sink s @ [] @ concat ps"
    using write_pieces_appends [OF _ app, of "[]" ps s "(Inr (), s')"]
    by (simp add: fdw_write_many_def appended_def)
  show "fdw_write_many sys d ps s = Some (Inl e, s') \<Longrightarrow> \<exists>k. sink s' @ [] = sink s @ take k ([] @ concat ps)"
    using write_pieces_appends [OF _ app, of "[]" ps s "(Inl e, s')"]
    by (simp add: fdw_write_many_def appended_def)
  fix r
  show "fdw_write_many sys d ps s = Some (r, s') \<Longrightarrow> prefix (sink s) (sink s')"
    using write_pieces_appends [OF _ app, of "[]" ps s "(r, s')"]
    by (auto simp: fdw_write_many_def appended_def split: sum.splits)
qed (simp_all add: fdw_flush_def)

text \<open>
  C29: the writer to a descriptor returns whenever interruptions come to an end, whatever
  \<open>writev\<close> cuts short and however many pieces there are; when it succeeds the descriptor has
  received exactly the pieces, in order, and when it fails a beginning of them. Nothing is
  asked of \<open>writev\<close> but for calls with at most 64 pieces, none empty, of \<open>INT_MAX\<close> bytes.
\<close>

theorem fd_writer_writes_exactly:
  assumes "writev_appends sys d sink" and "interruptions_end sys d m"
  shows "\<exists>r w'. fdw_write_many sys d ps w = Some (r, w') \<and>
    (case r of
       Inr _ \<Rightarrow> sink w' = sink w @ concat ps
     | Inl e \<Rightarrow> (\<exists>k. sink w' = sink w @ take k (concat ps)))"
proof -
  obtain r w' where run: "fdw_write_many sys d ps w = Some (r, w')"
    using write_pieces_total [OF assms, of "[]" ps w] by (auto simp: fdw_write_many_def)
  from fdw.write_ok [OF assms(1), of ps w w'] fdw.write_failed [OF assms(1), of ps w _ w'] run
  have "case r of Inr _ \<Rightarrow> sink w' = sink w @ concat ps
     | Inl e \<Rightarrow> (\<exists>k. sink w' = sink w @ take k (concat ps))" by (cases r) auto
  with run show ?thesis by blast
qed

text \<open>
  A descriptor that takes at most two bytes at a time, is interrupted before each of the
  first calls, and is full after six bytes. The world is what is received and the number of
  interruptions left.
\<close>

definition narrow_sys :: "(string \<times> nat) sys" where
  "narrow_sys = null_sys\<lparr>sys_writev := (\<lambda>d ps (got, k).
     if 0 < k then (Inl EINTR, (got, k - 1))
     else if length got \<ge> 6 then (Inl ENOENT, (got, k))
     else (let bytes = take 2 (concat ps) in (Inr (length bytes), (got @ bytes, k))))\<rparr>"

lemma narrow_sys_facts:
  "writev_appends narrow_sys d fst" "interruptions_end narrow_sys d snd"
  by (auto simp: writev_appends_def interruptions_end_def narrow_sys_def Let_def min_def split: if_splits)

theorem fd_writer_writes_exactly_witness:
  "\<exists>r w'. fdw_write_many narrow_sys 1 [''abc'', [], ''d''] ([], 3) = Some (r, w') \<and>
    (case r of
       Inr _ \<Rightarrow> fst w' = fst ([], 3 :: nat) @ concat [''abc'', [], ''d'']
     | Inl e \<Rightarrow> (\<exists>k. fst w' = fst ([], 3 :: nat) @ take k (concat [''abc'', [], ''d''])))"
  by (rule fd_writer_writes_exactly [OF narrow_sys_facts])

text \<open>A descriptor that takes everything; the world is what it received.\<close>

definition echo_sys :: "string sys" where
  "echo_sys = null_sys\<lparr>sys_writev := (\<lambda>d ps w. (Inr (length (concat ps)), w @ concat ps))\<rparr>"

lemma echo_sys_facts: "writev_appends echo_sys d id" "interruptions_end echo_sys d m"
  by (auto simp: writev_appends_def interruptions_end_def echo_sys_def)

lemma echo_write_batch: "batch_ok b \<Longrightarrow> write_batch echo_sys d b w = Some (Inr (), w @ concat b)"
proof (cases "b = []")
  case True
  then show ?thesis by (subst write_batch.simps) simp
next
  case False
  assume b: "batch_ok b"
  have "consume (length (concat b)) b = []"
    using concat_nonempty [OF batch_ok_consume [OF b, of "length (concat b)"]] by (auto simp: concat_consume)
  then have "write_batch echo_sys d (consume (length (concat b)) b) (w @ concat b) = Some (Inr (), w @ concat b)"
    by (subst write_batch.simps) simp
  with concat_nonempty [OF b False] False show ?thesis
    by (subst write_batch.simps) (simp add: echo_sys_def del: concat_eq_Nil_conv)
qed

lemma echo_write: "fdw_write_many echo_sys d ps w = Some (Inr (), w @ concat ps)"
proof -
  have "write_pieces echo_sys d rest it w = Some (Inr (), w @ rest @ concat it)" for rest it w
  proof (induction "length (rest @ concat it)" arbitrary: rest it w rule: less_induct)
    case less
    obtain b rest1 it1 where g: "gather [] rest it = (b, rest1, it1)" by (metis prod_cases3)
    note content = gather_content [OF g] and ok = gather_bounds [OF g batch_ok_Nil]
    show ?case
    proof (cases "b = []")
      case True
      with gather_stops [OF g True] content g show ?thesis by (subst write_pieces.simps) simp
    next
      case False
      have "0 < length (concat b)"
        using concat_nonempty [OF ok False] by (simp only: length_greater_0_conv not_False_eq_True)
      then have "length (rest1 @ concat it1) < length (rest @ concat it)"
        using arg_cong [OF content, of length] unfolding length_append concat.simps list.size by linarith
      from less [OF this, of "w @ concat b"] echo_write_batch [OF ok] g False content
      show ?thesis by (subst write_pieces.simps) simp
    qed
  qed
  then show ?thesis by (simp add: fdw_write_many_def)
qed

end
