(* ===== verification/Buffered_Writer.thy ===== *)
theory Buffered_Writer
  imports Writers
begin

section \<open>Buffered and shared writers\<close>

text \<open>
  The writers that wrap another one: \<open>BufferedWriter\<close>, \<open>MutexWriter\<close>, \<open>WriterRef\<close> and their
  compositions \<open>StderrWriter\<close> and \<open>ConcurrentWriter\<close>. Each takes the \<open>WriteMany\<close> of the writer
  it wraps as an argument and holds that writer's state.
\<close>

subsection \<open>\<open>BufferedWriter\<close>\<close>

text \<open>The buffer's capacity is its length; of its contents the first \<open>bw_used\<close> count.\<close>

record 's buffered_writer =
  bw_writer :: 's
  bw_buf :: string
  bw_used :: nat

text \<open>\<open>for_overwrite\<close> leaves whatever was in the memory.\<close>

definition buffered_writer :: "(nat \<Rightarrow> char) \<Rightarrow> nat \<Rightarrow> 's \<Rightarrow> 's buffered_writer" where
  "buffered_writer garbage capacity w =
     \<lparr>bw_writer = w, bw_buf = map garbage [0..<capacity], bw_used = 0\<rparr>"

definition bw_move :: "'s buffered_writer \<Rightarrow> 's buffered_writer \<times> 's buffered_writer" where
  "bw_move other = (other, other\<lparr>bw_buf := [], bw_used := 0\<rparr>)"

definition bw_buffered :: "'s buffered_writer \<Rightarrow> string" where
  "bw_buffered s = take (bw_used s) (bw_buf s)"

text \<open>A call of the wrapped writer.\<close>

definition on_writer :: "('s \<Rightarrow> 's write_result) \<Rightarrow> 's buffered_writer \<Rightarrow> 's buffered_writer write_result" where
  "on_writer f s = map_option (\<lambda>(r, w). (r, s\<lparr>bw_writer := w\<rparr>)) (f (bw_writer s))"

definition bw_flush :: "(string list \<Rightarrow> 's \<Rightarrow> 's write_result) \<Rightarrow> 's buffered_writer
    \<Rightarrow> 's buffered_writer write_result" where
  "bw_flush wm s =
     (if bw_used s = 0 then Some (Inr (), s)
      else (let buffered = bw_buffered s; s = s\<lparr>bw_used := 0\<rparr> in on_writer (wm [buffered]) s))"

text \<open>\<open>cat\<close> is the feature macro \<open>__cpp_lib_ranges_concat\<close>.\<close>

definition bw_write_many :: "bool \<Rightarrow> (string list \<Rightarrow> 's \<Rightarrow> 's write_result) \<Rightarrow> string list
    \<Rightarrow> 's buffered_writer \<Rightarrow> 's buffered_writer write_result" where
  "bw_write_many cat wm pieces s =
     (let total = foldl (\<lambda>acc piece. acc + length piece) 0 pieces
      in if total \<le> length (bw_buf s) - bw_used s
         then Some (Inr (), s\<lparr>bw_buf := copy_n (concat pieces) (bw_buf s) (bw_used s), bw_used := bw_used s + total\<rparr>)
         else if cat
         then (let buffered = bw_buffered s; s = s\<lparr>bw_used := 0\<rparr> in on_writer (wm (buffered # pieces)) s)
         else Option.bind (bw_flush wm s) (\<lambda>(r, s).
                case r of Inl e \<Rightarrow> Some (Inl e, s) | Inr _ \<Rightarrow> on_writer (wm pieces) s))"

text \<open>The destructor flushes, ignores the result and leaves the wrapped writer.\<close>

definition bw_destroy :: "(string list \<Rightarrow> 's \<Rightarrow> 's write_result) \<Rightarrow> 's buffered_writer \<Rightarrow> 's option" where
  "bw_destroy wm s = map_option (\<lambda>(r, s). bw_writer s) (bw_flush wm s)"

definition bw_fits :: "'s buffered_writer \<Rightarrow> bool" where
  "bw_fits s \<longleftrightarrow> bw_used s \<le> length (bw_buf s)"

lemma bw_fits_simps [simp]:
  "bw_fits (s\<lparr>bw_used := 0\<rparr>)" "bw_fits (s\<lparr>bw_writer := w\<rparr>) = bw_fits s"
  by (simp_all add: bw_fits_def)

lemma bw_buffered_simps [simp]:
  "bw_buffered (s\<lparr>bw_used := 0\<rparr>) = []" "bw_buffered (s\<lparr>bw_writer := w\<rparr>) = bw_buffered s"
  "bw_used s = 0 \<Longrightarrow> bw_buffered s = []"
  by (simp_all add: bw_buffered_def)

lemma on_writer_Some:
  "on_writer f s = Some (r, s') \<longleftrightarrow> (\<exists>w. f (bw_writer s) = Some (r, w) \<and> s' = s\<lparr>bw_writer := w\<rparr>)"
  by (auto simp: on_writer_def)

lemma bw_flush_cases:
  assumes "bw_flush wm s = Some (r, s')"
  obtains "bw_used s = 0" and "r = Inr ()" and "s' = s"
  | w where "0 < bw_used s" and "wm [bw_buffered s] (bw_writer s) = Some (r, w)"
      and "s' = s\<lparr>bw_used := 0, bw_writer := w\<rparr>"
  using assms by (cases "bw_used s = 0") (auto simp: bw_flush_def on_writer_Some Let_def)

text \<open>The three ways a call goes: into the buffer, through it, or after flushing it.\<close>

lemma bw_write_many_cases:
  assumes "bw_write_many cat wm ps s = Some (r, s')"
  obtains
    (room) "length (concat ps) \<le> length (bw_buf s) - bw_used s" and "r = Inr ()"
      and "s' = s\<lparr>bw_buf := copy_n (concat ps) (bw_buf s) (bw_used s),
        bw_used := bw_used s + length (concat ps)\<rparr>"
  | (through) w where "cat" and "wm (bw_buffered s # ps) (bw_writer s) = Some (r, w)"
      and "s' = s\<lparr>bw_used := 0, bw_writer := w\<rparr>"
  | (stuck) e where "bw_flush wm s = Some (Inl e, s')" and "r = Inl e"
  | (flushed) s1 w where "bw_flush wm s = Some (Inr (), s1)" and "wm ps (bw_writer s1) = Some (r, w)"
      and "s' = s1\<lparr>bw_writer := w\<rparr>"
proof (cases "length (concat ps) \<le> length (bw_buf s) - bw_used s")
  case True
  with assms show ?thesis by (intro room) (simp_all add: bw_write_many_def foldl_add_length)
next
  case False
  show ?thesis
  proof (cases cat)
    case True
    with assms False obtain w where "wm (bw_buffered s # ps) (bw_writer s) = Some (r, w)"
      and "s' = s\<lparr>bw_used := 0, bw_writer := w\<rparr>"
      by (auto simp: bw_write_many_def foldl_add_length on_writer_Some Let_def)
    with True show ?thesis by (rule through)
  next
    case nocat: False
    with assms False have "Option.bind (bw_flush wm s) (\<lambda>(r, s).
        case r of Inl e \<Rightarrow> Some (Inl e, s) | Inr _ \<Rightarrow> on_writer (wm ps) s) = Some (r, s')"
      by (simp add: bw_write_many_def foldl_add_length)
    then obtain r1 s1 where f: "bw_flush wm s = Some (r1, s1)"
      and k: "(case r1 of Inl e \<Rightarrow> Some (Inl e, s1) | Inr _ \<Rightarrow> on_writer (wm ps) s1) = Some (r, s')"
      by (auto elim: bind_SomeE)
    show ?thesis
    proof (cases r1)
      case (Inl e)
      with f k show ?thesis by (intro stuck [of e]) simp_all
    next
      case (Inr u)
      with f k show ?thesis by (auto simp: on_writer_Some intro: flushed)
    qed
  qed
qed

lemma bw_room:
  assumes "bw_fits s" and "n = length (concat ps)" and "n \<le> length (bw_buf s) - bw_used s"
  shows "bw_fits (s\<lparr>bw_buf := copy_n (concat ps) (bw_buf s) (bw_used s), bw_used := bw_used s + n\<rparr>)"
    and "bw_buffered (s\<lparr>bw_buf := copy_n (concat ps) (bw_buf s) (bw_used s), bw_used := bw_used s + n\<rparr>)
      = bw_buffered s @ concat ps"
proof -
  have "bw_used s + length (concat ps) \<le> length (bw_buf s)" using assms by (simp add: bw_fits_def)
  with assms(2) show
    "bw_fits (s\<lparr>bw_buf := copy_n (concat ps) (bw_buf s) (bw_used s), bw_used := bw_used s + n\<rparr>)"
    "bw_buffered (s\<lparr>bw_buf := copy_n (concat ps) (bw_buf s) (bw_used s), bw_used := bw_used s + n\<rparr>)
      = bw_buffered s @ concat ps"
    by (simp_all add: bw_fits_def bw_buffered_def length_copy_n take_copy_n)
qed

subsection \<open>A buffered writer over a writer is a writer\<close>

locale buffered_over = writer +
  fixes cat :: bool
begin

lemma flush_through:
  assumes "inv (bw_writer s)" and "bw_flush write_many s = Some (r, s')"
  shows "inv (bw_writer s') \<and> bw_fits s' = (bw_fits s \<or> 0 < bw_used s) \<and> bw_buffered s' = [] \<and>
    prefix (sent (bw_writer s)) (sent (bw_writer s')) \<and>
    (case r of
       Inr _ \<Rightarrow> sent (bw_writer s') @ pending (bw_writer s') = sent (bw_writer s) @ pending (bw_writer s) @ bw_buffered s
     | Inl e \<Rightarrow> (\<exists>k. sent (bw_writer s') @ pending (bw_writer s') =
         sent (bw_writer s) @ take k (pending (bw_writer s) @ bw_buffered s)))"
  using assms(2)
proof (cases rule: bw_flush_cases)
  case 1
  with assms(1) show ?thesis by simp
next
  case (2 w)
  with write_ok [OF assms(1), of "[bw_buffered s]" w] write_failed [OF assms(1), of "[bw_buffered s]" _ w]
    sent_grows(1) [OF assms(1) 2(2)] inv_kept(1) [OF assms(1) 2(2)]
  show ?thesis by (cases r) (simp_all add: bw_buffered_def bw_fits_def)
qed

lemma write_through:
  assumes "inv (bw_writer s)" and "bw_fits s" and "bw_write_many cat write_many ps s = Some (r, s')"
  shows "inv (bw_writer s') \<and> bw_fits s' \<and>
    prefix (sent (bw_writer s)) (sent (bw_writer s')) \<and>
    (case r of
       Inr _ \<Rightarrow> sent (bw_writer s') @ pending (bw_writer s') @ bw_buffered s' =
         sent (bw_writer s) @ pending (bw_writer s) @ bw_buffered s @ concat ps
     | Inl e \<Rightarrow> (\<exists>k. sent (bw_writer s') @ pending (bw_writer s') @ bw_buffered s' =
         sent (bw_writer s) @ take k (pending (bw_writer s) @ bw_buffered s @ concat ps)))"
  using assms(3)
proof (cases rule: bw_write_many_cases)
  case room
  with bw_room [OF assms(2) refl room(1)] assms(1) show ?thesis by simp
next
  case (through w)
  let ?ps = "bw_buffered s # ps"
  from through write_ok [OF assms(1), of ?ps w] write_failed [OF assms(1), of ?ps _ w]
    sent_grows(1) [OF assms(1) through(2)] inv_kept(1) [OF assms(1) through(2)]
  show ?thesis by (cases r) (simp_all add: bw_buffered_def bw_fits_def)
next
  case (stuck e)
  note f = flush_through [OF assms(1) stuck(1), simplified sum.case]
  then obtain k where k: "sent (bw_writer s') @ pending (bw_writer s') =
      sent (bw_writer s) @ take k (pending (bw_writer s) @ bw_buffered s)" by blast
  let ?p = "pending (bw_writer s) @ bw_buffered s"
  have "take k ?p = take (min k (length ?p)) (pending (bw_writer s) @ bw_buffered s @ concat ps)"
    by (simp add: min_def)
  with k have "\<exists>k. sent (bw_writer s') @ pending (bw_writer s') =
      sent (bw_writer s) @ take k (pending (bw_writer s) @ bw_buffered s @ concat ps)" by metis
  with f stuck(2) assms(2) show ?thesis by (simp del: take_append)
next
  case (flushed s1 w)
  note f = flush_through [OF assms(1) flushed(1), simplified sum.case]
  then have i: "inv (bw_writer s1)" by blast
  obtain x where x: "sent (bw_writer s1) = sent (bw_writer s) @ x" using f by (auto simp: prefix_def)
  with f have x': "x @ pending (bw_writer s1) = pending (bw_writer s) @ bw_buffered s" by simp
  note kept = sent_grows(1) [OF i flushed(2)] inv_kept(1) [OF i flushed(2)]
  have pre: "prefix (sent (bw_writer s)) (sent w)" using f kept(1) prefix_order.trans by blast
  show ?thesis
  proof (cases r)
    case (Inr u)
    from write_ok [OF i, of ps w] flushed(2) Inr x x'
    have "sent w @ pending w = sent (bw_writer s) @ pending (bw_writer s) @ bw_buffered s @ concat ps"
      by simp
    with Inr flushed f kept pre assms(2) show ?thesis by simp
  next
    case (Inl e)
    from write_failed [OF i flushed(2) [unfolded Inl]] obtain k where
      "sent w @ pending w = sent (bw_writer s1) @ take k (pending (bw_writer s1) @ concat ps)" by blast
    also have "\<dots> = sent (bw_writer s) @ take (length x + k) ((x @ pending (bw_writer s1)) @ concat ps)"
      by (simp add: x)
    finally have "sent w @ pending w = sent (bw_writer s) @
        take (length x + k) (pending (bw_writer s) @ bw_buffered s @ concat ps)" by (simp add: x')
    with Inl flushed f kept pre assms(2) show ?thesis by (auto simp del: take_append)
  qed
qed

end

sublocale buffered_over \<subseteq> bw: writer "bw_write_many cat write_many" "bw_flush write_many"
  "\<lambda>s. sent (bw_writer s)" "\<lambda>s. pending (bw_writer s) @ bw_buffered s"
  "\<lambda>s. inv (bw_writer s) \<and> bw_fits s"
proof
  fix s s' ps r e
  assume i: "inv (bw_writer s) \<and> bw_fits s"
  note w = write_through [OF conjunct1 [OF i] conjunct2 [OF i]] and f = flush_through [OF conjunct1 [OF i]]
  show "bw_write_many cat write_many ps s = Some (Inr (), s') \<Longrightarrow>
      sent (bw_writer s') @ pending (bw_writer s') @ bw_buffered s' =
      sent (bw_writer s) @ (pending (bw_writer s) @ bw_buffered s) @ concat ps"
    using w [of ps "Inr ()" s'] by simp
  show "bw_write_many cat write_many ps s = Some (Inl e, s') \<Longrightarrow>
      \<exists>k. sent (bw_writer s') @ pending (bw_writer s') @ bw_buffered s' =
        sent (bw_writer s) @ take k ((pending (bw_writer s) @ bw_buffered s) @ concat ps)"
    using w [of ps "Inl e" s'] by simp
  show "bw_flush write_many s = Some (Inr (), s') \<Longrightarrow>
      sent (bw_writer s') @ pending (bw_writer s') @ bw_buffered s' =
      sent (bw_writer s) @ pending (bw_writer s) @ bw_buffered s"
    using f [of "Inr ()" s'] by simp
  show "bw_flush write_many s = Some (Inl e, s') \<Longrightarrow>
      \<exists>k. sent (bw_writer s') @ pending (bw_writer s') @ bw_buffered s' =
        sent (bw_writer s) @ take k (pending (bw_writer s) @ bw_buffered s)"
    using f [of "Inl e" s'] by simp
  show "bw_write_many cat write_many ps s = Some (r, s') \<Longrightarrow> prefix (sent (bw_writer s)) (sent (bw_writer s'))"
    using w [of ps r s'] by simp
  show "bw_flush write_many s = Some (r, s') \<Longrightarrow> prefix (sent (bw_writer s)) (sent (bw_writer s'))"
    using f [of r s'] by simp
  show "bw_write_many cat write_many ps s = Some (r, s') \<Longrightarrow> inv (bw_writer s') \<and> bw_fits s'"
    using w [of ps r s'] by simp
  show "bw_flush write_many s = Some (r, s') \<Longrightarrow> inv (bw_writer s') \<and> bw_fits s'"
    using f [of r s'] i by simp
qed

text \<open>Over a writer that keeps nothing back, a flush leaves nothing behind.\<close>

locale buffered_over_unbuffered = buffered_over + unbuffered_writer

sublocale buffered_over_unbuffered \<subseteq> bw: draining_writer "bw_write_many cat write_many" "bw_flush write_many"
  "\<lambda>s. sent (bw_writer s)" "\<lambda>s. pending (bw_writer s) @ bw_buffered s"
  "\<lambda>s. inv (bw_writer s) \<and> bw_fits s"
  by unfold_locales (use flush_through nothing_pending in \<open>auto split: sum.splits\<close>)

interpretation fdb: buffered_over_unbuffered "fdw_write_many sys d" fdw_flush sink "\<lambda>w. []"
  "\<lambda>w. writev_appends sys d sink" cat for sys d sink cat
  by unfold_locales

subsection \<open>\<open>MutexWriter\<close>, and the standard error writer\<close>

text \<open>
  \<open>lock_guard\<close> holds the lock for the whole call. A call made while it is held does not
  return, which for a single thread is a deadlock.
\<close>

record 's mutex_writer =
  mw_locked :: bool
  mw_writer :: 's

definition mutex_writer :: "'s \<Rightarrow> 's mutex_writer" where
  "mutex_writer w = \<lparr>mw_locked = False, mw_writer = w\<rparr>"

definition with_lock :: "('s \<Rightarrow> 's write_result) \<Rightarrow> 's mutex_writer \<Rightarrow> 's mutex_writer write_result" where
  "with_lock f s =
     (if mw_locked s then None
      else (let s = s\<lparr>mw_locked := True\<rparr>
            in map_option (\<lambda>(r, w). (r, s\<lparr>mw_writer := w, mw_locked := False\<rparr>)) (f (mw_writer s))))"

definition mw_write_many :: "(string list \<Rightarrow> 's \<Rightarrow> 's write_result) \<Rightarrow> string list \<Rightarrow> 's mutex_writer
    \<Rightarrow> 's mutex_writer write_result" where
  "mw_write_many wm pieces = with_lock (wm pieces)"

definition mw_flush :: "('s \<Rightarrow> 's write_result) \<Rightarrow> 's mutex_writer \<Rightarrow> 's mutex_writer write_result" where
  "mw_flush fl = with_lock fl"

lemma with_lock_Some:
  "with_lock f s = Some (r, s') \<longleftrightarrow>
     (\<exists>w. \<not> mw_locked s \<and> f (mw_writer s) = Some (r, w) \<and> s' = s\<lparr>mw_writer := w, mw_locked := False\<rparr>)"
  by (auto simp: with_lock_def Let_def)

locale mutex_over = writer

sublocale mutex_over \<subseteq> mx: writer "mw_write_many write_many" "mw_flush flush"
  "\<lambda>s. sent (mw_writer s)" "\<lambda>s. pending (mw_writer s)" "\<lambda>s. inv (mw_writer s) \<and> \<not> mw_locked s"
proof
  fix s s' :: "'a mutex_writer" and ps r e
  assume i: "inv (mw_writer s) \<and> \<not> mw_locked s"
  note iv = conjunct1 [OF i]
  note unf = mw_write_many_def mw_flush_def with_lock_Some
  show "mw_write_many write_many ps s = Some (Inr (), s') \<Longrightarrow>
      sent (mw_writer s') @ pending (mw_writer s') = sent (mw_writer s) @ pending (mw_writer s) @ concat ps"
    using write_ok [OF iv] by (auto simp: unf)
  show "mw_write_many write_many ps s = Some (Inl e, s') \<Longrightarrow>
      \<exists>k. sent (mw_writer s') @ pending (mw_writer s') =
        sent (mw_writer s) @ take k (pending (mw_writer s) @ concat ps)"
    using write_failed [OF iv] by (auto simp: unf)
  show "mw_flush flush s = Some (Inr (), s') \<Longrightarrow>
      sent (mw_writer s') @ pending (mw_writer s') = sent (mw_writer s) @ pending (mw_writer s)"
    using flush_ok [OF iv] by (auto simp: unf)
  show "mw_flush flush s = Some (Inl e, s') \<Longrightarrow>
      \<exists>k. sent (mw_writer s') @ pending (mw_writer s') = sent (mw_writer s) @ take k (pending (mw_writer s))"
    using flush_failed [OF iv] by (auto simp: unf)
  show "mw_write_many write_many ps s = Some (r, s') \<Longrightarrow> prefix (sent (mw_writer s)) (sent (mw_writer s'))"
    using sent_grows(1) [OF iv] by (auto simp: unf)
  show "mw_flush flush s = Some (r, s') \<Longrightarrow> prefix (sent (mw_writer s)) (sent (mw_writer s'))"
    using sent_grows(2) [OF iv] by (auto simp: unf)
  show "mw_write_many write_many ps s = Some (r, s') \<Longrightarrow> inv (mw_writer s') \<and> \<not> mw_locked s'"
    using inv_kept(1) [OF iv] by (auto simp: unf)
  show "mw_flush flush s = Some (r, s') \<Longrightarrow> inv (mw_writer s') \<and> \<not> mw_locked s'"
    using inv_kept(2) [OF iv] by (auto simp: unf)
qed

definition stderr_fileno :: int where "stderr_fileno = 2"

definition stderr_write_many :: "'w sys \<Rightarrow> string list \<Rightarrow> 'w mutex_writer \<Rightarrow> 'w mutex_writer write_result" where
  "stderr_write_many sys = mw_write_many (fdw_write_many sys stderr_fileno)"

definition stderr_flush :: "'w mutex_writer \<Rightarrow> 'w mutex_writer write_result" where
  "stderr_flush = mw_flush fdw_flush"

interpretation err: mutex_over "fdw_write_many sys stderr_fileno" fdw_flush sink "\<lambda>w. []"
  "\<lambda>w. writev_appends sys stderr_fileno sink" for sys sink
  by unfold_locales

subsection \<open>\<open>ConcurrentWriter\<close> and its handles\<close>

type_synonym 's concurrent_writer = "'s buffered_writer mutex_writer"

definition cw_make :: "(nat \<Rightarrow> char) \<Rightarrow> nat \<Rightarrow> 's \<Rightarrow> 's concurrent_writer" where
  "cw_make garbage shared w = mutex_writer (buffered_writer garbage shared w)"

definition cw_write_many :: "bool \<Rightarrow> 'w sys \<Rightarrow> int \<Rightarrow> string list \<Rightarrow> 'w concurrent_writer
    \<Rightarrow> 'w concurrent_writer write_result" where
  "cw_write_many cat sys d = mw_write_many (bw_write_many cat (fdw_write_many sys d))"

definition cw_flush :: "'w sys \<Rightarrow> int \<Rightarrow> 'w concurrent_writer \<Rightarrow> 'w concurrent_writer write_result" where
  "cw_flush sys d = mw_flush (bw_flush (fdw_write_many sys d))"

definition cw_destroy :: "'w sys \<Rightarrow> int \<Rightarrow> 'w concurrent_writer \<Rightarrow> 'w option" where
  "cw_destroy sys d s = bw_destroy (fdw_write_many sys d) (mw_writer s)"

text \<open>
  A handle is a buffered writer over a \<open>WriterRef\<close>: \<open>deref\<close> follows the reference to the
  shared writer, \<open>handle_of\<close> is the handle after the call.
\<close>

type_synonym handle = "unit buffered_writer"

definition make_handle :: "(nat \<Rightarrow> char) \<Rightarrow> nat \<Rightarrow> handle" where
  "make_handle garbage capacity = buffered_writer garbage capacity ()"

definition deref :: "handle \<Rightarrow> 's \<Rightarrow> 's buffered_writer" where
  "deref h w = \<lparr>bw_writer = w, bw_buf = bw_buf h, bw_used = bw_used h\<rparr>"

definition handle_of :: "'s buffered_writer \<Rightarrow> handle" where
  "handle_of b = \<lparr>bw_writer = (), bw_buf = bw_buf b, bw_used = bw_used b\<rparr>"

definition by_ref :: "('s buffered_writer \<Rightarrow> 's buffered_writer write_result) \<Rightarrow> handle \<Rightarrow> 's
    \<Rightarrow> ((unit, errc) expected \<times> handle \<times> 's) option" where
  "by_ref f h w = map_option (\<lambda>(r, b). (r, handle_of b, bw_writer b)) (f (deref h w))"

definition handle_write_many :: "bool \<Rightarrow> (string list \<Rightarrow> 's \<Rightarrow> 's write_result) \<Rightarrow> string list \<Rightarrow> handle \<Rightarrow> 's
    \<Rightarrow> ((unit, errc) expected \<times> handle \<times> 's) option" where
  "handle_write_many cat wm pieces = by_ref (bw_write_many cat wm pieces)"

definition handle_flush :: "(string list \<Rightarrow> 's \<Rightarrow> 's write_result) \<Rightarrow> handle \<Rightarrow> 's
    \<Rightarrow> ((unit, errc) expected \<times> handle \<times> 's) option" where
  "handle_flush wm = by_ref (bw_flush wm)"

text \<open>
  Without \<open>views::concat\<close> a call that does not fit takes the lock twice, to flush and to pass
  its pieces on past the emptied buffer; other handles may come in between.
\<close>

definition handle_pass :: "(string list \<Rightarrow> 's \<Rightarrow> 's write_result) \<Rightarrow> string list \<Rightarrow> handle \<Rightarrow> 's
    \<Rightarrow> ((unit, errc) expected \<times> handle \<times> 's) option" where
  "handle_pass wm pieces = by_ref (on_writer (wm pieces))"

lemma handle_write_takes_lock_twice:
  assumes "length (bw_buf h) - bw_used h < length (concat ps)"
  shows "handle_write_many False wm ps h w =
    Option.bind (handle_flush wm h w) (\<lambda>(r, h, w).
      case r of Inl e \<Rightarrow> Some (Inl e, h, w) | Inr _ \<Rightarrow> handle_pass wm ps h w)"
proof -
  have "deref (handle_of b) (bw_writer b) = b" for b :: "'a buffered_writer"
    by (simp add: deref_def handle_of_def)
  with assms show ?thesis
    by (cases "bw_flush wm (deref h w)")
      (auto simp: handle_write_many_def handle_flush_def handle_pass_def by_ref_def bw_write_many_def
        foldl_add_length deref_def split: sum.splits)
qed

text \<open>
  Calls made through several handles, in the order the lock admits them, all of which
  succeed. A flush is also what the destructor of a handle does; a pass is the second half of
  a call that takes the lock twice, its handle empty since the first.
\<close>

datatype handle_call = HWrite nat "string list" | HFlush nat | HPass nat "string list"

fun do_call :: "bool \<Rightarrow> (string list \<Rightarrow> 's \<Rightarrow> 's write_result) \<Rightarrow> handle_call \<Rightarrow> handle list \<times> 's
    \<Rightarrow> (handle list \<times> 's) option" where
  "do_call cat wm (HWrite i ps) (hs, s) =
     (if i < length hs then
        (case handle_write_many cat wm ps (hs ! i) s of
           Some (Inr _, h, s) \<Rightarrow> Some (hs[i := h], s)
         | _ \<Rightarrow> None)
      else None)"
| "do_call cat wm (HFlush i) (hs, s) =
     (if i < length hs then
        (case handle_flush wm (hs ! i) s of
           Some (Inr _, h, s) \<Rightarrow> Some (hs[i := h], s)
         | _ \<Rightarrow> None)
      else None)"
| "do_call cat wm (HPass i ps) (hs, s) =
     (if i < length hs \<and> bw_used (hs ! i) = 0 then
        (case handle_pass wm ps (hs ! i) s of
           Some (Inr _, h, s) \<Rightarrow> Some (hs[i := h], s)
         | _ \<Rightarrow> None)
      else None)"

fun handle_calls :: "bool \<Rightarrow> (string list \<Rightarrow> 's \<Rightarrow> 's write_result) \<Rightarrow> handle_call list \<Rightarrow> handle list \<times> 's
    \<Rightarrow> (handle list \<times> 's) option" where
  "handle_calls cat wm [] st = Some st"
| "handle_calls cat wm (c # cs) st =
     (case do_call cat wm c st of None \<Rightarrow> None | Some st \<Rightarrow> handle_calls cat wm cs st)"

text \<open>What was written through one handle, call by call.\<close>

fun written :: "nat \<Rightarrow> handle_call list \<Rightarrow> string list" where
  "written i [] = []"
| "written i (HWrite j ps # cs) = (if j = i then concat ps # written i cs else written i cs)"
| "written i (HFlush j # cs) = written i cs"
| "written i (HPass j ps # cs) = (if j = i then concat ps # written i cs else written i cs)"

definition through :: "nat \<Rightarrow> (nat \<times> string) list \<Rightarrow> string list" where
  "through i passed = map snd (filter (\<lambda>c. fst c = i) passed)"

lemma through_simps [simp]:
  "through i [] = []" "through i ((j, t) # p) = (if j = i then t # through i p else through i p)"
  "through i (p @ q) = through i p @ through i q"
  "through i (map (Pair j) ts) = (if j = i then ts else [])"
  by (auto simp: through_def filter_map o_def)

lemma written_append: "written i (cs @ ds) = written i cs @ written i ds"
  by (induction i cs rule: written.induct) auto

lemma deref_simps [simp]:
  "bw_writer (deref h w) = w" "bw_buffered (deref h w) = bw_buffered h" "bw_fits (deref h w) = bw_fits h"
  "bw_buffered (handle_of b) = bw_buffered b" "bw_fits (handle_of b) = bw_fits b"
  by (simp_all add: deref_def handle_of_def bw_buffered_def bw_fits_def)

text \<open>
  A call through handle \<open>i\<close> hands over some of the handle's own calls, whole and in order:
  none, or what it held, or that and the new one.
\<close>

context buffered_over
begin

lemma handle_write_passes:
  assumes "inv s" and "bw_fits h" and "handle_write_many cat write_many ps h s = Some (Inr (), h', s')"
    and "bw_buffered h = concat held"
  shows "inv s' \<and> bw_fits h' \<and> (\<exists>passed held'. held @ [concat ps] = passed @ held' \<and>
    bw_buffered h' = concat held' \<and> sent s' @ pending s' = sent s @ pending s @ concat passed)"
proof -
  from assms(3) obtain b where b: "bw_write_many cat write_many ps (deref h s) = Some (Inr (), b)"
    and h': "h' = handle_of b" "s' = bw_writer b"
    by (auto simp: handle_write_many_def by_ref_def)
  have i: "inv (bw_writer (deref h s)) \<and> bw_fits (deref h s)" using assms(1,2) by simp
  note kept = bw.inv_kept(1) [OF i b] and ok = bw.write_ok [OF i b]
  from b show ?thesis
  proof (cases rule: bw_write_many_cases)
    case room
    have "bw_buffered b = concat (held @ [concat ps])"
      using bw_room(2) [of "deref h s", OF _ refl room(1)] assms(2,4) room(3) by simp
    moreover have "s' = s" using room(3) h' by simp
    ultimately show ?thesis using kept h'
      by (intro conjI exI [of _ "[]"] exI [of _ "held @ [concat ps]"]) simp_all
  next
    case (through w)
    then have "bw_buffered b = []" by simp
    then show ?thesis using kept ok h' assms(4)
      by (intro conjI exI [of _ "held @ [concat ps]"] exI [of _ "[]"]) simp_all
  next
    case (flushed s1 w)
    from flush_through [OF _ flushed(1)] assms(1) flushed(3) have "bw_buffered b = []" by simp
    then show ?thesis using kept ok h' assms(4)
      by (intro conjI exI [of _ "held @ [concat ps]"] exI [of _ "[]"]) simp_all
  qed simp
qed

lemma handle_flush_passes:
  assumes "inv s" and "bw_fits h" and "handle_flush write_many h s = Some (Inr (), h', s')"
  shows "inv s' \<and> bw_fits h' \<and> bw_buffered h' = [] \<and>
    sent s' @ pending s' = sent s @ pending s @ bw_buffered h"
proof -
  from assms(3) obtain b where b: "bw_flush write_many (deref h s) = Some (Inr (), b)"
    and h': "h' = handle_of b" "s' = bw_writer b"
    by (auto simp: handle_flush_def by_ref_def)
  have i: "inv (bw_writer (deref h s)) \<and> bw_fits (deref h s)" using assms(1,2) by simp
  from bw.inv_kept(2) [OF i b] flush_through [OF _ b] i h' show ?thesis by simp
qed

lemma handle_pass_passes:
  assumes "inv s" and "bw_fits h" and "bw_used h = 0" and "handle_pass write_many ps h s = Some (Inr (), h', s')"
  shows "inv s' \<and> bw_fits h' \<and> bw_buffered h' = [] \<and> sent s' @ pending s' = sent s @ pending s @ concat ps"
proof -
  from assms(4) obtain w where w: "write_many ps s = Some (Inr (), w)" and h': "h' = handle_of (deref h w)" "s' = w"
    by (auto simp: handle_pass_def by_ref_def on_writer_def deref_def handle_of_def)
  from write_ok [OF assms(1) w] inv_kept(1) [OF assms(1) w] assms(2,3) h' show ?thesis
    by (simp add: bw_buffered_def handle_of_def deref_def bw_fits_def)
qed

text \<open>The buffers hold whole calls, \<open>held i\<close> for handle \<open>i\<close>.\<close>

lemma do_call_passes:
  assumes "inv s" and "list_all bw_fits hs" and run: "do_call cat write_many c (hs, s) = Some (hs', s')"
    and held: "\<And>i. i < length hs \<Longrightarrow> bw_buffered (hs ! i) = concat (held i)"
  shows "inv s' \<and> list_all bw_fits hs' \<and> length hs' = length hs \<and>
    (\<exists>passed held'. (\<forall>i. held i @ written i [c] = through i passed @ held' i) \<and>
       (\<forall>i < length hs. bw_buffered (hs' ! i) = concat (held' i)) \<and>
       sent s' @ pending s' = sent s @ pending s @ concat (map snd passed))"
proof (cases c)
  case (HWrite i ps)
  with run obtain h where i: "i < length hs" and hs': "hs' = hs[i := h]"
    and w: "handle_write_many cat write_many ps (hs ! i) s = Some (Inr (), h, s')"
    by (auto split: if_splits option.splits sum.splits)
  have "bw_fits (hs ! i)" using assms(2) i by (simp add: list_all_length)
  from handle_write_passes [OF assms(1) this w held [OF i]] obtain p q where
    pq: "held i @ [concat ps] = p @ q" "bw_buffered h = concat q"
      "sent s' @ pending s' = sent s @ pending s @ concat p" and k: "inv s'" "bw_fits h" by blast
  let ?held = "held(i := q)"
  have "\<forall>j. held j @ written j [c] = through j (map (Pair i) p) @ ?held j"
    using pq(1) HWrite by simp
  moreover have "\<forall>j < length hs. bw_buffered (hs' ! j) = concat (?held j)"
    using held pq(2) hs' i by (simp add: nth_list_update)
  moreover have "list_all bw_fits hs'" "length hs' = length hs"
    using assms(2) hs' k(2) i by (auto simp: list_all_length nth_list_update)
  ultimately show ?thesis using k(1) pq(3)
    by (intro conjI exI [of _ "map (Pair i) p"] exI [of _ ?held]) (simp_all add: o_def)
next
  case (HFlush i)
  with run obtain h where i: "i < length hs" and hs': "hs' = hs[i := h]"
    and w: "handle_flush write_many (hs ! i) s = Some (Inr (), h, s')"
    by (auto split: if_splits option.splits sum.splits)
  have "bw_fits (hs ! i)" using assms(2) i by (simp add: list_all_length)
  note f = handle_flush_passes [OF assms(1) this w]
  let ?held = "held(i := [])"
  have "\<forall>j. held j @ written j [c] = through j (map (Pair i) (held i)) @ ?held j"
    using HFlush by simp
  moreover have "\<forall>j < length hs. bw_buffered (hs' ! j) = concat (?held j)"
    using held f hs' i by (simp add: nth_list_update)
  moreover have "list_all bw_fits hs'" "length hs' = length hs"
    using assms(2) hs' f i by (auto simp: list_all_length nth_list_update)
  ultimately show ?thesis using f held [OF i]
    by (intro conjI exI [of _ "map (Pair i) (held i)"] exI [of _ ?held]) (simp_all add: o_def)
next
  case (HPass i ps)
  with run obtain h where i: "i < length hs" "bw_used (hs ! i) = 0" and hs': "hs' = hs[i := h]"
    and w: "handle_pass write_many ps (hs ! i) s = Some (Inr (), h, s')"
    by (auto split: if_splits option.splits sum.splits)
  have "bw_fits (hs ! i)" using assms(2) i by (simp add: list_all_length)
  note f = handle_pass_passes [OF assms(1) this i(2) w]
  have "concat (held i) = []" using held [OF i(1)] i(2) by (simp add: bw_buffered_def)
  let ?p = "held i @ [concat ps]" and ?held = "held(i := [])"
  have "\<forall>j. held j @ written j [c] = through j (map (Pair i) ?p) @ ?held j"
    using HPass by (simp del: map_append)
  moreover have "\<forall>j < length hs. bw_buffered (hs' ! j) = concat (?held j)"
    using held f hs' i by (simp add: nth_list_update)
  moreover have "list_all bw_fits hs'" "length hs' = length hs"
    using assms(2) hs' f i by (auto simp: list_all_length nth_list_update)
  moreover have "concat (map snd (map (Pair i) ?p)) = concat ps"
    using \<open>concat (held i) = []\<close> by (simp add: o_def)
  ultimately show ?thesis using f
    by (intro conjI exI [of _ "map (Pair i) ?p"] exI [of _ ?held]) simp_all
qed

lemma handle_calls_pass:
  "handle_calls cat write_many cs (hs, s) = Some (hs', s') \<Longrightarrow> inv s \<Longrightarrow> list_all bw_fits hs \<Longrightarrow>
   (\<And>i. i < length hs \<Longrightarrow> bw_buffered (hs ! i) = concat (held i)) \<Longrightarrow>
   inv s' \<and> length hs' = length hs \<and>
   (\<exists>passed held'. (\<forall>i. held i @ written i cs = through i passed @ held' i) \<and>
      (\<forall>i < length hs. bw_buffered (hs' ! i) = concat (held' i)) \<and>
      sent s' @ pending s' = sent s @ pending s @ concat (map snd passed))"
proof (induction cs arbitrary: hs s held)
  case Nil
  then show ?case by (intro conjI exI [of _ "[]"] exI [of _ held]) simp_all
next
  case (Cons c cs)
  from Cons.prems(1) obtain hs1 s1 where c: "do_call cat write_many c (hs, s) = Some (hs1, s1)"
    and cs: "handle_calls cat write_many cs (hs1, s1) = Some (hs', s')" by (auto split: option.splits)
  from do_call_passes [OF Cons.prems(2,3) c, of held] Cons.prems(4) obtain p held1 where
    k: "inv s1" "list_all bw_fits hs1" "length hs1 = length hs"
    and h1: "\<forall>i. held i @ written i [c] = through i p @ held1 i"
    and b1: "\<forall>i < length hs. bw_buffered (hs1 ! i) = concat (held1 i)"
    and st: "sent s1 @ pending s1 = sent s @ pending s @ concat (map snd p)" by blast
  from Cons.IH [OF cs k(1,2), of held1] b1 k(3) obtain q held2 where
    k2: "inv s'" "length hs' = length hs"
    and h2: "\<forall>i. held1 i @ written i cs = through i q @ held2 i"
    and b2: "\<forall>i < length hs. bw_buffered (hs' ! i) = concat (held2 i)"
    and st2: "sent s' @ pending s' = sent s1 @ pending s1 @ concat (map snd q)" by auto
  have "held i @ written i (c # cs) = through i (p @ q) @ held2 i" for i
    using spec [OF h1, of i] spec [OF h2, of i] written_append [of i "[c]" cs]
    by simp (metis append.assoc)
  moreover have "sent s' @ pending s' = sent s @ pending s @ concat (map snd (p @ q))"
    using st st2 by simp
  ultimately show ?case using k2 b2
    by (intro conjI exI [of _ "p @ q"] exI [of _ held2]) simp_all
qed

end

locale concurrent_over = buffered_over_unbuffered

sublocale concurrent_over \<subseteq> sh: mutex_over "bw_write_many cat write_many" "bw_flush write_many"
  "\<lambda>s. sent (bw_writer s)" "\<lambda>s. pending (bw_writer s) @ bw_buffered s"
  "\<lambda>s. inv (bw_writer s) \<and> bw_fits s"
  by unfold_locales

sublocale concurrent_over \<subseteq> hd: buffered_over "mw_write_many (bw_write_many cat write_many)"
  "mw_flush (bw_flush write_many)" "\<lambda>s. sent (bw_writer (mw_writer s))"
  "\<lambda>s. pending (bw_writer (mw_writer s)) @ bw_buffered (mw_writer s)"
  "\<lambda>s. (inv (bw_writer (mw_writer s)) \<and> bw_fits (mw_writer s)) \<and> \<not> mw_locked s" cat
  by unfold_locales

interpretation out: concurrent_over "fdw_write_many sys d" fdw_flush sink "\<lambda>w. []"
  "\<lambda>w. writev_appends sys d sink" cat for sys d sink cat
  by unfold_locales

subsection \<open>Standard output\<close>

definition cw_world :: "'w concurrent_writer \<Rightarrow> 'w" where
  "cw_world s = bw_writer (mw_writer s)"

lemma cw_make_simps [simp]:
  "cw_world (cw_make g n w) = w" "bw_writer (mw_writer (cw_make g n w)) = w"
  "bw_buffered (mw_writer (cw_make g n w)) = []"
  "bw_fits (mw_writer (cw_make g n w))" "\<not> mw_locked (cw_make g n w)"
  by (simp_all add: cw_make_def cw_world_def mutex_writer_def buffered_writer_def bw_fits_def bw_buffered_def)

lemma make_handle_simps [simp]:
  "bw_buffered (make_handle g n) = []" "bw_fits (make_handle g n)"
  by (simp_all add: make_handle_def buffered_writer_def bw_fits_def bw_buffered_def)

lemma bw_flush_total:
  "(\<And>ps w. \<exists>res. wm ps w = Some res) \<Longrightarrow> \<exists>res. bw_flush wm s = Some res"
  by (auto simp: bw_flush_def on_writer_def Let_def split: prod.splits)

lemma bw_write_many_total:
  assumes "\<And>ps w. \<exists>res. wm ps w = Some res"
  shows "\<exists>res. bw_write_many cat wm ps s = Some res"
proof -
  have "\<exists>res. on_writer (wm qs) t = Some res" for qs t
    using assms [of qs "bw_writer t"] by (auto simp: on_writer_def)
  moreover obtain r s1 where "bw_flush wm s = Some (r, s1)" using bw_flush_total [OF assms] by fastforce
  ultimately show ?thesis by (auto simp: bw_write_many_def Let_def split: sum.splits)
qed

text \<open>
  On the writer behind standard output every call returns, whatever its buffer holds
  and whichever of the two ways the library lets it pass the buffer on, and releases the lock.
\<close>

theorem stdout_calls_return:
  assumes "writev_appends sys d sink" and "interruptions_end sys d m" and "\<not> mw_locked s"
  shows "(\<exists>r s'. cw_write_many cat sys d ps s = Some (r, s') \<and> \<not> mw_locked s') \<and>
    (\<exists>r s'. cw_flush sys d s = Some (r, s') \<and> \<not> mw_locked s')"
proof -
  have total: "\<exists>res. fdw_write_many sys d ps w = Some res" for ps w
    using write_pieces_total [OF assms(1,2)] by (simp add: fdw_write_many_def)
  have locks: "\<exists>r s'. with_lock f s = Some (r, s') \<and> \<not> mw_locked s'"
    if "\<exists>res. f (mw_writer s) = Some res" for f :: "'a buffered_writer \<Rightarrow> 'a buffered_writer write_result"
    using that assms(3) by (auto simp: with_lock_Some)
  show ?thesis
    unfolding cw_write_many_def cw_flush_def mw_write_many_def mw_flush_def
    by (intro conjI locks bw_write_many_total bw_flush_total total)
qed

theorem stdout_calls_return_witness:
  "(\<exists>r s'. cw_write_many True narrow_sys 1 [''a/b'', [CHR 0x0A]] (cw_make (\<lambda>_. CHR 0x00) 2 ([], 3)) = Some (r, s') \<and>
      \<not> mw_locked s') \<and>
    (\<exists>r s'. cw_flush narrow_sys 1 (cw_make (\<lambda>_. CHR 0x00) 2 ([], 3)) = Some (r, s') \<and> \<not> mw_locked s')"
  by (rule stdout_calls_return [OF narrow_sys_facts]) simp

text \<open>
  C27: whatever the capacity of the buffer (0 for a terminal), after a series of calls that
  succeed both a flush and the destructor return, and the destructor leaves on the descriptor
  exactly what a flush would have. When that flush succeeds the descriptor has received every
  line once, in order; when it fails, an unbroken beginning of them.
\<close>

theorem stdout_lines_in_order:
  assumes "writev_appends sys d sink" and "interruptions_end sys d m"
    and "write_all (cw_write_many cat sys d) lines (cw_make garbage capacity w) = Some s1"
  shows "\<exists>r s2. cw_flush sys d s1 = Some (r, s2) \<and> cw_destroy sys d s1 = Some (cw_world s2) \<and>
    (case r of
       Inr _ \<Rightarrow> sink (cw_world s2) = sink w @ concat (map concat lines)
     | Inl e \<Rightarrow> \<exists>k. sink (cw_world s2) = sink w @ take k (concat (map concat lines)))"
proof -
  have i: "(writev_appends sys d sink \<and> bw_fits (mw_writer (cw_make garbage capacity w))) \<and>
      \<not> mw_locked (cw_make garbage capacity w)"
    using assms(1) by simp
  note a = out.sh.mx.write_all_stream [OF assms(3) [unfolded cw_write_many_def] i [folded cw_world_def]]
  have total: "\<exists>res. fdw_write_many sys d ps w = Some res" for ps w
    using write_pieces_total [OF assms(1,2)] by (simp add: fdw_write_many_def)
  obtain r b where f: "bw_flush (fdw_write_many sys d) (mw_writer s1) = Some (r, b)"
    using bw_flush_total [OF total, where s = "mw_writer s1"] by fastforce
  let ?s2 = "s1\<lparr>mw_writer := b, mw_locked := False\<rparr>"
  have flush: "cw_flush sys d s1 = Some (r, ?s2)" "cw_world ?s2 = bw_writer b"
    using a f by (auto simp: cw_flush_def mw_flush_def with_lock_Some cw_world_def)
  moreover have "cw_destroy sys d s1 = Some (bw_writer b)" using f by (simp add: cw_destroy_def bw_destroy_def)
  moreover have "case r of
       Inr _ \<Rightarrow> sink (bw_writer b) = sink w @ concat (map concat lines)
     | Inl e \<Rightarrow> \<exists>k. sink (bw_writer b) = sink w @ take k (concat (map concat lines))"
  proof (cases r)
    case (Inr u)
    with f have ok: "bw_flush (fdw_write_many sys d) (mw_writer s1) = Some (Inr (), b)" by simp
    from fdb.bw.flush_ok [OF _ ok, of sink] fdb.bw.drained [OF _ ok, of sink] a Inr show ?thesis by simp
  next
    case (Inl e)
    let ?b = "bw_buffered (mw_writer s1)"
    from fdb.flush_through [where sink = sink, OF _ f] a Inl obtain k where
      k: "sink (bw_writer b) = sink (bw_writer (mw_writer s1)) @ take k ?b" by auto
    from out.sh.mx.write_all_grows [OF assms(3) [unfolded cw_write_many_def] i [folded cw_world_def]]
    obtain x where x: "sink (bw_writer (mw_writer s1)) = sink w @ x" by (auto simp: prefix_def)
    with a have "x @ ?b = concat (map concat lines)" by simp
    then have "x @ take k ?b = take (length x + k) (concat (map concat lines))" by (metis take_append take_all add_diff_cancel_left' le_add1)
    with k x Inl show ?thesis by auto
  qed
  ultimately show ?thesis by (intro exI [of _ r] exI [of _ ?s2]) (simp split: sum.splits)
qed

lemma echo_bw_simps [simp]:
  "with_lock f \<lparr>mw_locked = False, mw_writer = b\<rparr> =
     map_option (\<lambda>(r, b). (r, \<lparr>mw_locked = False, mw_writer = b\<rparr>)) (f b)"
  by (cases "f b") (auto simp: with_lock_def)

text \<open>A small buffer: two lines fit, the third goes through with them, the last waits.\<close>

theorem stdout_lines_in_order_witness:
  "\<exists>s1 r s2. write_all (cw_write_many True echo_sys 1) [[''a''], [''bb''], [''cc''], [''d'']] (cw_make (\<lambda>_. CHR 0x00) 3 '''') = Some s1 \<and>
     cw_world s1 = ''abbcc'' \<and> cw_flush echo_sys 1 s1 = Some (r, s2) \<and> r = Inr () \<and>
     cw_destroy echo_sys 1 s1 = Some (cw_world s2) \<and> id (cw_world s2) = id '''' @ ''abbccd''"
proof -
  let ?s = "\<lparr>mw_locked = False, mw_writer = \<lparr>bw_writer = ''abbcc'', bw_buf = ''dbb'', bw_used = 1\<rparr>\<rparr>"
  have run: "write_all (cw_write_many True echo_sys 1) [[''a''], [''bb''], [''cc''], [''d'']] (cw_make (\<lambda>_. CHR 0x00) 3 '''') =
      Some ?s"
    by (simp add: cw_write_many_def mw_write_many_def cw_make_def mutex_writer_def buffered_writer_def
        bw_write_many_def copy_n_def on_writer_def bw_buffered_def echo_write)
  from stdout_lines_in_order [OF echo_sys_facts run] obtain r s2 where
    f: "cw_flush echo_sys 1 ?s = Some (r, s2)" "cw_destroy echo_sys 1 ?s = Some (cw_world s2)"
    and c: "case r of
       Inr _ \<Rightarrow> id (cw_world s2) = id '''' @ concat (map concat [[''a''], [''bb''], [''cc''], [''d'']])
     | Inl e \<Rightarrow> \<exists>k. id (cw_world s2) = id '''' @ take k (concat (map concat [[''a''], [''bb''], [''cc''], [''d'']]))"
    by blast
  from f(1) have "r = Inr ()"
    by (simp add: cw_flush_def mw_flush_def bw_flush_def on_writer_def bw_buffered_def echo_write)
  with run f c show ?thesis by (simp add: cw_world_def)
qed

text \<open>
  C28: with any number of handles, whatever the lock lets in first, also between the two
  halves of a call that takes the lock twice, the calls that were passed on to the shared
  writer appear in one order of whole calls, each handle's in the order it made them; what has
  not been passed on is, whole, in the handle's own buffer.
\<close>

theorem handle_lines_never_mix:
  assumes "writev_appends sys d sink"
    and "handle_calls cat (cw_write_many cat sys d) calls
      (replicate n (make_handle g capacity), cw_make g shared w) = Some (hs, s)"
  shows "\<exists>passed held.
    sink (cw_world s) @ bw_buffered (mw_writer s) = sink w @ concat (map snd passed) \<and>
    (\<forall>i. written i calls = through i passed @ held i) \<and>
    map bw_buffered hs = map (concat \<circ> held) [0..<n]"
proof -
  let ?s0 = "cw_make g shared w"
  have i: "(writev_appends sys d sink \<and> bw_fits (mw_writer ?s0)) \<and> \<not> mw_locked ?s0"
    using assms(1) by simp
  from out.hd.handle_calls_pass [OF assms(2) [unfolded cw_write_many_def] i [folded cw_world_def], of "\<lambda>_. []"]
  obtain passed held where k: "length hs = n" "\<forall>i. written i calls = through i passed @ held i"
    "\<forall>i < n. bw_buffered (hs ! i) = concat (held i)"
    "sink (cw_world s) @ bw_buffered (mw_writer s) = sink w @ concat (map snd passed)"
    by (auto simp: list_all_length cw_world_def)
  have "map bw_buffered hs = map (concat \<circ> held) [0..<n]"
    using k(1,3) by (auto intro: nth_equalityI)
  with k show ?thesis by blast
qed

text \<open>Two handles of three bytes over a shared buffer of none; the second handle overflows.\<close>

definition mixed_calls :: "handle_call list" where
  "mixed_calls = [HWrite 0 [''ab''], HWrite 1 [''xy''], HWrite 1 [''zz''], HWrite 0 [''c''], HPass 1 [''w'']]"

theorem handle_lines_never_mix_witness:
  "\<exists>passed held.
    id (cw_world (cw_make (\<lambda>_. CHR 0x00) 0 ''xyzzw'')) @ [] = id '''' @ concat (map snd passed) \<and>
    (\<forall>i. written i mixed_calls = through i passed @ held i) \<and>
    [''abc'', ''''] = map (concat \<circ> held) [0..<2]"
proof -
  let ?g = "\<lambda>_. CHR 0x00"
  let ?h = "\<lambda>b n. \<lparr>bw_writer = (), bw_buf = b, bw_used = n\<rparr>"
  let ?s = "\<lambda>w. \<lparr>mw_locked = False, mw_writer = \<lparr>bw_writer = w, bw_buf = [], bw_used = 0\<rparr>\<rparr>"
  have r: "handle_calls True (cw_write_many True echo_sys 1) mixed_calls
      (replicate 2 (make_handle ?g 3), cw_make ?g 0 '''') =
      Some ([?h ''abc'' 3, ?h (''xy'' @ [CHR 0x00]) 0], ?s ''xyzzw'')"
    by (simp add: mixed_calls_def handle_pass_def handle_write_many_def by_ref_def deref_def handle_of_def make_handle_def
        cw_write_many_def mw_write_many_def cw_make_def mutex_writer_def buffered_writer_def
        bw_write_many_def copy_n_def on_writer_def bw_buffered_def echo_write numeral_2_eq_2 upt_rec)
  from handle_lines_never_mix [OF echo_sys_facts(1) r] show ?thesis
    by (simp add: cw_world_def bw_buffered_def)
qed

end
