(* ===== verification/Env.thy ===== *)
theory Env
  imports Charconv
begin

section \<open>Environment variables\<close>

text \<open>
  \<open>cutils/os/env.hpp\<close>: reading an environment variable and turning its text into an
  integer, a Boolean or the text itself. \<open>getenv\<close> is a parameter, the environment as a
  function from names to values.
\<close>

datatype env_error = NotSet | Malformed | OutOfRange

subsection \<open>Case-insensitive comparison\<close>

definition ascii_lower :: "char \<Rightarrow> char" where
  "ascii_lower c =
     (if (65::nat) \<le> of_char c \<and> of_char c \<le> (90::nat)
      then char_of ((of_char c :: nat) - 65 + 97) else c)"

definition equals_ignore_case :: "string \<Rightarrow> string \<Rightarrow> bool" where
  "equals_ignore_case lhs rhs = list_all2 (\<lambda>a b. ascii_lower a = ascii_lower b) lhs rhs"

definition matches_any :: "string \<Rightarrow> string list \<Rightarrow> bool" where
  "matches_any text spellings = list_ex (\<lambda>spelling. equals_ignore_case text spelling) spellings"

lemma equals_ignore_case_iff:
  "equals_ignore_case lhs rhs \<longleftrightarrow> map ascii_lower lhs = map ascii_lower rhs"
  unfolding equals_ignore_case_def
  by (simp add: list_all2_conv_all_nth list_eq_iff_nth_eq) fastforce

lemma matches_any_iff:
  "matches_any text spellings \<longleftrightarrow> map ascii_lower text \<in> set (map (map ascii_lower) spellings)"
  by (auto simp: matches_any_def list_ex_iff equals_ignore_case_iff)

subsection \<open>Parsers\<close>

definition env_parse_int :: "int_type \<Rightarrow> string \<Rightarrow> (int, env_error) expected" where
  "env_parse_int ty text =
     (case from_chars ty text of (stopped, ec, v) \<Rightarrow>
        if ec = Some ERANGE then Inl OutOfRange
        else if ec \<noteq> None \<or> stopped \<noteq> length text then Inl Malformed
        else Inr v)"

definition env_parse_bool :: "string \<Rightarrow> (bool, env_error) expected" where
  "env_parse_bool text =
     (if matches_any text [''1'', ''true'', ''yes'', ''on''] then Inr True
      else if matches_any text [''0'', ''false'', ''no'', ''off''] then Inr False
      else Inl Malformed)"

definition env_parse_string_view :: "string \<Rightarrow> (string, env_error) expected" where
  "env_parse_string_view text = Inr text"

definition get_env ::
  "(string \<Rightarrow> ('a, env_error) expected) \<Rightarrow> (string \<Rightarrow> string option) \<Rightarrow> string
    \<Rightarrow> ('a, env_error) expected" where
  "get_env parse getenv name =
     (case getenv name of None \<Rightarrow> Inl NotSet | Some raw \<Rightarrow> parse raw)"

definition get_env_or_default ::
  "(string \<Rightarrow> ('a, env_error) expected) \<Rightarrow> (string \<Rightarrow> string option) \<Rightarrow> string
    \<Rightarrow> 'a \<Rightarrow> 'a" where
  "get_env_or_default parse getenv name fallback = value_or (get_env parse getenv name) fallback"

subsection \<open>What the integer parser accepts\<close>

text \<open>A complete decimal spelling of \<open>v\<close>: digits only, or a minus and digits.\<close>

definition spells :: "int_type \<Rightarrow> string \<Rightarrow> int \<Rightarrow> bool" where
  "spells ty text v \<longleftrightarrow>
     (text \<noteq> [] \<and> list_all is_digit text \<and> v = int (digits_val text)) \<or>
     (is_signed ty \<and> text \<noteq> [] \<and> hd text = CHR ''-'' \<and> tl text \<noteq> [] \<and>
        list_all is_digit (tl text) \<and> v = - int (digits_val (tl text)))"

lemma takeWhile_all_iff: "length (takeWhile P xs) = length xs \<longleftrightarrow> list_all P xs"
  by (induction xs) auto

lemma takeWhile_list_all [simp]: "list_all P xs \<Longrightarrow> takeWhile P xs = xs"
  by (induction xs) auto

lemma from_chars_minus:
  "is_signed ty \<Longrightarrow> from_chars ty (CHR ''-'' # xs) =
     (let ds = takeWhile is_digit xs; v = - int (digits_val ds)
      in if ds = [] then (0, Some EINVAL, 0)
         else if in_range ty v then (Suc (length ds), None, v)
         else (Suc (length ds), Some ERANGE, 0))"
  by (simp add: from_chars_def Let_def)

lemma from_chars_plain:
  "\<not> (is_signed ty \<and> text \<noteq> [] \<and> hd text = CHR ''-'') \<Longrightarrow> from_chars ty text =
     (let ds = takeWhile is_digit text; v = int (digits_val ds)
      in if ds = [] then (0, Some EINVAL, 0)
         else if in_range ty v then (length ds, None, v)
         else (length ds, Some ERANGE, 0))"
  by (auto simp add: from_chars_def Let_def)

lemma env_parse_int_iff:
  "env_parse_int ty text = Inr v \<longleftrightarrow> spells ty text v \<and> in_range ty v"
proof (cases "is_signed ty \<and> text \<noteq> [] \<and> hd text = CHR ''-''")
  case True
  then obtain xs where eq: "text = CHR ''-'' # xs" by (cases "text") auto
  with True eq show ?thesis
    by (auto simp: env_parse_int_def from_chars_minus spells_def Let_def takeWhile_all_iff
        split: if_splits)
next
  case False
  with False show ?thesis
    by (auto simp: env_parse_int_def from_chars_plain [OF False] spells_def Let_def
        takeWhile_all_iff split: if_splits)
qed

lemma env_parse_int_errors:
  "env_parse_int ty text = Inl e \<Longrightarrow> e = Malformed \<or> e = OutOfRange"
  by (auto simp: env_parse_int_def split: prod.splits if_splits)

lemma spells_to_chars: "in_range ty v \<Longrightarrow> spells ty (to_chars v) v"
  using env_parse_int_iff [of ty "to_chars v" v]
  by (simp add: env_parse_int_def from_chars_to_chars)

text \<open>
  The longest numeral at the beginning of the text is outside the type's range.
\<close>

definition begins_out_of_range :: "int_type \<Rightarrow> string \<Rightarrow> bool" where
  "begins_out_of_range ty text \<longleftrightarrow>
     (\<exists>pre rest v. text = pre @ rest \<and> spells ty pre v \<and> \<not> in_range ty v \<and>
        (rest = [] \<or> \<not> is_digit (hd rest)))"

lemma takeWhile_numeral:
  "list_all P ds \<Longrightarrow> rest = [] \<or> \<not> P (hd rest) \<Longrightarrow> takeWhile P (ds @ rest) = ds"
  by (induction ds) (cases rest; auto)+

lemma numeral_rest: "dropWhile P xs = [] \<or> \<not> P (hd (dropWhile P xs))"
  using hd_dropWhile [of P xs] by blast

lemma numeral_all: "list_all P (takeWhile P xs)"
  by (auto simp: list_all_iff dest: set_takeWhileD)

lemma env_parse_int_out_of_range:
  "env_parse_int ty text = Inl OutOfRange \<longleftrightarrow> begins_out_of_range ty text"
proof
  assume l: "env_parse_int ty text = Inl OutOfRange"
  show "begins_out_of_range ty text"
  proof (cases "is_signed ty \<and> text \<noteq> [] \<and> hd text = CHR ''-''")
    case True
    then obtain xs where eq: "text = CHR ''-'' # xs" by (cases "text") auto
    let ?ds = "takeWhile is_digit xs"
    from l True have "?ds \<noteq> []" "\<not> in_range ty (- int (digits_val ?ds))"
      by (auto simp: env_parse_int_def eq from_chars_minus Let_def split: if_splits)
    with True numeral_all [of is_digit xs] have "spells ty (CHR ''-'' # ?ds) (- int (digits_val ?ds))"
      by (simp add: spells_def)
    moreover have "text = (CHR ''-'' # ?ds) @ dropWhile is_digit xs" by (simp add: eq)
    ultimately show ?thesis
      using \<open>\<not> in_range ty _\<close> numeral_rest [of is_digit xs] unfolding begins_out_of_range_def by blast
  next
    case False
    let ?ds = "takeWhile is_digit text"
    from l have "?ds \<noteq> []" "\<not> in_range ty (int (digits_val ?ds))"
      by (auto simp: env_parse_int_def from_chars_plain [OF False] Let_def split: if_splits)
    with numeral_all [of is_digit "text"] have "spells ty ?ds (int (digits_val ?ds))"
      by (simp add: spells_def)
    moreover have "text = ?ds @ dropWhile is_digit text" by simp
    ultimately show ?thesis
      using \<open>\<not> in_range ty _\<close> numeral_rest [of is_digit "text"] unfolding begins_out_of_range_def by blast
  qed
next
  assume "begins_out_of_range ty text"
  then obtain pre rest v where t: "text = pre @ rest" and sp: "spells ty pre v" and out: "\<not> in_range ty v"
    and rest: "rest = [] \<or> \<not> is_digit (hd rest)" unfolding begins_out_of_range_def by blast
  from sp show "env_parse_int ty text = Inl OutOfRange"
    unfolding spells_def
  proof (elim disjE conjE)
    assume d: "pre \<noteq> []" "list_all is_digit pre" "v = int (digits_val pre)"
    then have "\<not> (is_signed ty \<and> text \<noteq> [] \<and> hd text = CHR ''-'')" by (cases pre) (auto simp: t)
    from from_chars_plain [OF this] d out takeWhile_numeral [OF d(2) rest] show ?thesis
      by (simp add: env_parse_int_def t Let_def)
  next
    assume s: "is_signed ty" and m: "pre \<noteq> []" "hd pre = CHR ''-''" "tl pre \<noteq> []"
      and d: "list_all is_digit (tl pre)" "v = - int (digits_val (tl pre))"
    from m have "text = CHR ''-'' # (tl pre @ rest)" by (cases pre) (auto simp: t)
    with from_chars_minus [OF s, of "tl pre @ rest"] m d out takeWhile_numeral [OF d(1) rest] show ?thesis
      by (simp add: env_parse_int_def Let_def)
  qed
qed

subsection \<open>Properties\<close>

text \<open>
  The integer parser returns \<open>v\<close> exactly for the complete decimal spellings of a
  value of the type: no sign on an unsigned type, no plus sign, no blanks and no trailing
  characters, and nothing outside the type's range.
\<close>

theorem env_parse_int_correct:
  "env_parse_int ty text = Inr v \<longleftrightarrow> spells ty text v \<and> in_range ty v"
  by (rule env_parse_int_iff)

text \<open>
  C40: \<open>GetEnv\<close> of an integer on any environment: a value exactly when the variable holds a
  complete decimal spelling of a value in the range of the type, \<open>NotSet\<close> exactly when it is
  not there, \<open>OutOfRange\<close> exactly when the numeral it begins with is too large or too small
  (whatever follows the digits), and \<open>Malformed\<close> in every other case: nothing to read, a sign
  the type does not have, or something after a numeral that is in range. In particular a
  number that was printed is read back exactly when it is in the range of the type.
\<close>

theorem get_env_int_correct:
  "(get_env (env_parse_int ty) getenv name = Inr v \<longleftrightarrow>
      (\<exists>text. getenv name = Some text \<and> spells ty text v \<and> in_range ty v)) \<and>
   (get_env (env_parse_int ty) getenv name = Inl NotSet \<longleftrightarrow> getenv name = None) \<and>
   (get_env (env_parse_int ty) getenv name = Inl OutOfRange \<longleftrightarrow>
      (\<exists>text. getenv name = Some text \<and> begins_out_of_range ty text)) \<and>
   (get_env (env_parse_int ty) getenv name = Inl Malformed \<longleftrightarrow>
      (\<exists>text. getenv name = Some text \<and> \<not> begins_out_of_range ty text \<and>
         \<not> (\<exists>u. spells ty text u \<and> in_range ty u))) \<and>
   (get_env (env_parse_int ty) [name \<mapsto> to_chars v] name = Inr v \<longleftrightarrow> in_range ty v)"
proof (cases "getenv name")
  case None
  then show ?thesis using spells_to_chars [of ty v] by (auto simp: get_env_def env_parse_int_iff)
next
  case (Some raw)
  have "env_parse_int ty raw = Inl Malformed \<longleftrightarrow>
      \<not> begins_out_of_range ty raw \<and> \<not> (\<exists>u. spells ty raw u \<and> in_range ty u)"
    using env_parse_int_iff [of ty raw] env_parse_int_out_of_range [of ty raw]
      env_parse_int_errors [of ty raw] by (cases "env_parse_int ty raw") auto
  with Some show ?thesis
    using spells_to_chars [of ty v] env_parse_int_errors [of ty raw NotSet]
    by (auto simp: get_env_def env_parse_int_iff env_parse_int_out_of_range)
qed

text \<open>
  The Boolean parser accepts the eight listed spellings in any mixture of cases,
  decides by the list the text is in, and rejects everything else as malformed.
\<close>

theorem env_parse_bool_correct:
  "env_parse_bool text =
     (if map ascii_lower text \<in> {''1'', ''true'', ''yes'', ''on''} then Inr True
      else if map ascii_lower text \<in> {''0'', ''false'', ''no'', ''off''} then Inr False
      else Inl Malformed)"
proof -
  have "map (map ascii_lower) [''1'', ''true'', ''yes'', ''on''] = [''1'', ''true'', ''yes'', ''on'']"
    and "map (map ascii_lower) [''0'', ''false'', ''no'', ''off'']
           = [''0'', ''false'', ''no'', ''off'']"
    by (simp_all add: ascii_lower_def)
  then show ?thesis by (simp add: env_parse_bool_def matches_any_iff)
qed

end
