(* ===== verification/Run_Rm.thy ===== *)
theory Run_Rm
  imports Walk Readers Buffered_Writer Env
begin

section \<open>The program\<close>

text \<open>
  The rest of \<open>main.cpp\<close>: the question of \<open>-I\<close>, \<open>unlink(1)\<close>, the loop of \<open>rm(1)\<close> over its
  operands, what becomes of the directories it hands to the scheduler, and \<open>main\<close>. A
  message is the list of the pieces of one call on the standard error writer, whose failures
  the code ignores.
\<close>

subsection \<open>Threads\<close>

definition k_max_threads :: nat where "k_max_threads = 4"

definition thread_count :: "'w sys \<Rightarrow> int" where
  "thread_count sys =
     (let n = get_env_or_default (env_parse_int uint16) (sys_getenv sys) ''REMMY_THREADS'' 0
      in if n > 0 then n else int (min (sys_hardware_concurrency sys) k_max_threads) mod 2 ^ 16)"

subsection \<open>The question of \<open>-I\<close>\<close>

definition k_max_silent_operands :: nat where "k_max_silent_operands = 3"
definition k_prompt_buffer :: nat where "k_prompt_buffer = 256"

record tally =
  t_dirs :: nat
  t_files :: nat
  t_dir_name :: string

fun tally_operands :: "'w sys \<Rightarrow> string list \<Rightarrow> tally \<Rightarrow> 'w \<Rightarrow> tally \<times> 'w" where
  "tally_operands sys [] c w = (c, w)"
| "tally_operands sys (path # paths) c w =
     (case sys_lstat sys path w of
        (Inl e, w) \<Rightarrow> tally_operands sys paths c w
      | (Inr kind, w) \<Rightarrow>
          if kind = Directory
          then tally_operands sys paths (c\<lparr>t_dirs := t_dirs c + 1, t_dir_name := path\<rparr>) w
          else tally_operands sys paths (c\<lparr>t_files := t_files c + 1\<rparr>) w)"

text \<open>The standard error writer: it takes every message.\<close>

definition err_write :: "string list \<Rightarrow> message list \<Rightarrow> message list write_result" where
  "err_write pieces errs = Some (Inr (), errs @ [pieces])"

definition err_flush :: "message list \<Rightarrow> message list write_result" where
  "err_flush errs = Some (Inr (), errs)"

definition err_text :: "message list \<Rightarrow> string" where
  "err_text errs = concat (map concat errs)"

text \<open>\<open>Print(line, ...)\<close>, whose result is ignored.\<close>

type_synonym prompt_line = "message list buffered_writer"

definition print_line :: "bool \<Rightarrow> string \<Rightarrow> fmt_arg list \<Rightarrow> prompt_line \<Rightarrow> prompt_line option" where
  "print_line cat fmt args line = map_option snd (bw_write_many cat err_write (print_pieces fmt args) line)"

definition arg_size :: "nat \<Rightarrow> fmt_arg" where
  "arg_size n = ArgInt uint64 (int n)"

definition print_question :: "bool \<Rightarrow> bool \<Rightarrow> tally \<Rightarrow> prompt_line \<Rightarrow> prompt_line option" where
  "print_question cat ask_recursive c line =
     Option.bind
       (if ask_recursive then
          Option.bind (print_line cat ''recursively remove'' [] line) (\<lambda>line.
            Option.bind
              (if t_dirs c = 1 then print_line cat '' {}'' [ArgStr (t_dir_name c)] line
               else print_line cat '' {} dirs'' [arg_size (t_dirs c)] line) (\<lambda>line.
                 if t_files c = 1 then print_line cat '' and 1 file'' [] line
                 else if t_files c > 1 then print_line cat '' and {} files'' [arg_size (t_files c)] line
                 else Some line))
        else print_line cat ''remove {} files'' [arg_size (t_dirs c + t_files c)] line)
       (\<lambda>line. print_line cat ''? '' [] line)"

text \<open>The line is made anew for every question; its destructor flushes once more.\<close>

definition ask :: "bool \<Rightarrow> (nat \<Rightarrow> char) \<Rightarrow> bool \<Rightarrow> tally \<Rightarrow> message list \<Rightarrow> message list option" where
  "ask cat garbage ask_recursive c errs =
     Option.bind (print_question cat ask_recursive c (buffered_writer garbage k_prompt_buffer errs)) (\<lambda>line.
       Option.bind (bw_flush err_write line) (\<lambda>(_, line). bw_destroy err_write line))"

definition newline :: char where "newline = CHR 0x0A"

text \<open>The answers: \<open>read_byte\<close> and \<open>skip_past\<close> are those of the standard input reader.\<close>

partial_function (option) ask_until_answered ::
  "('i \<Rightarrow> (char option \<times> 'i) option) \<Rightarrow> (char \<Rightarrow> 'i \<Rightarrow> (bool \<times> 'i) option)
    \<Rightarrow> (message list \<Rightarrow> message list option) \<Rightarrow> message list \<Rightarrow> 'i
    \<Rightarrow> (bool \<times> message list \<times> 'i) option" where
  "ask_until_answered read_byte skip_past question errs inp =
     Option.bind (question errs) (\<lambda>errs.
       Option.bind (read_byte inp) (\<lambda>(first, inp).
         Option.bind
           (if first = Some newline then Some (True, inp)
            else if first \<noteq> None then skip_past newline inp else Some (False, inp)) (\<lambda>(line_ended, inp).
              if first = Some (CHR ''y'') \<or> first = Some (CHR ''Y'') then Some (True, errs, inp)
              else if first = Some (CHR ''n'') \<or> first = Some (CHR ''N'') \<or> \<not> line_ended then Some (False, errs, inp)
              else ask_until_answered read_byte skip_past question errs inp)))"

definition confirm_prompt_once ::
  "'w sys \<Rightarrow> bool \<Rightarrow> (nat \<Rightarrow> char) \<Rightarrow> string list \<Rightarrow> bool \<Rightarrow> message list \<Rightarrow> 'w buffered_reader
    \<Rightarrow> (bool \<times> message list \<times> 'w buffered_reader) option" where
  "confirm_prompt_once sys cat garbage operands recursive errs inp =
     (case tally_operands sys operands \<lparr>t_dirs = 0, t_files = 0, t_dir_name = []\<rparr> (br_reader inp) of (c, w) \<Rightarrow>
        let inp = inp\<lparr>br_reader := w\<rparr>;
            ask_recursive = recursive \<and> t_dirs c > 0
        in if \<not> ask_recursive \<and> t_dirs c + t_files c \<le> k_max_silent_operands then Some (True, errs, inp)
           else ask_until_answered (br_read_byte garbage (fdr_read sys stdin_fileno))
             (br_skip_past garbage (fdr_read sys stdin_fileno)) (ask cat garbage ask_recursive c) errs inp)"

subsection \<open>\<open>unlink(1)\<close>\<close>

definition is_a_directory :: string where "is_a_directory = ''{}: is a directory''"

definition run_unlink :: "'w sys \<Rightarrow> unlink_cli \<Rightarrow> message list \<Rightarrow> 'w \<Rightarrow> int \<times> message list \<times> 'w" where
  "run_unlink sys c errs w =
     (let path = unlink_operand c; prog = command_name (get_prog_name sys) (unlink_argv c);
          warn_path = (\<lambda>error. warn (sys_strerror sys) prog error ''{}'' [ArgStr path])
      in case sys_lstat sys path w of
           (Inl e, w) \<Rightarrow> (1, errs @ [warn_path e], w)
         | (Inr kind, w) \<Rightarrow>
             if kind = Directory then (1, errs @ [warnx prog is_a_directory [ArgStr path]], w)
             else
               (case sys_unlink sys path w of
                  (Some e, w) \<Rightarrow> (1, errs @ [warn_path e], w)
                | (None, w) \<Rightarrow> (0, errs, w)))"

subsection \<open>\<open>rm(1)\<close>\<close>

text \<open>
  The failures the loop counts itself, the rest of the run, and the cached user id. The
  command line and the command name are in the prototype of the workers.
\<close>

record rm_state =
  rs_failures :: nat
  rs_run :: run
  rs_euid :: nat

definition rm_fails :: "rm_state \<Rightarrow> rm_state" where
  "rm_fails s = s\<lparr>rs_failures := Suc (rs_failures s)\<rparr>"

definition rm_warns :: "'w worker \<Rightarrow> string \<Rightarrow> errc \<Rightarrow> rm_state \<Rightarrow> rm_state" where
  "rm_warns wk path error s = rm_fails (s\<lparr>rs_run := warn_at wk path error (rs_run s)\<rparr>)"

definition rm_logs :: "'w worker \<Rightarrow> errc option \<Rightarrow> string \<Rightarrow> rm_state \<Rightarrow> rm_state" where
  "rm_logs wk status path s =
     s\<lparr>rs_run := log_if_removed (wk_options wk) status ''{}'' [ArgStr path] (rs_run s)\<rparr>"

text \<open>
  A removal of an operand by name, logged, and reported unless \<open>-f\<close> forgives it.
\<close>

definition remove_named :: "'w worker \<Rightarrow> string \<Rightarrow> errc option \<Rightarrow> rm_state \<Rightarrow> rm_state" where
  "remove_named wk path status s =
     (let s = rm_logs wk status path s
      in case status of
           None \<Rightarrow> s
         | Some error \<Rightarrow> if \<not> opt_force (wk_options wk) \<or> error \<noteq> ENOENT then rm_warns wk path error s else s)"

definition missing_operand :: "'w worker \<Rightarrow> string \<Rightarrow> errc \<Rightarrow> rm_state \<Rightarrow> 'w \<Rightarrow> rm_state" where
  "missing_operand wk path error s w =
     (let force = opt_force (wk_options wk);
          (unprivileged, s) =
            (if force \<and> opt_recursive (wk_options wk)
             then (case get_euid (wk_sys wk) (rs_euid s) w of (euid, cached) \<Rightarrow> (euid \<noteq> 0, s\<lparr>rs_euid := cached\<rparr>))
             else (False, s))
      in if \<not> (force \<and> opt_recursive (wk_options wk) \<and> unprivileged) \<and> (\<not> force \<or> error \<noteq> ENOENT)
         then rm_warns wk path error s else s)"

text \<open>\<open>Submit\<close> accepts the root: nothing stops the scheduler before \<open>Wait\<close>.\<close>

definition seed_root :: "fd \<Rightarrow> string \<Rightarrow> run \<Rightarrow> run" where
  "seed_root dirfd path st =
     (let task = r_next st
      in submit_task task k_runnable
           (st\<lparr>r_heap := (r_heap st)(task \<mapsto> new_dir_node dirfd None path), r_next := Suc task\<rparr>))"

definition unopened_operand :: "'w worker \<Rightarrow> string \<Rightarrow> open_error \<Rightarrow> rm_state \<Rightarrow> 'w \<Rightarrow> rm_state \<times> 'w" where
  "unopened_operand wk path err s w =
     (if \<not> opt_force (wk_options wk) then (rm_warns wk path (oe_code err) s, w)
      else
        (case sys_rmdir (wk_sys wk) path w of (status, w) \<Rightarrow>
           let s = rm_logs wk status path s
           in (if status \<noteq> None \<and> status \<noteq> Some ENOENT then rm_warns wk path (oe_code err) s else s, w)))"

definition directory_operand :: "'w worker \<Rightarrow> string \<Rightarrow> rm_state \<Rightarrow> 'w \<Rightarrow> rm_state \<times> 'w" where
  "directory_operand wk path s w =
     (if \<not> opt_recursive (wk_options wk) then
        (if opt_dir (wk_options wk) then
           (case sys_rmdir (wk_sys wk) path w of (status, w) \<Rightarrow> (remove_named wk path status s, w))
         else
           (rm_fails (s\<lparr>rs_run := (rs_run s)\<lparr>r_err := r_err (rs_run s) @
              [warnx (wk_prog wk) is_a_directory [ArgStr path]]\<rparr>\<rparr>), w))
      else
        (case os_open (wk_sys wk) path OpenDirNoFollow (r_pool (rs_run s)) w of (dirfd, p, w) \<Rightarrow>
           let s = s\<lparr>rs_run := (rs_run s)\<lparr>r_pool := p\<rparr>\<rparr>
           in case dirfd of
                Inl err \<Rightarrow> unopened_operand wk path err s w
              | Inr d \<Rightarrow> (s\<lparr>rs_run := seed_root d path (rs_run s)\<rparr>, w)))"

definition remove_operand :: "'w worker \<Rightarrow> string \<Rightarrow> rm_state \<Rightarrow> 'w \<Rightarrow> rm_state \<times> 'w" where
  "remove_operand wk path s w =
     (case sys_lstat (wk_sys wk) path w of
        (Inl error, w) \<Rightarrow> (missing_operand wk path error s w, w)
      | (Inr kind, w) \<Rightarrow>
          if kind \<noteq> Directory
          then (case sys_unlink (wk_sys wk) path w of (status, w) \<Rightarrow> (remove_named wk path status s, w))
          else directory_operand wk path s w)"

fun remove_operands :: "'w worker \<Rightarrow> string list \<Rightarrow> rm_state \<Rightarrow> 'w \<Rightarrow> rm_state \<times> 'w" where
  "remove_operands wk [] s w = (s, w)"
| "remove_operands wk (path # paths) s w =
     (case remove_operand wk path s w of (s, w) \<Rightarrow> remove_operands wk paths s w)"

text \<open>
  What the scheduler does with the tasks until none is left, one whole task after another;
  \<open>pick\<close> chooses the next among those submitted.
\<close>

partial_function (option) process_all ::
  "'w worker \<Rightarrow> ((nat \<times> nat) list \<Rightarrow> nat) \<Rightarrow> run \<Rightarrow> 'w \<Rightarrow> (run \<times> 'w) option" where
  "process_all wk pick st w =
     (if r_submitted st = [] then Some (st, w)
      else
        (let i = pick (r_submitted st) mod length (r_submitted st);
             task = fst (r_submitted st ! i);
             st = st\<lparr>r_submitted := take i (r_submitted st) @ drop (Suc i) (r_submitted st)\<rparr>
         in Option.bind (process wk task st w) (\<lambda>(st, w). process_all wk pick st w)))"

definition start_run :: "pool \<Rightarrow> message list \<Rightarrow> run" where
  "start_run p errs = \<lparr>r_heap = Map.empty, r_next = 0, r_pool = p, r_out = [], r_err = errs,
     r_submitted = [], r_failures = 0\<rparr>"

definition rm_worker :: "'w sys \<Rightarrow> (nat \<Rightarrow> char) \<Rightarrow> cli \<Rightarrow> 'w worker" where
  "rm_worker sys garbage c =
     \<lparr>wk_sys = sys, wk_options = cli_options c, wk_prog = command_name (get_prog_name sys) (cli_argv c),
      wk_garbage = garbage\<rparr>"

text \<open>\<open>RunRm\<close> after the question: the exit status, the run and the world.\<close>

definition remove_all ::
  "'w sys \<Rightarrow> (nat \<Rightarrow> char) \<Rightarrow> ((nat \<times> nat) list \<Rightarrow> nat) \<Rightarrow> cli \<Rightarrow> pool \<Rightarrow> message list \<Rightarrow> 'w
    \<Rightarrow> (int \<times> run \<times> 'w) option" where
  "remove_all sys garbage pick c p errs w =
     (let wk = rm_worker sys garbage c;
          failures = (if has_dropped_operands c then 1 else 0)
      in case remove_operands wk (cli_operands c)
           \<lparr>rs_failures = failures, rs_run = start_run p errs, rs_euid = k_unloaded\<rparr> w of (s, w) \<Rightarrow>
           Option.bind (process_all wk pick (rs_run s) w) (\<lambda>(st, w).
             Some (if rs_failures s + r_failures st = 0 then 0 else 1, st, w)))"

definition run_rm ::
  "'w sys \<Rightarrow> bool \<Rightarrow> (nat \<Rightarrow> char) \<Rightarrow> ((nat \<times> nat) list \<Rightarrow> nat) \<Rightarrow> cli \<Rightarrow> pool \<Rightarrow> message list
    \<Rightarrow> 'w buffered_reader \<Rightarrow> (int \<times> run \<times> 'w) option" where
  "run_rm sys cat garbage pick c p errs inp =
     (if opt_prompt_once (cli_options c) then
        Option.bind (confirm_prompt_once sys cat garbage (cli_operands c) (opt_recursive (cli_options c)) errs inp)
          (\<lambda>(go, errs, inp).
             if go then remove_all sys garbage pick c p errs (br_reader inp)
             else Some (1, start_run p errs, br_reader inp))
      else remove_all sys garbage pick c p errs (br_reader inp))"

text \<open>\<open>main\<close>: the exit status, the messages on standard error, and the world.\<close>

definition main ::
  "'w sys \<Rightarrow> bool \<Rightarrow> (nat \<Rightarrow> char) \<Rightarrow> ((nat \<times> nat) list \<Rightarrow> nat) \<Rightarrow> string list \<Rightarrow> pool \<Rightarrow> 'w
    \<Rightarrow> (int \<times> message list \<times> 'w) option" where
  "main sys cat garbage pick argv p w =
     (case try_parse_or_abort (get_prog_name sys) argv of
        (Inl code, msgs) \<Rightarrow> Some (code, msgs, w)
      | (Inr (UnlinkCommand c), msgs) \<Rightarrow> Some (run_unlink sys c msgs w)
      | (Inr (RmCommand c), msgs) \<Rightarrow>
          map_option (\<lambda>(code, st, w). (code, r_err st, w))
            (run_rm sys cat garbage pick c p msgs (stdin_reader w)))"

subsection \<open>The text of the question\<close>

interpretation err: unbuffered_writer err_write err_flush err_text "\<lambda>_. []" "\<lambda>_. True"
  by unfold_locales (auto simp: err_write_def err_flush_def err_text_def)

interpretation line: buffered_over_unbuffered err_write err_flush err_text "\<lambda>_. []" "\<lambda>_. True" cat for cat
  by unfold_locales

text \<open>What a reader of standard error will have seen once the line is flushed.\<close>

definition line_text :: "prompt_line \<Rightarrow> string" where
  "line_text line = err_text (bw_writer line) @ bw_buffered line"

lemma err_write_total: "\<exists>res. err_write ps errs = Some res"
  by (simp add: err_write_def)

lemma err_write_bw_ok: "bw_write_many cat err_write ps line = Some (r, line') \<Longrightarrow> r = Inr ()"
  by (erule bw_write_many_cases) (auto simp: err_write_def elim!: bw_flush_cases)

lemma err_write_flush_ok: "bw_flush err_write line = Some (r, line') \<Longrightarrow> r = Inr ()"
  by (erule bw_flush_cases) (auto simp: err_write_def)

definition prints :: "prompt_line option \<Rightarrow> prompt_line \<Rightarrow> string \<Rightarrow> bool" where
  "prints res line s \<longleftrightarrow> (\<exists>line'. res = Some line' \<and> bw_fits line' \<and> line_text line' = line_text line @ s \<and>
     prefix (bw_writer line) (bw_writer line'))"

text \<open>Messages are only added.\<close>

lemma err_write_adds: "bw_flush err_write line = Some (r, line') \<Longrightarrow> prefix (bw_writer line) (bw_writer line')"
  "bw_write_many cat err_write ps line = Some (r, line') \<Longrightarrow> prefix (bw_writer line) (bw_writer line')"
proof -
  show f: "prefix (bw_writer line) (bw_writer line')" if "bw_flush err_write line = Some (r, line')" for r line'
    using that by (rule bw_flush_cases) (auto simp: err_write_def)
  show "bw_write_many cat err_write ps line = Some (r, line') \<Longrightarrow> prefix (bw_writer line) (bw_writer line')"
    by (erule bw_write_many_cases) (auto simp: err_write_def prefix_def dest!: f)
qed

lemma print_line_prints:
  assumes "bw_fits line" and "format_string_ok fmt (length args)"
  shows "prints (print_line cat fmt args line) line (fill fmt (map formatter_view args))"
proof -
  obtain r line' where w: "bw_write_many cat err_write (print_pieces fmt args) line = Some (r, line')"
    using bw_write_many_total [of err_write cat "print_pieces fmt args" line, OF err_write_total] by auto
  with err_write_bw_ok [OF w] have ok: "bw_write_many cat err_write (print_pieces fmt args) line = Some (Inr (), line')"
    by simp
  from line.bw.write_ok [OF _ ok] line.bw.inv_kept(1) [OF _ ok] err_write_adds(2) [OF ok] w assms show ?thesis
    by (simp add: prints_def print_line_def line_text_def print_pieces_def format_pieces_fill)
qed

lemma prints_bind:
  assumes "prints res line s" and "\<And>line'. bw_fits line' \<Longrightarrow> prints (f line') line' s'"
  shows "prints (Option.bind res f) line (s @ s')"
proof -
  from assms(1) obtain line' where l: "res = Some line'" "bw_fits line'" "line_text line' = line_text line @ s"
    "prefix (bw_writer line) (bw_writer line')"
    by (auto simp: prints_def)
  with assms(2) [OF l(2)] show ?thesis by (auto simp: prints_def intro: prefix_order.trans)
qed

lemma prints_nothing: "bw_fits line \<Longrightarrow> prints (Some line) line []"
  by (simp add: prints_def)

definition shown :: "nat \<Rightarrow> string" where
  "shown n = to_chars (int n)"

text \<open>The question, as one text.\<close>

definition question :: "bool \<Rightarrow> tally \<Rightarrow> string" where
  "question ask_recursive c =
     (if ask_recursive then
        ''recursively remove'' @
        (if t_dirs c = 1 then '' '' @ t_dir_name c else '' '' @ shown (t_dirs c) @ '' dirs'') @
        (if t_files c = 1 then '' and 1 file'' else if t_files c > 1 then '' and '' @ shown (t_files c) @ '' files'' else [])
      else ''remove '' @ shown (t_dirs c + t_files c) @ '' files'') @ ''? ''"

lemma formatter_arg_size: "n < 2 ^ 64 \<Longrightarrow> formatter_view (arg_size n) = shown n"
  using formatter_int_exact [of uint64 "int n"]
  by (simp add: arg_size_def shown_def uint64_def in_range_def int_min_def int_max_def)

text \<open>The format strings of the question.\<close>

lemma print_question_lines:
  assumes "bw_fits line"
  shows "prints (print_line cat ''recursively remove'' [] line) line ''recursively remove''"
    and "prints (print_line cat '' {}'' [ArgStr name] line) line ('' '' @ name)"
    and "prints (print_line cat '' and 1 file'' [] line) line '' and 1 file''"
    and "prints (print_line cat ''? '' [] line) line ''? ''"
    and "n < 2 ^ 64 \<Longrightarrow> prints (print_line cat '' {} dirs'' [arg_size n] line) line ('' '' @ shown n @ '' dirs'')"
    and "n < 2 ^ 64 \<Longrightarrow> prints (print_line cat '' and {} files'' [arg_size n] line) line ('' and '' @ shown n @ '' files'')"
    and "n < 2 ^ 64 \<Longrightarrow> prints (print_line cat ''remove {} files'' [arg_size n] line) line (''remove '' @ shown n @ '' files'')"
  using print_line_prints [OF assms, of "''recursively remove''" "[]" cat]
    print_line_prints [OF assms, of "'' {}''" "[ArgStr name]" cat]
    print_line_prints [OF assms, of "'' and 1 file''" "[]" cat]
    print_line_prints [OF assms, of "''? ''" "[]" cat]
    print_line_prints [OF assms, of "'' {} dirs''" "[arg_size n]" cat]
    print_line_prints [OF assms, of "'' and {} files''" "[arg_size n]" cat]
    print_line_prints [OF assms, of "''remove {} files''" "[arg_size n]" cat]
  by (simp_all add: format_string_ok_def formatter_arg_size)

lemma print_question_prints:
  assumes "bw_fits line" and "t_dirs c + t_files c < 2 ^ 64"
  shows "prints (print_question cat ask_recursive c line) line (question ask_recursive c)"
proof -
  have small: "t_dirs c < 2 ^ 64" "t_files c < 2 ^ 64" using assms(2) by linarith+
  note P = print_question_lines
  show ?thesis
  proof (cases ask_recursive)
    case False
    have "prints (print_question cat False c line) line
        ((''remove '' @ shown (t_dirs c + t_files c) @ '' files'') @ ''? '')"
      unfolding print_question_def if_False by (rule prints_bind, rule P(7) [OF assms], erule P(4))
    with False show ?thesis by (simp add: question_def)
  next
    case True
    let ?dirs = "if t_dirs c = 1 then '' '' @ t_dir_name c else '' '' @ shown (t_dirs c) @ '' dirs''"
    let ?files = "if t_files c = 1 then '' and 1 file''
      else if t_files c > 1 then '' and '' @ shown (t_files c) @ '' files'' else []"
    have dirs: "prints (if t_dirs c = 1 then print_line cat '' {}'' [ArgStr (t_dir_name c)] l
        else print_line cat '' {} dirs'' [arg_size (t_dirs c)] l) l ?dirs" if "bw_fits l" for l
      using P [OF that] small by (simp del: append.simps)
    have files: "prints (if t_files c = 1 then print_line cat '' and 1 file'' [] l
        else if t_files c > 1 then print_line cat '' and {} files'' [arg_size (t_files c)] l else Some l) l ?files"
      if "bw_fits l" for l
      using P [OF that] small prints_nothing [OF that] by (simp del: append.simps)
    have "prints (print_question cat True c line) line (((''recursively remove'' @ (?dirs @ ?files))) @ ''? '')"
      unfolding print_question_def if_True
      by (rule prints_bind, rule prints_bind, rule P(1) [OF assms(1)], rule prints_bind, erule dirs, erule files, erule P(4))
    with True show ?thesis by (simp add: question_def)
  qed
qed

lemma ask_text:
  assumes "t_dirs c + t_files c < 2 ^ 64"
  shows "\<exists>errs'. ask cat garbage ask_recursive c errs = Some errs' \<and> prefix errs errs' \<and>
    err_text errs' = err_text errs @ question ask_recursive c"
proof -
  let ?line = "buffered_writer garbage k_prompt_buffer errs :: prompt_line"
  have fresh: "bw_fits ?line" "line_text ?line = err_text errs"
    by (simp_all add: buffered_writer_def bw_fits_def line_text_def bw_buffered_def)
  from print_question_prints [OF fresh(1) assms, of cat ask_recursive] obtain l1 where
    l1: "print_question cat ask_recursive c ?line = Some l1" "bw_fits l1"
      "line_text l1 = err_text errs @ question ask_recursive c" "prefix errs (bw_writer l1)"
    using fresh(2) by (auto simp: prints_def buffered_writer_def)
  obtain r l2 where fl: "bw_flush err_write l1 = Some (r, l2)"
    using bw_flush_total [of err_write l1, OF err_write_total] by auto
  with err_write_flush_ok [OF fl] have fl': "bw_flush err_write l1 = Some (Inr (), l2)" by simp
  from line.bw.flush_ok [OF _ fl'] line.bw.drained [OF _ fl'] l1(2)
  have l2: "err_text (bw_writer l2) = line_text l1" "bw_buffered l2 = []" by (simp_all add: line_text_def)
  have "bw_used l2 = 0" using fl' by (rule bw_flush_cases) auto
  then have "bw_flush err_write l2 = Some (Inr (), l2)" by (simp add: bw_flush_def)
  with l1 l2 fl' show ?thesis
    using prefix_order.trans [OF l1(4) err_write_adds(1) [OF fl']] by (simp add: ask_def bw_destroy_def)
qed

subsection \<open>The answers\<close>

lemma newline_letters [simp]:
  "newline \<noteq> CHR ''y''" "newline \<noteq> CHR ''Y''" "newline \<noteq> CHR ''n''" "newline \<noteq> CHR ''N''"
  by (simp_all add: newline_def)

text \<open>Only the first character of each line counts; the end of the input declines.\<close>

function answer :: "string \<Rightarrow> bool" where
  "answer s =
     (case s of
        [] \<Rightarrow> False
      | c # _ \<Rightarrow>
          if c = CHR ''y'' \<or> c = CHR ''Y'' then True
          else if c = CHR ''n'' \<or> c = CHR ''N'' then False
          else newline \<in> set s \<and> answer (tl (dropWhile (\<lambda>x. x \<noteq> newline) s)))"
  by pat_completeness auto
termination
proof (relation "measure length", simp)
  fix s :: string and c cs
  assume "s = c # cs"
  moreover have "length (dropWhile (\<lambda>x. x \<noteq> newline) s) \<le> length s" by (rule length_dropWhile_le)
  ultimately show "(tl (dropWhile (\<lambda>x. x \<noteq> newline) s), s) \<in> measure length"
    by (cases "dropWhile (\<lambda>x. x \<noteq> newline) s") auto
qed

declare answer.simps [simp del]

lemma answer_simps:
  "answer [] = False"
  "c \<in> {CHR ''y'', CHR ''Y''} \<Longrightarrow> answer (c # s) = True"
  "c \<in> {CHR ''n'', CHR ''N''} \<Longrightarrow> answer (c # s) = False"
  "answer (newline # s) = answer s"
  by (subst answer.simps; force simp: newline_def)+

lemma answer_line:
  "c \<notin> {CHR ''y'', CHR ''Y'', CHR ''n'', CHR ''N'', newline} \<Longrightarrow>
     answer (c # s) = (newline \<in> set s \<and> answer (tl (dropWhile (\<lambda>x. x \<noteq> newline) s)))"
  by (subst answer.simps) auto

lemma ask_until_answered_answers:
  fixes inp :: "'w \<Rightarrow> string" and s :: "'w buffered_reader"
  assumes stdin: "reads_stream sys stdin_fileno inp" "read_interruptions_end sys stdin_fileno m"
    and question: "\<And>errs. \<exists>errs'. ask_fn errs = Some errs' \<and> prefix errs errs' \<and> err_text errs' = err_text errs @ q_text"
    and "br_ok s"
  shows "\<exists>errs' s' k. ask_until_answered (br_read_byte garbage (fdr_read sys stdin_fileno))
      (br_skip_past garbage (fdr_read sys stdin_fileno)) ask_fn errs s =
    Some (answer (unread_input inp s), errs', s') \<and>
    err_text errs' = err_text errs @ q_text @ concat (replicate k q_text)"
  using assms(4)
proof (induction "length (unread_input inp s)" arbitrary: errs s rule: less_induct)
  case less
  let ?read = "br_read_byte garbage (fdr_read sys stdin_fileno)"
  let ?skip = "br_skip_past garbage (fdr_read sys stdin_fileno)"
  obtain errs1 where q: "ask_fn errs = Some errs1" and t1: "err_text errs1 = err_text errs @ q_text"
    using question by blast
  have once: "\<exists>k. err_text errs1 = err_text errs @ q_text @ concat (replicate k q_text)"
    using t1 by (intro exI [of _ 0]) simp
  have again: "\<exists>k'. err_text errs' = err_text errs @ q_text @ concat (replicate k' q_text)"
    if "err_text errs' = err_text errs1 @ q_text @ concat (replicate k q_text)" for errs' k
    using that t1 by (intro exI [of _ "Suc k"]) simp
  obtain s1 where
    rb: "?read s = Some (if unread_input inp s = [] then None else Some (hd (unread_input inp s)), s1)"
    and ok1: "br_ok s1" and u1: "unread_input inp s \<noteq> [] \<longrightarrow> unread_input inp s1 = tl (unread_input inp s)"
    by (rule stdin_read_byte [OF stdin less.prems, of garbage])
  show ?case
  proof (cases "unread_input inp s")
    case Nil
    with q rb once show ?thesis by (subst ask_until_answered.simps) (simp add: answer_simps)
  next
    case (Cons c rest)
    with rb u1 have rb: "?read s = Some (Some c, s1)" and u1: "unread_input inp s1 = rest" by simp_all
    obtain s2 where sk: "?skip newline s1 = Some (newline \<in> set rest, s2)"
      and ok2: "br_ok s2" and u2: "newline \<in> set rest \<longrightarrow> unread_input inp s2 = tl (dropWhile (\<lambda>x. x \<noteq> newline) rest)"
      by (rule stdin_skip_past [OF stdin ok1, of garbage newline, unfolded u1])
    consider "c = newline" | "c \<noteq> newline" "c \<in> {CHR ''y'', CHR ''Y'', CHR ''n'', CHR ''N''}"
      | "c \<notin> {CHR ''y'', CHR ''Y'', CHR ''n'', CHR ''N'', newline}" "newline \<notin> set rest"
      | "c \<notin> {CHR ''y'', CHR ''Y'', CHR ''n'', CHR ''N'', newline}" "newline \<in> set rest"
      by blast
    then show ?thesis
    proof cases
      case 1
      have "length (unread_input inp s1) < length (unread_input inp s)" using Cons u1 by simp
      from less.hyps [OF this ok1, of errs1] q rb 1 Cons u1 show ?thesis
        by (subst ask_until_answered.simps) (auto simp: answer_simps dest: again)
    next
      case 2
      with q rb sk Cons once show ?thesis
        by (subst ask_until_answered.simps) (auto simp: answer_simps)
    next
      case 3
      with q rb sk Cons once show ?thesis
        by (subst ask_until_answered.simps) (simp add: answer_line)
    next
      case 4
      have "length (unread_input inp s2) < length (unread_input inp s)"
        using Cons u2 4 length_dropWhile_le [of "\<lambda>x. x \<noteq> newline" rest] by simp
      from less.hyps [OF this ok2, of errs1] q rb sk 4 Cons u2 show ?thesis
        by (subst ask_until_answered.simps) (auto simp: answer_line dest: again)
    qed
  qed
qed

lemma tally_operands_le:
  "tally_operands sys ps c w = (c', w') \<Longrightarrow> t_dirs c' + t_files c' \<le> t_dirs c + t_files c + length ps"
proof (induction ps arbitrary: c w)
  case (Cons p ps)
  then show ?case by (fastforce split: prod.splits sum.splits if_splits)
qed simp

lemma process_all_none: "r_submitted st = [] \<Longrightarrow> process_all wk pick st w = Some (st, w)"
  by (subst process_all.simps) simp

subsection \<open>Silence and the exit status\<close>

text \<open>A part of the run that adds to the loop's count what it writes on standard error.\<close>

definition rm_balanced :: "options \<Rightarrow> rm_state \<Rightarrow> rm_state \<Rightarrow> bool" where
  "rm_balanced opts s s' \<longleftrightarrow>
     (\<exists>msgs. r_err (rs_run s') = r_err (rs_run s) @ msgs \<and> rs_failures s' = rs_failures s + length msgs) \<and>
     r_failures (rs_run s') = r_failures (rs_run s) \<and> (opt_verbose opts \<or> r_out (rs_run s') = r_out (rs_run s))"

lemma rm_balanced_refl [simp]: "rm_balanced opts s s"
  by (simp add: rm_balanced_def)

lemma rm_balanced_trans: "rm_balanced opts a b \<Longrightarrow> rm_balanced opts b c \<Longrightarrow> rm_balanced opts a c"
  unfolding rm_balanced_def by force

lemma rm_balanced_simps [simp]:
  "rm_balanced opts s (s'\<lparr>rs_euid := u\<rparr>) = rm_balanced opts s s'"
  "rm_balanced opts s (s'\<lparr>rs_run := (rs_run s')\<lparr>r_pool := p\<rparr>\<rparr>) = rm_balanced opts s s'"
  "rm_balanced opts s (s'\<lparr>rs_run := seed_root d path ((rs_run s')\<lparr>r_pool := p\<rparr>)\<rparr>) = rm_balanced opts s s'"
  by (simp_all add: rm_balanced_def seed_root_def submit_task_def Let_def)

lemma rm_warns_balanced [simp]: "rm_balanced opts s s' \<Longrightarrow> rm_balanced opts s (rm_warns wk path e s')"
  by (auto simp: rm_balanced_def rm_warns_def rm_fails_def warn_at_def)

lemma rm_logs_balanced [simp]:
  "rm_balanced (wk_options wk) s s' \<Longrightarrow> rm_balanced (wk_options wk) s (rm_logs wk status path s')"
  by (auto simp: rm_balanced_def rm_logs_def log_if_removed_def)

lemma remove_operand_balanced:
  "remove_operand wk path s w = (s', w') \<Longrightarrow> rm_balanced (wk_options wk) s s'"
proof -
  assume run: "remove_operand wk path s w = (s', w')"
  have named: "rm_balanced (wk_options wk) s (remove_named wk path status s)" for status
    by (simp add: remove_named_def Let_def split: option.split)
  have missing: "rm_balanced (wk_options wk) s (missing_operand wk path e s w1)" for e w1
    by (auto simp: missing_operand_def Let_def split: prod.split)
  have plain: "rm_balanced opts s (rm_fails (s\<lparr>rs_run := (rs_run s)\<lparr>r_err := r_err (rs_run s) @ [m]\<rparr>\<rparr>))" for opts m
    by (simp add: rm_balanced_def rm_fails_def)
  from run show ?thesis
    by (auto simp: remove_operand_def directory_operand_def unopened_operand_def Let_def named missing plain
        split: prod.splits sum.splits if_splits)
qed

lemma remove_operands_balanced:
  "remove_operands wk ps s w = (s', w') \<Longrightarrow> rm_balanced (wk_options wk) s s'"
proof (induction ps arbitrary: s w)
  case (Cons p ps)
  obtain s1 w1 where r: "remove_operand wk p s w = (s1, w1)" by fastforce
  with Cons.prems have "remove_operands wk ps s1 w1 = (s', w')" by simp
  from rm_balanced_trans [OF remove_operand_balanced [OF r] Cons.IH [OF this]] show ?case .
qed simp

lemma process_all_balanced:
  assumes "process_all wk pick st w = Some (st', w')"
  shows "balanced (wk_options wk) st st'"
proof -
  have "wk = wk \<longrightarrow> balanced (wk_options wk) st (fst (st', w'))"
  proof (rule process_all.raw_induct [where P = "\<lambda>wk0 pick st w r. wk0 = wk \<longrightarrow>
        balanced (wk_options wk) st (fst r)", OF _ assms], intro impI)
    fix pa :: "'a worker \<Rightarrow> ((nat \<times> nat) list \<Rightarrow> nat) \<Rightarrow> run \<Rightarrow> 'a \<Rightarrow> (run \<times> 'a) option" and wk0 pick st w r
    assume IH: "\<And>wk0 pick st w r. pa wk0 pick st w = Some r \<Longrightarrow> wk0 = wk \<longrightarrow> balanced (wk_options wk) st (fst r)"
      and run: "(if r_submitted st = [] then Some (st, w)
        else let i = pick (r_submitted st) mod length (r_submitted st); task = fst (r_submitted st ! i);
               st = st\<lparr>r_submitted := take i (r_submitted st) @ drop (Suc i) (r_submitted st)\<rparr>
             in Option.bind (process wk0 task st w) (\<lambda>(st, w). pa wk0 pick st w)) = Some r"
      and wk: "wk0 = wk"
    show "balanced (wk_options wk) st (fst r)"
    proof (cases "r_submitted st = []")
      case True
      with run show ?thesis by auto
    next
      case False
      from run [unfolded wk Let_def] False obtain task st1 w1 q where
        p: "process wk task (st\<lparr>r_submitted := q\<rparr>) w = Some (st1, w1)" and k: "pa wk pick st1 w1 = Some r"
        by (auto elim: bind_SomeE)
      from process_balanced [OF p] have "balanced (wk_options wk) st st1" by (simp add: balanced_def)
      from balanced_trans [OF this] IH [OF k] show ?thesis by blast
    qed
  qed
  then show ?thesis by simp
qed

lemma ask_until_answered_asks:
  assumes "ask_until_answered rb sp ask_fn errs inp = Some (go, errs', inp')"
    and q: "\<And>errs. \<exists>errs'. ask_fn errs = Some errs' \<and> prefix errs errs' \<and> err_text errs' = err_text errs @ q_text"
  shows "prefix errs errs' \<and> (\<exists>k. err_text errs' = err_text errs @ concat (replicate (Suc k) q_text))"
proof -
  let ?asked = "\<lambda>errs r. prefix errs (fst (snd r)) \<and> (\<exists>k. err_text (fst (snd r)) = err_text errs @ concat (replicate (Suc k) q_text))"
  have "ask_fn = ask_fn \<longrightarrow> ?asked errs (go, errs', inp')"
  proof (rule ask_until_answered.raw_induct [where P = "\<lambda>rb sp ask errs inp r. ask = ask_fn \<longrightarrow> ?asked errs r", OF _ assms(1)], intro impI)
    fix aua rb sp ask errs inp r
    assume IH: "\<And>rb sp ask errs inp r. aua rb sp ask errs inp = Some r \<Longrightarrow> ask = ask_fn \<longrightarrow> ?asked errs r"
      and run: "Option.bind (ask errs) (\<lambda>errs. Option.bind (rb inp) (\<lambda>(first, inp).
          Option.bind (if first = Some newline then Some (True, inp)
            else if first \<noteq> None then sp newline inp else Some (False, inp)) (\<lambda>(line_ended, inp).
              if first = Some (CHR ''y'') \<or> first = Some (CHR ''Y'') then Some (True, errs, inp)
              else if first = Some (CHR ''n'') \<or> first = Some (CHR ''N'') \<or> \<not> line_ended then Some (False, errs, inp)
              else aua rb sp ask errs inp))) = Some r"
      and "ask = ask_fn"
    then obtain errs1 where "ask_fn errs = Some errs1" and
      k: "fst (snd r) = errs1 \<or> (\<exists>inp. aua rb sp ask_fn errs1 inp = Some r)"
      by (auto elim!: bind_SomeE split: prod.splits if_splits) blast+
    with q [of errs] have one: "prefix errs errs1" "err_text errs1 = err_text errs @ q_text" by auto
    from k show "?asked errs r"
    proof
      assume "fst (snd r) = errs1"
      with one show ?thesis by (auto intro: exI [of _ 0])
    next
      assume "\<exists>inp. aua rb sp ask_fn errs1 inp = Some r"
      with IH have "?asked errs1 r" by blast
      then obtain k where "prefix errs1 (fst (snd r))"
        "err_text (fst (snd r)) = err_text errs1 @ concat (replicate (Suc k) q_text)" by blast
      with one show ?thesis by (auto intro: prefix_order.trans exI [of _ "Suc k"])
    qed
  qed
  then show ?thesis by simp
qed

lemma confirm_asks:
  assumes run: "confirm_prompt_once sys cat garbage operands recursive errs s = Some (go, errs', s')"
    and "length operands < 2 ^ 64"
    and tallied: "tally_operands sys operands \<lparr>t_dirs = 0, t_files = 0, t_dir_name = []\<rparr> (br_reader s) = (t, w)"
  shows "\<exists>asked k. errs' = errs @ asked \<and> err_text asked = concat (replicate k (question (recursive \<and> 0 < t_dirs t) t)) \<and>
    (k = 0 \<longrightarrow> asked = [] \<and> go)"
proof (cases "\<not> (recursive \<and> 0 < t_dirs t) \<and> t_dirs t + t_files t \<le> k_max_silent_operands")
  case True
  with run tallied have "errs' = errs" "go" by (auto simp: confirm_prompt_once_def Let_def)
  then show ?thesis by (intro exI [of _ "[]"] exI [of _ 0]) (simp add: err_text_def)
next
  case False
  have few: "t_dirs t + t_files t < 2 ^ 64" using tally_operands_le [OF tallied] assms(2) by simp
  from False run tallied have "ask_until_answered (br_read_byte garbage (fdr_read sys stdin_fileno))
      (br_skip_past garbage (fdr_read sys stdin_fileno)) (ask cat garbage (recursive \<and> 0 < t_dirs t) t) errs (s\<lparr>br_reader := w\<rparr>) =
    Some (go, errs', s')"
    by (auto simp: confirm_prompt_once_def Let_def)
  from ask_until_answered_asks [OF this ask_text [OF few]] obtain asked k where
    "errs' = errs @ asked" "err_text errs' = err_text errs @ concat (replicate (Suc k) (question (recursive \<and> 0 < t_dirs t) t))"
    by (auto simp: prefix_def)
  then show ?thesis by (intro exI [of _ asked] exI [of _ "Suc k"]) (simp add: err_text_def)
qed

lemma remove_all_silence:
  assumes "remove_all sys garbage pick c p errs w = Some (code, st, w')"
  shows "(\<exists>msgs. r_err st = errs @ msgs \<and> (code = 0 \<longleftrightarrow> msgs = [] \<and> \<not> has_dropped_operands c)) \<and>
    (code = 0 \<or> code = 1) \<and> (opt_verbose (cli_options c) \<or> r_out st = [])"
proof -
  let ?wk = "rm_worker sys garbage c"
  let ?n = "if has_dropped_operands c then 1 else 0 :: nat"
  obtain s w1 where ops: "remove_operands ?wk (cli_operands c)
      \<lparr>rs_failures = ?n, rs_run = start_run p errs, rs_euid = k_unloaded\<rparr> w = (s, w1)" by fastforce
  with assms obtain w2 where all: "process_all ?wk pick (rs_run s) w1 = Some (st, w2)"
    and code: "code = (if rs_failures s + r_failures st = 0 then 0 else 1)"
    by (auto simp: remove_all_def Let_def elim: bind_SomeE)
  from remove_operands_balanced [OF ops] obtain m1 where m1: "r_err (rs_run s) = errs @ m1"
    "rs_failures s = ?n + length m1" "r_failures (rs_run s) = 0"
    "opt_verbose (cli_options c) \<or> r_out (rs_run s) = []"
    by (auto simp: rm_balanced_def start_run_def rm_worker_def)
  from process_all_balanced [OF all] obtain m2 where m2: "r_err st = r_err (rs_run s) @ m2"
    "r_failures st = r_failures (rs_run s) + length m2" "opt_verbose (cli_options c) \<or> r_out st = r_out (rs_run s)"
    by (auto simp: balanced_def rm_worker_def)
  show ?thesis using m1 m2 code by auto
qed

text \<open>What the question of \<open>-I\<close> counts.\<close>

definition tallied_operands :: "'w sys \<Rightarrow> string list \<Rightarrow> 'w \<Rightarrow> tally" where
  "tallied_operands sys operands w =
     fst (tally_operands sys operands \<lparr>t_dirs = 0, t_files = 0, t_dir_name = []\<rparr> w)"

lemma run_rm_told:
  assumes run: "run_rm sys cat garbage pick c p m (stdin_reader w) = Some (code, st, w')"
    and few: "length (cli_operands c) < 2 ^ 64" and m: "m = [] \<longleftrightarrow> \<not> has_dropped_operands c"
  shows "(code = 0 \<or> code = 1) \<and>
    (if \<not> opt_prompt_once (cli_options c) then code = 0 \<longleftrightarrow> r_err st = []
     else \<exists>go asked reports inp k.
       confirm_prompt_once sys cat garbage (cli_operands c) (opt_recursive (cli_options c)) m (stdin_reader w) =
         Some (go, m @ asked, inp) \<and>
       err_text asked = concat (replicate k (let t = tallied_operands sys (cli_operands c) w
         in question (opt_recursive (cli_options c) \<and> 0 < t_dirs t) t)) \<and>
       r_err st = m @ asked @ reports \<and>
       (if go then code = 0 \<longleftrightarrow> m = [] \<and> reports = [] else code = 1 \<and> reports = [] \<and> 0 < k))"
proof (cases "opt_prompt_once (cli_options c)")
  case False
  with run have "remove_all sys garbage pick c p m w = Some (code, st, w')"
    by (auto simp: run_rm_def stdin_reader_def buffered_reader_def)
  with remove_all_silence [OF this] m False show ?thesis by auto
next
  case True
  let ?confirm = "confirm_prompt_once sys cat garbage (cli_operands c) (opt_recursive (cli_options c)) m (stdin_reader w)"
  from run True obtain go errs inp where asked: "?confirm = Some (go, errs, inp)"
    and go: "if go then remove_all sys garbage pick c p errs (br_reader inp) = Some (code, st, w')
      else (code, st, w') = (1, start_run p errs, br_reader inp)"
    by (auto simp: run_rm_def elim!: bind_SomeE split: if_splits)
  obtain t w1 where t: "tally_operands sys (cli_operands c) \<lparr>t_dirs = 0, t_files = 0, t_dir_name = []\<rparr> w = (t, w1)" by fastforce
  have "br_reader (stdin_reader w) = w" by (simp add: stdin_reader_def buffered_reader_def)
  from confirm_asks [OF asked few, unfolded this, OF t] obtain q k where errs: "errs = m @ q"
    and q: "err_text q = concat (replicate k (question (opt_recursive (cli_options c) \<and> 0 < t_dirs t) t))"
    and silent: "k = 0 \<longrightarrow> q = [] \<and> go" by blast
  have tt: "tallied_operands sys (cli_operands c) w = t" by (simp add: tallied_operands_def t)
  show ?thesis
  proof (cases go)
    case True
    with remove_all_silence [of sys garbage pick c p errs "br_reader inp" code st w'] go obtain msgs where
      "r_err st = errs @ msgs" "code = 0 \<longleftrightarrow> msgs = [] \<and> \<not> has_dropped_operands c" "code = 0 \<or> code = 1" by auto
    with m True asked errs q tt have "?confirm = Some (True, m @ q, inp) \<and>
       err_text q = concat (replicate k (let t = tallied_operands sys (cli_operands c) w
         in question (opt_recursive (cli_options c) \<and> 0 < t_dirs t) t)) \<and>
       r_err st = m @ q @ msgs \<and>
       (if True then code = 0 \<longleftrightarrow> m = [] \<and> msgs = [] else code = 1 \<and> msgs = [] \<and> 0 < k)"
      by (auto simp: Let_def)
    then have "\<exists>go asked reports inp k. ?confirm = Some (go, m @ asked, inp) \<and>
       err_text asked = concat (replicate k (let t = tallied_operands sys (cli_operands c) w
         in question (opt_recursive (cli_options c) \<and> 0 < t_dirs t) t)) \<and>
       r_err st = m @ asked @ reports \<and>
       (if go then code = 0 \<longleftrightarrow> m = [] \<and> reports = [] else code = 1 \<and> reports = [] \<and> 0 < k)"
      by blast
    with \<open>code = 0 \<or> code = 1\<close> \<open>opt_prompt_once (cli_options c)\<close> show ?thesis by simp
  next
    case False
    with go silent have "code = 1" "r_err st = errs" "0 < k" by (auto simp: start_run_def)
    with False asked errs q tt have "?confirm = Some (False, m @ q, inp) \<and>
       err_text q = concat (replicate k (let t = tallied_operands sys (cli_operands c) w
         in question (opt_recursive (cli_options c) \<and> 0 < t_dirs t) t)) \<and>
       r_err st = m @ q @ [] \<and>
       (if False then code = 0 \<longleftrightarrow> m = [] \<and> [] = [] else code = 1 \<and> [] = [] \<and> 0 < k)"
      by (auto simp: Let_def)
    then have "\<exists>go asked reports inp k. ?confirm = Some (go, m @ asked, inp) \<and>
       err_text asked = concat (replicate k (let t = tallied_operands sys (cli_operands c) w
         in question (opt_recursive (cli_options c) \<and> 0 < t_dirs t) t)) \<and>
       r_err st = m @ asked @ reports \<and>
       (if go then code = 0 \<longleftrightarrow> m = [] \<and> reports = [] else code = 1 \<and> reports = [] \<and> 0 < k)"
      by blast
    with \<open>code = 1\<close> \<open>opt_prompt_once (cli_options c)\<close> show ?thesis by simp
  qed
qed

lemma try_parse_messages:
  "try_parse_or_abort progname argv = (Inr (RmCommand c), msgs) \<Longrightarrow> msgs = [] \<longleftrightarrow> \<not> has_dropped_operands c"
  "try_parse_or_abort progname argv = (Inr (UnlinkCommand u), msgs) \<Longrightarrow> msgs = []"
  by (auto simp: try_parse_or_abort_def drop_unremovable_operands_def Let_def dest!: parse_no_dropped
      dest: check_unsupported_facts(1) split: if_splits sum.splits prod.splits)

lemma run_unlink_silence:
  "run_unlink sys c [] w = (code, msgs, w') \<Longrightarrow> (code = 0 \<longleftrightarrow> msgs = []) \<and> (code = 0 \<or> code = 1)"
  by (auto simp: run_unlink_def Let_def split: prod.splits sum.splits if_splits option.splits)

subsection \<open>Without \<open>-r\<close>\<close>

text \<open>The part of a run only the scheduler and its workers touch.\<close>

definition no_walk :: "run \<Rightarrow> run \<Rightarrow> bool" where
  "no_walk st st' \<longleftrightarrow> r_heap st' = r_heap st \<and> r_next st' = r_next st \<and> r_pool st' = r_pool st \<and>
     r_submitted st' = r_submitted st"

lemma no_walk_simps [simp]:
  "no_walk st st" "no_walk st (warn_at wk path e st') = no_walk st st'"
  "no_walk st (log_if_removed opts status fmt args st') = no_walk st st'"
  "no_walk st (st'\<lparr>r_err := m\<rparr>) = no_walk st st'"
  by (simp_all add: no_walk_def warn_at_def log_if_removed_def)

lemma no_walk_rm [simp]:
  "no_walk st (rs_run (rm_warns wk path e s)) = no_walk st (rs_run s)"
  "no_walk st (rs_run (rm_logs wk status path s)) = no_walk st (rs_run s)"
  "no_walk st (rs_run (rm_fails s)) = no_walk st (rs_run s)"
  by (simp_all add: rm_warns_def rm_fails_def rm_logs_def)

lemma remove_operands_no_walk:
  "\<not> opt_recursive (wk_options wk) \<Longrightarrow> no_walk st (rs_run s) \<Longrightarrow>
     no_walk st (rs_run (fst (remove_operands wk ps s w)))"
proof (induction ps arbitrary: s w)
  case (Cons p ps)
  obtain s1 w1 where r: "remove_operand wk p s w = (s1, w1)" by fastforce
  have "no_walk st (rs_run s1)"
    using r Cons.prems
    by (auto simp: remove_operand_def directory_operand_def missing_operand_def remove_named_def Let_def
        split: prod.splits sum.splits if_splits option.splits)
  from Cons.IH [OF Cons.prems(1) this] r show ?case by simp
qed simp

subsection \<open>Properties\<close>

text \<open>
  C17: the exit status and standard error tell the same story, whatever the system answers and
  whichever way the directories are scheduled. A command line that is refused ends with the
  code of the refusal, 64 or 1, and is never refused silently. \<open>unlink\<close> ends with 0 exactly when
  it wrote nothing to standard error, with 1 otherwise, and so does \<open>rm\<close> without \<open>-I\<close>: every
  failure that is not forgiven is both reported and counted, and nothing else is. With \<open>-I\<close> the
  question, repeated some number of times, stands between the reports on dropped operands
  and the others; declined, the run ends with 1 and removes nothing, so no other report
  follows; otherwise it ends with 0 exactly when nothing but the question was written.
\<close>

theorem exit_status_is_silence:
  assumes "main sys cat garbage pick argv p w = Some (code, msgs, w')" and "length argv < 2 ^ 31"
  shows "case try_parse_or_abort (get_prog_name sys) argv of
      (Inl refused, m) \<Rightarrow> code = refused \<and> msgs = m \<and> msgs \<noteq> [] \<and> (code = 64 \<or> code = 1)
    | (Inr (UnlinkCommand u), m) \<Rightarrow> (code = 0 \<or> code = 1) \<and> (code = 0 \<longleftrightarrow> msgs = [])
    | (Inr (RmCommand c), m) \<Rightarrow> (code = 0 \<or> code = 1) \<and>
        (if \<not> opt_prompt_once (cli_options c) then code = 0 \<longleftrightarrow> msgs = []
         else \<exists>go asked reports inp k.
           confirm_prompt_once sys cat garbage (cli_operands c) (opt_recursive (cli_options c)) m (stdin_reader w) =
             Some (go, m @ asked, inp) \<and>
           err_text asked = concat (replicate k (let t = tallied_operands sys (cli_operands c) w
             in question (opt_recursive (cli_options c) \<and> 0 < t_dirs t) t)) \<and>
           msgs = m @ asked @ reports \<and>
           (if go then code = 0 \<longleftrightarrow> m = [] \<and> reports = [] else code = 1 \<and> reports = [] \<and> 0 < k))"
proof -
  obtain r m where parsed: "try_parse_or_abort (get_prog_name sys) argv = (r, m)" by fastforce
  show ?thesis
  proof (cases r)
    case (Inl e)
    with assms(1) parsed have "code = e" "msgs = m" by (simp_all add: main_def)
    with try_parse_error [OF parsed [unfolded Inl]] parsed Inl show ?thesis by auto
  next
    case (Inr command)
    show ?thesis
    proof (cases command)
      case (UnlinkCommand u)
      note pu = parsed [unfolded Inr UnlinkCommand]
      from assms(1) pu try_parse_messages(2) [OF pu] have "run_unlink sys u [] w = (code, msgs, w')"
        by (simp add: main_def)
      from run_unlink_silence [OF this] pu show ?thesis by auto
    next
      case (RmCommand c)
      note pc = parsed [unfolded Inr RmCommand]
      from assms(1) pc obtain st where run: "run_rm sys cat garbage pick c p m (stdin_reader w) = Some (code, st, w')"
        and msgs: "msgs = r_err st" by (auto simp: main_def)
      have few: "length (cli_operands c) < 2 ^ 64" using operands_le_argv [OF pc] assms(2) by simp
      note told = run_rm_told [OF run few try_parse_messages(1) [OF pc]]
      show ?thesis unfolding pc msgs prod.case sum.case command.case by (rule told)
    qed
  qed
qed

theorem exit_status_is_silence_witness:
  "\<exists>code msgs. main null_sys True (\<lambda>_. CHR 0x00) (\<lambda>_. 0) [''rm'', ''a''] initial_pool () = Some (code, msgs, ()) \<and>
     (code = 0 \<or> code = 1) \<and> (code = 0 \<longleftrightarrow> msgs = []) \<and> code = 1"
proof -
  let ?c = "\<lparr>cli_options = default_options, cli_operands = [''a''], cli_argv = [''rm'', ''a''],
      has_dropped_operands = False\<rparr>"
  have parsed: "try_parse_or_abort [] [''rm'', ''a''] = (Inr (RmCommand ?c), [])"
    by code_simp
  have name: "get_prog_name null_sys = []" by (simp add: get_prog_name_def null_sys_def)
  let ?wk = "rm_worker null_sys (\<lambda>_. CHR 0x00) ?c :: unit worker"
  let ?s = "\<lparr>rs_failures = 0, rs_run = start_run initial_pool [], rs_euid = k_unloaded\<rparr>"
  let ?s1 = "rm_warns ?wk ''a'' EIO ?s"
  have "remove_operands ?wk [''a''] ?s () = (?s1, ())"
    by (simp add: remove_operand_def missing_operand_def rm_worker_def null_sys_def default_options_def)
  moreover have "process_all ?wk (\<lambda>_. 0) (rs_run ?s1) () = Some (rs_run ?s1, ())"
    by (rule process_all_none) (simp add: rm_warns_def rm_fails_def warn_at_def start_run_def)
  moreover have "rs_failures ?s1 = 1" by (simp add: rm_warns_def rm_fails_def)
  ultimately have "remove_all null_sys (\<lambda>_. CHR 0x00) (\<lambda>_. 0) ?c initial_pool [] () = Some (1, rs_run ?s1, ())"
    by (simp add: remove_all_def)
  then have run: "main null_sys True (\<lambda>_. CHR 0x00) (\<lambda>_. 0) [''rm'', ''a''] initial_pool () = Some (1, r_err (rs_run ?s1), ())"
    by (simp add: main_def name parsed run_rm_def stdin_reader_def buffered_reader_def)
      (simp add: default_options_def)
  have "(1 = (0 :: int) \<or> 1 = (1 :: int)) \<and> (1 = (0 :: int) \<longleftrightarrow> r_err (rs_run ?s1) = [])"
    using exit_status_is_silence [OF run] by (simp add: name parsed default_options_def)
  with run show ?thesis by (intro exI [of _ 1] exI [of _ "r_err (rs_run ?s1)"]) simp
qed

text \<open>
  Without \<open>-r\<close> the run always returns and no directory is opened: no node is made,
  nothing is handed to the scheduler and no descriptor of the pool is used.
\<close>

theorem without_r_opens_nothing:
  assumes "\<not> opt_recursive (cli_options c)"
  shows "\<exists>code st w'. remove_all sys garbage pick c p errs w = Some (code, st, w') \<and>
    r_heap st = Map.empty \<and> r_next st = 0 \<and> r_submitted st = [] \<and> r_pool st = p"
proof -
  let ?wk = "rm_worker sys garbage c"
  let ?s = "\<lparr>rs_failures = if has_dropped_operands c then 1 else 0, rs_run = start_run p errs, rs_euid = k_unloaded\<rparr>"
  obtain s w1 where ops: "remove_operands ?wk (cli_operands c) ?s w = (s, w1)" by fastforce
  have "no_walk (start_run p errs) (rs_run s)"
    using remove_operands_no_walk [of ?wk "start_run p errs" ?s "cli_operands c" w] ops assms
    by (simp add: rm_worker_def)
  then have st: "r_heap (rs_run s) = Map.empty" "r_next (rs_run s) = 0" "r_submitted (rs_run s) = []"
    "r_pool (rs_run s) = p" by (simp_all add: no_walk_def start_run_def)
  then have "process_all ?wk pick (rs_run s) w1 = Some (rs_run s, w1)" by (intro process_all_none)
  with ops st show ?thesis by (simp add: remove_all_def Let_def)
qed

theorem without_r_opens_nothing_witness:
  "\<exists>code st w'. remove_all null_sys (\<lambda>_. CHR 0x00) (\<lambda>_. 0) \<lparr>cli_options = default_options, cli_operands = [''d''],
      cli_argv = [''rm'', ''d''], has_dropped_operands = False\<rparr> initial_pool [] () = Some (code, st, w') \<and>
    r_heap st = Map.empty \<and> r_next st = 0 \<and> r_submitted st = [] \<and> r_pool st = initial_pool"
  by (rule without_r_opens_nothing) (simp add: default_options_def)

text \<open>
  C18: \<open>-I\<close> asks when a directory is to be removed recursively or more than three operands
  exist, and not otherwise; it goes ahead exactly when it does not ask or the first line that
  begins with \<open>y\<close>, \<open>Y\<close>, \<open>n\<close> or \<open>N\<close> begins with one of the first two; every question has the
  text of the specification, at least one is printed, and the asking comes to an end. The
  lines are those of standard input up to the end of the file or the first error of \<open>read\<close>,
  interruptions apart, which come to an end: a closed standard input has none and declines.
\<close>

theorem confirm_decides:
  fixes operands :: "string list" and s :: "'w buffered_reader"
  assumes stdin: "reads_stream sys stdin_fileno inp" "read_interruptions_end sys stdin_fileno m"
    and "br_ok s" and "length operands < 2 ^ 64"
    and tallied: "tally_operands sys operands \<lparr>t_dirs = 0, t_files = 0, t_dir_name = []\<rparr> (br_reader s) = (c, w)"
  shows "\<exists>go errs' s'. confirm_prompt_once sys cat garbage operands recursive errs s = Some (go, errs', s') \<and>
    (if recursive \<and> 0 < t_dirs c \<or> 3 < t_dirs c + t_files c
     then go = answer (unread_input inp (s\<lparr>br_reader := w\<rparr>)) \<and>
       (\<exists>k. err_text errs' = err_text errs @ concat (replicate (Suc k) (question (recursive \<and> 0 < t_dirs c) c)))
     else go \<and> errs' = errs)"
proof -
  let ?s = "s\<lparr>br_reader := w\<rparr>"
  let ?rec = "recursive \<and> 0 < t_dirs c"
  have few: "t_dirs c + t_files c < 2 ^ 64" using tally_operands_le [OF tallied] assms(4) by simp
  have ok: "br_ok ?s" using assms(3) by (simp add: br_ok_def)
  from ask_until_answered_answers [OF stdin ask_text [OF few, of cat garbage ?rec] ok] obtain errs' s' k where
    asked: "ask_until_answered (br_read_byte garbage (fdr_read sys stdin_fileno))
      (br_skip_past garbage (fdr_read sys stdin_fileno)) (ask cat garbage ?rec c) errs ?s =
      Some (answer (unread_input inp ?s), errs', s')"
    and printed: "err_text errs' = err_text errs @ question ?rec c @ concat (replicate k (question ?rec c))"
    by blast
  show ?thesis
  proof (cases "?rec \<or> 3 < t_dirs c + t_files c")
    case True
    then have "\<not> (\<not> ?rec \<and> t_dirs c + t_files c \<le> 3)" by linarith
    with asked have "confirm_prompt_once sys cat garbage operands recursive errs s =
        Some (answer (unread_input inp ?s), errs', s')"
      unfolding confirm_prompt_once_def tallied prod.case Let_def k_max_silent_operands_def by auto
    with True printed show ?thesis by auto
  next
    case False
    then have "confirm_prompt_once sys cat garbage operands recursive errs s = Some (True, errs, ?s)"
      by (simp add: confirm_prompt_once_def k_max_silent_operands_def tallied Let_def)
    then show ?thesis by (simp only: False if_False) blast
  qed
qed

text \<open>Every operand is a directory.\<close>

definition dirs_sys :: "(string \<times> nat) sys" where
  "dirs_sys = trickle_sys\<lparr>sys_lstat := (\<lambda>path w. (Inr Directory, w))\<rparr>"

lemma dirs_sys_facts:
  "reads_stream dirs_sys d fst" "read_interruptions_end dirs_sys d snd"
  using trickle_sys_facts [of d]
  by (simp_all add: reads_stream_def read_interruptions_end_def dirs_sys_def)

theorem confirm_decides_witness:
  "\<exists>go errs' s'. confirm_prompt_once dirs_sys False (\<lambda>_. CHR 0x00) [''d''] True [] (stdin_reader (''maybe'' @ newline # ''y'', 2 :: nat)) =
      Some (go, errs', s') \<and> go"
proof -
  let ?w = "(''maybe'' @ newline # ''y'', 2 :: nat)"
  have t: "tally_operands dirs_sys [''d''] \<lparr>t_dirs = 0, t_files = 0, t_dir_name = []\<rparr> (br_reader (stdin_reader ?w)) =
      (\<lparr>t_dirs = 1, t_files = 0, t_dir_name = ''d''\<rparr>, ?w)"
    by (simp add: dirs_sys_def stdin_reader_def buffered_reader_def)
  have a: "answer (unread_input fst ((stdin_reader ?w)\<lparr>br_reader := ?w\<rparr>)) = True"
    by (simp add: stdin_reader_def buffered_reader_def unread_input_def br_buffered_def answer_line answer_simps newline_def)
  have ok: "br_ok (stdin_reader ?w)" by (simp add: stdin_reader_def br_ok_buffered_reader k_stdin_capacity_def)
  from confirm_decides [OF dirs_sys_facts ok _ t, where cat = False and garbage = "\<lambda>_. CHR 0x00" and
      recursive = True and errs = "[]"]
  obtain go errs' s' where "confirm_prompt_once dirs_sys False (\<lambda>_. CHR 0x00) [''d''] True [] (stdin_reader ?w) =
      Some (go, errs', s')" and "go = answer (unread_input fst ((stdin_reader ?w)\<lparr>br_reader := ?w\<rparr>))"
    by auto
  then show ?thesis unfolding a by blast
qed

end
