(* ===== verification/Whole_Run.thy ===== *)
theory Whole_Run
  imports Run_Rm
begin

section \<open>What a run leaves behind\<close>

text \<open>
  \<open>RunRm\<close> with its workers, one whole task after another: every descriptor is counted by the
  pool as long as a node holds it, no task is ever one of a node that is gone, and at the end
  there is no node, no task and no descriptor left.
\<close>

subsection \<open>The descriptors of the nodes are leased\<close>

definition node_open :: "heap \<Rightarrow> nat \<Rightarrow> bool" where
  "node_open h n \<longleftrightarrow> (case h n of Some d \<Rightarrow> fd_is_open (dn_fd d) | None \<Rightarrow> False)"

definition open_nodes :: "run \<Rightarrow> nat" where
  "open_nodes st = cnt (node_open (r_heap st)) [0..<r_next st]"

text \<open>\<open>k\<close> more descriptors are held by no node.\<close>

definition leased :: "nat \<Rightarrow> run \<Rightarrow> bool" where
  "leased k st \<longleftrightarrow> (\<forall>n. r_heap st n \<noteq> None \<longrightarrow> n < r_next st) \<and>
     (\<exists>e. bits (r_pool st) = packed (open_nodes st + k) e)"

text \<open>The addresses given out fit the counter, with room for the descriptors of a long path.\<close>

definition few :: "run \<Rightarrow> bool" where
  "few st \<longleftrightarrow> r_next st + 3 < 2 ^ 32"

definition keeps :: "run \<Rightarrow> run \<Rightarrow> bool" where
  "keeps st st' \<longleftrightarrow> r_next st \<le> r_next st' \<and> (leased 0 st \<longrightarrow> few st' \<longrightarrow> leased 0 st')"

lemma keeps_refl [simp]: "keeps st st"
  by (simp add: keeps_def)

lemma keeps_trans: "keeps a b \<Longrightarrow> keeps b c \<Longrightarrow> keeps a c"
  by (auto simp: keeps_def few_def)

lemma open_nodes_le: "open_nodes st \<le> r_next st"
  using cnt_le [of "node_open (r_heap st)" "[0..<r_next st]"] by (simp add: open_nodes_def)

text \<open>What is not a node, an address or the pool does not matter.\<close>

definition same_leases :: "run \<Rightarrow> run \<Rightarrow> bool" where
  "same_leases st st' \<longleftrightarrow> r_heap st' = r_heap st \<and> r_next st' = r_next st \<and> r_pool st' = r_pool st"

lemma same_leases_leased: "same_leases st st' \<Longrightarrow> leased k st' = leased k st"
  by (simp add: same_leases_def leased_def open_nodes_def)

lemma same_leases_simps [simp]:
  "same_leases st st" "same_leases st (warn_at wk path e st') = same_leases st st'"
  "same_leases st (warn_at_entry wk dir name e st') = same_leases st st'"
  "same_leases st (log_if_removed opts status fmt as st') = same_leases st st'"
  "same_leases st (fail st') = same_leases st st'" "same_leases st (submit_task n t st') = same_leases st st'"
  "same_leases st (st'\<lparr>r_submitted := ts\<rparr>) = same_leases st st'" "same_leases st (st'\<lparr>r_err := m\<rparr>) = same_leases st st'"
  by (simp_all add: same_leases_def warn_at_def warn_at_entry_def log_if_removed_def fail_def submit_task_def)

lemma keeps_same: "same_leases st' st'' \<Longrightarrow> keeps st st'' = keeps st st'"
  using same_leases_leased [of st' st'' 0] by (simp add: keeps_def few_def same_leases_def)

lemmas keeps_silent = keeps_same [THEN iffD2, OF _ keeps_refl]

text \<open>A node changes or goes, and the pool with it.\<close>

lemma open_nodes_update:
  "n < r_next st \<Longrightarrow> open_nodes (st\<lparr>r_heap := (r_heap st)(n := x), r_pool := p\<rparr>) + of_bool (node_open (r_heap st) n) =
     open_nodes st + of_bool (case x of Some d \<Rightarrow> fd_is_open (dn_fd d) | None \<Rightarrow> False)"
  using cnt_upt_change [of n "r_next st" "node_open (r_heap st)" "node_open ((r_heap st)(n := x))"]
  by (simp add: open_nodes_def node_open_def)

lemma leased_update:
  assumes "leased k st" and n: "r_heap st n = Some d"
    and "bits p = packed l e" and "l + of_bool (fd_is_open (dn_fd d)) =
      open_nodes st + k + of_bool (case x of Some d \<Rightarrow> fd_is_open (dn_fd d) | None \<Rightarrow> False)"
  shows "leased k (st\<lparr>r_heap := (r_heap st)(n := x), r_pool := p\<rparr>)"
proof -
  have lt: "n < r_next st" using assms(1,2) by (auto simp: leased_def)
  have "open_nodes (st\<lparr>r_heap := (r_heap st)(n := x), r_pool := p\<rparr>) + k = l"
    using open_nodes_update [OF lt, of p x] assms(4) n by (simp add: node_open_def)
  with assms(1,3) lt show ?thesis by (auto simp: leased_def)
qed

lemma remove_empty_leases:
  assumes p: "bits p = packed l e" and l: "Suc (Suc l) < 2 ^ 32"
    and re: "remove_empty sys g h n p w = Some (status, path, p', w')"
  shows "\<exists>e'. bits p' = packed l e'"
proof -
  from re obtain path0 where "path_into g h n = Some path0" by (auto simp: remove_empty_def elim: bind_SomeE)
  with re consider (unchanged) "p' = p"
    | (failed) slash err where "open_long sys (take slash path0) OpenDir p w = (Inl err, p', w')"
    | (opened) slash parent p1 w1 w2 where "open_long sys (take slash path0) OpenDir p w = (Inr parent, p1, w1)"
        "fd_destroy sys parent p1 w2 = (p', w')"
    by (auto simp: remove_empty_def split: if_splits prod.splits option.splits sum.splits)
  then show ?thesis
  proof cases
    case unchanged
    with p show ?thesis by blast
  next
    case failed
    from open_long_leases [OF p l this] show ?thesis by simp
  next
    case opened
    from open_long_leases [OF p l opened(1)] obtain e1 where "bits p1 = packed (Suc l) e1" by auto
    moreover have "0 \<le> parent" using opened(1) by (rule open_long_nonneg)
    ultimately show ?thesis using fd_destroy_owned [OF _ opened(2), of l e1] by simp
  qed
qed

lemma remove_empty_logged_keeps:
  assumes "remove_empty_logged wk n st w = Some (status, path, st', w')"
  shows "keeps st st'" "r_heap st' = r_heap st"
proof -
  from assms obtain p where
    re: "remove_empty (wk_sys wk) (wk_garbage wk) (r_heap st) n (r_pool st) w = Some (status, path, p, w')"
    and st': "st' = log_if_removed (wk_options wk) status ''{}'' [ArgStr path] (st\<lparr>r_pool := p\<rparr>)"
    by (auto simp: remove_empty_logged_def elim!: bind_SomeE)
  have "leased 0 (st\<lparr>r_pool := p\<rparr>)" if "leased 0 st" "few st"
  proof -
    from that obtain e where e: "bits (r_pool st) = packed (open_nodes st) e" by (auto simp: leased_def)
    have "Suc (Suc (open_nodes st)) < 2 ^ 32" using open_nodes_le [of st] that(2) by (simp add: few_def)
    from remove_empty_leases [OF e this re] that(1) show ?thesis by (auto simp: leased_def open_nodes_def)
  qed
  then have k: "keeps st (st\<lparr>r_pool := p\<rparr>)" by (simp add: keeps_def few_def)
  show "keeps st st'" unfolding st' by (rule keeps_same [THEN iffD2, OF _ k]) simp
  show "r_heap st' = r_heap st" by (simp add: st')
qed

lemma delete_dir_node_keeps:
  assumes "delete_dir_node wk n d st w = (st', w')" and n: "r_heap st n = Some d0" "dn_fd d0 = dn_fd d"
  shows "keeps st st'" "r_heap st' = (r_heap st)(n := None)"
proof -
  obtain p w1 where f: "fd_destroy (wk_sys wk) (dn_fd d) (r_pool st) w = (p, w1)" by fastforce
  with assms(1) have st': "st' = st\<lparr>r_heap := (r_heap st)(n := None), r_pool := p\<rparr>" by (auto simp: delete_dir_node_def)
  then show "r_heap st' = (r_heap st)(n := None)" by simp
  have "leased 0 st'" if l: "leased 0 st"
  proof -
    from l n have lt: "n < r_next st" by (auto simp: leased_def)
    from l obtain e where e: "bits (r_pool st) = packed (open_nodes st) e" by (auto simp: leased_def)
    let ?l = "open_nodes (st\<lparr>r_heap := (r_heap st)(n := None), r_pool := p\<rparr>)"
    have "open_nodes st = ?l + of_bool (0 \<le> dn_fd d)"
      using open_nodes_update [OF lt, of p None] n by (simp add: node_open_def fd_is_open_def)
    with e fd_destroy_owned [OF _ f, of ?l e] obtain e' where "bits p = packed ?l e'" by auto
    with l lt show ?thesis unfolding st' by (auto simp: leased_def)
  qed
  then show "keeps st st'" by (simp add: keeps_def st')
qed

lemma fields_keep:
  assumes "r_heap st n = Some d" and "dn_fd d' = dn_fd d"
  shows "keeps st (st\<lparr>r_heap := (r_heap st)(n \<mapsto> d')\<rparr>)"
proof -
  have "leased 0 (st\<lparr>r_heap := (r_heap st)(n \<mapsto> d')\<rparr>)" if l: "leased 0 st"
  proof -
    from l obtain e where "bits (r_pool st) = packed (open_nodes st) e" by (auto simp: leased_def)
    from leased_update [OF l assms(1) this, of "Some d'"] assms(2) show ?thesis by simp
  qed
  then show ?thesis by (simp add: keeps_def)
qed

lemma maybe_cleanup_keeps:
  assumes "maybe_cleanup wk it st w = Some (st', w')"
  shows "keeps st st'"
proof -
  have "keeps st (fst (st', w'))"
  proof (rule maybe_cleanup.raw_induct [where P = "\<lambda>wk it st w r. keeps st (fst r)", OF _ assms], goal_cases)
    case (1 mc wk it st w r)
    show ?case
    proof (cases it)
      case None
      with 1(2) show ?thesis by auto
    next
      case (Some n)
      with 1(2) obtain d where d: "r_heap st n = Some d" by (auto elim: bind_SomeE)
      let ?d = "d\<lparr>dn_refs := dn_refs d - 1\<rparr>"
      let ?st1 = "st\<lparr>r_heap := (r_heap st)(n \<mapsto> ?d)\<rparr>"
      have k1: "keeps st ?st1" by (rule fields_keep [OF d]) simp
      show ?thesis
      proof (cases "dn_refs d = 1")
        case False
        with 1(2) Some d have "r = (?st1, w)" by (simp add: Let_def)
        with k1 show ?thesis by simp
      next
        case True
        with 1(2) Some d obtain status path st2 w2 where
          re: "remove_empty_logged wk n ?st1 w = Some (status, path, st2, w2)"
          by (auto simp: Let_def elim: bind_SomeE)
        define st3 where "st3 = (case status of
            Some error \<Rightarrow> if error \<noteq> ENOENT then warn_at wk path error (fail st2) else st2 | None \<Rightarrow> st2)"
        have same: "same_leases st2 st3" by (simp add: st3_def split: option.split)
        obtain st4 w4 where del: "delete_dir_node wk n ?d st3 w2 = (st4, w4)" by fastforce
        have mc: "mc wk (dn_parent d) st4 w4 = Some r"
          using 1(2) Some d True re del unfolding st3_def by (simp add: Let_def)
        have "keeps st st3"
          using keeps_trans [OF k1 remove_empty_logged_keeps(1) [OF re]] keeps_same [OF same] by blast
        moreover have "r_heap st3 n = Some ?d"
          using same remove_empty_logged_keeps(2) [OF re] by (simp add: same_leases_def)
        with delete_dir_node_keeps(1) [OF del] have "keeps st3 st4" by simp
        moreover have "keeps st4 (fst r)" by (rule 1(1) [OF mc])
        ultimately show ?thesis by (blast intro: keeps_trans)
      qed
    qed
  qed
  then show ?thesis by simp
qed

text \<open>A new node takes over the descriptor it is made with.\<close>

lemma new_node_leased:
  assumes "leased (of_bool (fd_is_open f)) st"
  shows "leased 0 (st\<lparr>r_heap := (r_heap st)(r_next st \<mapsto> new_dir_node f parent name), r_next := Suc (r_next st)\<rparr>)"
proof -
  have "r_heap st (r_next st) = None" using assms by (auto simp: leased_def)
  have "cnt (node_open ((r_heap st)(r_next st \<mapsto> new_dir_node f parent name))) [0..<r_next st] = open_nodes st"
    unfolding open_nodes_def by (rule cnt_cong) (simp add: node_open_def)
  then have "open_nodes (st\<lparr>r_heap := (r_heap st)(r_next st \<mapsto> new_dir_node f parent name), r_next := Suc (r_next st)\<rparr>) =
      open_nodes st + of_bool (fd_is_open f)"
    by (simp add: open_nodes_def node_open_def new_dir_node_def)
  with assms show ?thesis by (auto simp: leased_def less_Suc_eq)
qed

lemma add_child_leased:
  assumes "add_child task f name st = Some st'" and "leased (of_bool (fd_is_open f)) st"
  shows "leased 0 st'"
proof -
  let ?st = "st\<lparr>r_heap := (r_heap st)(r_next st \<mapsto> new_dir_node f (Some task) name), r_next := Suc (r_next st)\<rparr>"
  from assms(1) obtain d where d: "r_heap ?st task = Some d"
    and st': "st' = submit_task (r_next st) (if fd_is_open f then k_runnable else k_awaiting_descriptor)
      (?st\<lparr>r_heap := (r_heap ?st)(task \<mapsto> d\<lparr>dn_refs := dn_refs d + 1\<rparr>)\<rparr>)"
    by (auto simp: add_child_def Let_def elim!: bind_SomeE split: if_splits)
  from new_node_leased [OF assms(2)] have l: "leased 0 ?st" .
  then obtain e where "bits (r_pool ?st) = packed (open_nodes ?st) e" by (auto simp: leased_def)
  from leased_update [OF l d this, of "Some (d\<lparr>dn_refs := dn_refs d + 1\<rparr>)"]
  have "leased 0 (?st\<lparr>r_heap := (r_heap ?st)(task \<mapsto> d\<lparr>dn_refs := dn_refs d + 1\<rparr>)\<rparr>)" by simp
  then show ?thesis unfolding st' by (rule same_leases_leased [THEN iffD2, rotated]) simp
qed

lemma add_child_next: "add_child task f name st = Some st' \<Longrightarrow> r_next st' = Suc (r_next st)"
  by (auto simp: add_child_def Let_def submit_task_def elim!: bind_SomeE)

lemma add_closed_child_keeps:
  "add_child task k_invalid name st = Some st' \<Longrightarrow> keeps st st'"
  using add_child_leased [of task k_invalid name st st'] add_child_next [of task k_invalid name st st']
  by (simp add: keeps_def fd_is_open_def k_invalid_def)

lemma report_entry_keeps: "report_entry wk task name e st = Some st' \<Longrightarrow> same_leases st0 st \<Longrightarrow> same_leases st0 st'"
  by (auto simp: report_entry_def elim!: bind_SomeE)

lemma scan_file_keeps: "scan_file wk task dp d e st w = Some (stop, st', w') \<Longrightarrow> same_leases st st'"
  by (auto simp: scan_file_def Let_def split: prod.splits option.splits if_splits intro: report_entry_keeps)

lemma fd_open_leases:
  assumes "leased 0 st" and "few st" and o: "fd_open sys open_fn (r_pool st) w = (res, p, w')"
  shows "leased (case res of Inr f \<Rightarrow> of_bool (fd_is_open f) | Inl _ \<Rightarrow> 0) (st\<lparr>r_pool := p\<rparr>)"
proof -
  from assms(1) obtain e where e: "bits (r_pool st) = packed (open_nodes st) e" by (auto simp: leased_def)
  have "Suc (open_nodes st) < 2 ^ 32" using open_nodes_le [of st] assms(2) by (simp add: few_def)
  note p = fd_open_packed [OF e this o]
  show ?thesis
  proof (cases res)
    case (Inl err)
    with p assms(1) show ?thesis by (auto simp: leased_def open_nodes_def)
  next
    case (Inr f)
    with o have "fd_is_open f" by (auto simp: fd_is_open_def dest: fd_open_Inr_nonneg)
    with Inr p assms(1) show ?thesis by (auto simp: leased_def open_nodes_def)
  qed
qed

lemmas os_openat_leases = fd_open_leases [of _ sys "sys_openat sys d name fl" for sys d name fl, folded os_openat_def]
lemmas os_open_leases = fd_open_leases [of _ sys "sys_open sys path fl" for sys path fl, folded os_open_def]

lemma same_leases_keeps: "same_leases st st' \<Longrightarrow> keeps st0 st \<Longrightarrow> keeps st0 st'"
  using keeps_same by blast

lemma scan_subdir_keeps:
  assumes "scan_subdir wk task dp d e st w = Some (stop, st', w')"
  shows "keeps st st'"
proof (cases "pool_exhausted (r_pool st)")
  case True
  with assms show ?thesis by (auto simp: scan_subdir_def intro: add_closed_child_keeps)
next
  case False
  obtain res p w1 where o: "os_openat (wk_sys wk) d (d_name e) OpenDirNoFollow (r_pool st) w = (res, p, w1)"
    by (metis prod_cases3)
  let ?st = "st\<lparr>r_pool := p\<rparr>"
  show ?thesis
  proof (cases res)
    case (Inr f)
    with assms False o have c: "add_child task f (d_name e) ?st = Some st'" by (auto simp: scan_subdir_def)
    have "leased 0 st'" if "leased 0 st" "few st'"
    proof -
      have "few st" using that(2) add_child_next [OF c] by (simp add: few_def)
      from os_openat_leases [OF that(1) this o] Inr add_child_leased [OF c] show ?thesis by simp
    qed
    then show ?thesis using add_child_next [OF c] by (simp add: keeps_def)
  next
    case (Inl err)
    have k: "keeps st ?st" using os_openat_leases [OF _ _ o] Inl by (simp add: keeps_def few_def)
    show ?thesis
    proof (cases "oe_retryable err")
      case True
      with assms False o Inl have "add_child task k_invalid (d_name e) ?st = Some st'"
        by (auto simp: scan_subdir_def Let_def)
      from keeps_trans [OF k add_closed_child_keeps [OF this]] show ?thesis .
    next
      case fatal: False
      have "same_leases ?st st'"
        using assms False o Inl fatal
        by (auto simp: scan_subdir_def Let_def split: prod.splits if_splits intro: report_entry_keeps)
      from same_leases_keeps [OF this k] show ?thesis .
    qed
  qed
qed

lemma scan_entry_keeps:
  assumes "scan_entry wk task dp v st w = Some (stop, st', w')"
  shows "keeps st st'"
proof (cases v)
  case (Inl error)
  with assms show ?thesis by (auto simp: scan_entry_def intro!: keeps_silent elim!: bind_SomeE)
next
  case (Inr entry)
  note unlinked = keeps_silent [OF scan_file_keeps] and report = keeps_silent [OF report_entry_keeps [OF _ same_leases_simps(1)]]
  show ?thesis
  proof (cases "entry_is_dot_or_dot_dot entry")
    case True
    with assms Inr show ?thesis by (simp add: scan_entry_def)
  next
    case False
    with assms Inr obtain d where "r_heap st task = Some d" by (auto simp: scan_entry_def elim: bind_SomeE)
    with assms Inr False show ?thesis
      by (auto simp: scan_entry_def Let_def split: sum.splits if_splits prod.splits
          intro: unlinked report scan_subdir_keeps)
  qed
qed

lemma scan_keeps:
  assumes "scan wk task st w = Some (st', w')"
  shows "keeps st st'"
proof -
  from assms obtain dp d where
    "dir_for_each (wk_sys wk) d k_default_dir_buffer_bytes (scan_entry wk task dp) st w = Some (st', w')"
    by (auto simp: scan_def elim!: bind_SomeE)
  then show ?thesis
    by (rule dir_for_each_invariant [where P = "\<lambda>st1 w. keeps st st1"])
      (auto intro: keeps_trans dest: scan_entry_keeps)
qed

lemma dir_node_open_keeps:
  assumes "dir_node_open sys g task (r_heap st) (r_pool st) w = Some (res, h, p, w')"
  shows "keeps st (st\<lparr>r_heap := h, r_pool := p\<rparr>)"
proof -
  from assms obtain d where d: "r_heap st task = Some d" by (auto simp: dir_node_open_def elim: bind_SomeE)
  show ?thesis
  proof (cases "fd_is_open (dn_fd d)")
    case True
    with assms d have "h = r_heap st" "p = r_pool st" by (auto simp: dir_node_open_def)
    then show ?thesis by simp
  next
    case closed: False
    with assms d obtain path where path: "path_into g (r_heap st) task = Some path"
      by (auto simp: dir_node_open_def elim: bind_SomeE)
    obtain r1 p1 w1 where o: "open_long sys path OpenDirNoFollow (r_pool st) w = (r1, p1, w1)" by (metis prod_cases3)
    have "leased 0 (st\<lparr>r_heap := h, r_pool := p\<rparr>)" if l: "leased 0 st" "few st"
    proof -
      from l(1) obtain e where e: "bits (r_pool st) = packed (open_nodes st) e" by (auto simp: leased_def)
      have "Suc (Suc (open_nodes st)) < 2 ^ 32" using open_nodes_le [of st] l(2) by (simp add: few_def)
      from open_long_leases [OF e this o] obtain e1
        where p1: "bits p1 = packed (case r1 of Inr _ \<Rightarrow> Suc (open_nodes st) | Inl _ \<Rightarrow> open_nodes st) e1" by blast
      show ?thesis
      proof (cases r1)
        case (Inl err)
        with assms d closed path o have "h = r_heap st" "p = p1" by (auto simp: dir_node_open_def)
        with p1 Inl l(1) show ?thesis by (auto simp: leased_def open_nodes_def)
      next
        case (Inr f)
        with o have "fd_is_open f" by (auto simp: fd_is_open_def dest: open_long_nonneg)
        moreover have "h = (r_heap st)(task \<mapsto> d\<lparr>dn_fd := f\<rparr>)" "p = p1"
          using assms d closed path o Inr by (auto simp: dir_node_open_def fd_move_assign_def fd_close_def fd_is_open_def)
        ultimately show ?thesis
          using leased_update [OF l(1) d p1, of "Some (d\<lparr>dn_fd := f\<rparr>)"] closed Inr by simp
      qed
    qed
    then show ?thesis by (simp add: keeps_def few_def)
  qed
qed

lemma close_keeps:
  assumes d: "r_heap st task = Some d" and c: "fd_close sys (dn_fd d) (r_pool st) w = (f, p, w')"
  shows "keeps st (st\<lparr>r_heap := (r_heap st)(task \<mapsto> d\<lparr>dn_fd := f\<rparr>), r_pool := p\<rparr>)"
proof -
  have "leased 0 (st\<lparr>r_heap := (r_heap st)(task \<mapsto> d\<lparr>dn_fd := f\<rparr>), r_pool := p\<rparr>)" if l: "leased 0 st"
  proof -
    from l d have lt: "task < r_next st" by (auto simp: leased_def)
    from l obtain e where e: "bits (r_pool st) = packed (open_nodes st) e" by (auto simp: leased_def)
    have f: "\<not> fd_is_open f" using c by (auto simp: fd_close_def k_invalid_def fd_is_open_def split: if_splits)
    let ?st = "st\<lparr>r_heap := (r_heap st)(task \<mapsto> d\<lparr>dn_fd := f\<rparr>), r_pool := p\<rparr>"
    have "open_nodes st = open_nodes ?st + of_bool (0 \<le> dn_fd d)"
      using open_nodes_update [OF lt, of p "Some (d\<lparr>dn_fd := f\<rparr>)"] d f by (simp add: node_open_def fd_is_open_def)
    with e fd_close_owned [OF _ c, of "open_nodes ?st" e] obtain e' where "bits p = packed (open_nodes ?st) e'" by auto
    with l lt show ?thesis by (auto simp: leased_def)
  qed
  then show ?thesis by (simp add: keeps_def)
qed

lemma delete_unopened_keeps:
  assumes "delete_unopened wk task st w = Some (st', w')"
  shows "keeps st st'"
proof -
  from assms obtain d where d: "r_heap st task = Some d" by (auto simp: delete_unopened_def elim: bind_SomeE)
  obtain st1 w1 where del: "delete_dir_node wk task d st w = (st1, w1)" by fastforce
  note k = delete_dir_node_keeps(1) [OF del d refl]
  show ?thesis
  proof (cases "dn_parent d")
    case None
    with assms d del k show ?thesis by (simp add: delete_unopened_def)
  next
    case (Some p)
    with assms d del have "maybe_cleanup wk (Some p) st1 w1 = Some (st', w')"
      by (simp add: delete_unopened_def)
    from keeps_trans [OF k maybe_cleanup_keeps [OF this]] show ?thesis .
  qed
qed

lemma process_unopenable_keeps:
  assumes "process_unopenable wk task err st w = Some (st', w')"
  shows "keeps st st'"
proof -
  from assms obtain report st1 w1 st2 where
    r: "unopenable_fails wk task st w = Some (report, st1, w1)"
    and rp: "(if report then report_unopenable wk task err st1 else Some st1) = Some st2"
    and del: "delete_unopened wk task st2 w1 = Some (st', w')"
    unfolding process_unopenable_def by (elim bind_SomeE) (auto elim: bind_SomeE)
  have 1: "keeps st st1"
    using r by (auto simp: unopenable_fails_def split: if_splits dest: remove_empty_logged_keeps(1))
  have "same_leases st1 st2" using rp by (auto simp: report_unopenable_def split: if_splits)
  from keeps_trans [OF same_leases_keeps [OF this 1] delete_unopened_keeps [OF del]] show ?thesis .
qed

lemma process_keeps:
  assumes "process wk task st w = Some (st', w')"
  shows "keeps st st'"
proof -
  from assms obtain res h p w1 where
    o: "dir_node_open (wk_sys wk) (wk_garbage wk) task (r_heap st) (r_pool st) w = Some (res, h, p, w1)"
    unfolding process_def by (elim bind_SomeE) auto
  let ?st1 = "st\<lparr>r_heap := h, r_pool := p\<rparr>"
  have k1: "keeps st ?st1" by (rule dir_node_open_keeps [OF o])
  show ?thesis
  proof (cases res)
    case (Inl err)
    show ?thesis
    proof (cases "oe_retryable err")
      case True
      with assms o Inl have "st' = submit_task task k_awaiting_descriptor ?st1" by (auto simp: process_def Let_def)
      with same_leases_keeps [OF _ k1, of st'] show ?thesis by simp
    next
      case False
      with assms o Inl have "process_unopenable wk task err ?st1 w1 = Some (st', w')"
        by (simp add: process_def Let_def)
      from keeps_trans [OF k1 process_unopenable_keeps [OF this]] show ?thesis .
    qed
  next
    case (Inr u)
    with assms o obtain st2 w2 d f p2 w3 where sc: "scan wk task ?st1 w1 = Some (st2, w2)"
      and d: "r_heap st2 task = Some d" and c: "fd_close (wk_sys wk) (dn_fd d) (r_pool st2) w2 = (f, p2, w3)"
      and mc: "maybe_cleanup wk (Some task)
        (st2\<lparr>r_heap := (r_heap st2)(task \<mapsto> d\<lparr>dn_fd := f\<rparr>), r_pool := p2\<rparr>) w3 = Some (st', w')"
      by (auto simp: process_def Let_def elim!: bind_SomeE split: prod.splits)
    from keeps_trans [OF keeps_trans [OF k1 scan_keeps [OF sc]] keeps_trans [OF close_keeps [OF d c] maybe_cleanup_keeps [OF mc]]]
    show ?thesis .
  qed
qed

subsection \<open>A run of the protocol\<close>

text \<open>
  The run agrees with a state of the protocol in which the one worker is idle: between two
  tasks there is nothing else to agree on.
\<close>

definition follows :: "run \<Rightarrow> bool" where
  "follows st \<longleftrightarrow> (\<exists>s. walk_reachable 1 s \<and> agrees {#} st s \<and> w_phases s = [Idle])"

definition fine :: "run \<Rightarrow> run \<Rightarrow> bool" where
  "fine st st' \<longleftrightarrow> keeps st st' \<and> (follows st \<longrightarrow> follows st')"

lemma fine_refl [simp]: "fine st st"
  by (simp add: fine_def)

lemma fine_trans: "fine a b \<Longrightarrow> fine b c \<Longrightarrow> fine a c"
  by (auto simp: fine_def intro: keeps_trans)

lemma no_walk_fine: "no_walk st st' \<Longrightarrow> fine st st'"
  by (auto simp: fine_def follows_def agrees_def no_walk_def keeps_def few_def leased_def open_nodes_def)

lemma start_follows: "follows (start_run p errs)"
proof -
  have "agrees {#} (start_run p errs) (initial_walk 1)" "w_phases (initial_walk 1) = [Idle]"
    by (simp_all add: agrees_def start_run_def initial_walk_def)
  with walk_start [of 1] show ?thesis unfolding follows_def by blast
qed

lemma start_leased: "bits p = packed 0 e \<Longrightarrow> leased 0 (start_run p errs)"
  by (auto simp: leased_def start_run_def open_nodes_def)

subsubsection \<open>The operands\<close>

lemma pool_fine:
  assumes "os_open sys path fl (r_pool st) w = (Inl err, p, w')"
  shows "fine st (st\<lparr>r_pool := p\<rparr>)"
  using os_open_leases [OF _ _ assms] by (auto simp: fine_def keeps_def few_def follows_def agrees_def)

lemma seed_root_fine:
  assumes "os_open sys path fl (r_pool st) w = (Inr d, p, w')"
  shows "fine st (seed_root d name (st\<lparr>r_pool := p\<rparr>))"
proof -
  let ?st = "st\<lparr>r_pool := p\<rparr>"
  let ?st' = "?st\<lparr>r_heap := (r_heap ?st)(r_next ?st \<mapsto> new_dir_node d None name), r_next := Suc (r_next ?st)\<rparr>"
  have seeded: "seed_root d name ?st = submit_task (r_next st) k_runnable ?st'"
    by (simp add: seed_root_def Let_def)
  have "keeps st ?st'"
    using new_node_leased [of d ?st None name] os_open_leases [OF _ _ assms] by (simp add: keeps_def few_def)
  then have "keeps st (seed_root d name ?st)" unfolding seeded by (rule same_leases_keeps [rotated]) simp
  moreover have "follows (seed_root d name ?st)" if "follows st"
  proof -
    from that obtain s where s: "walk_reachable 1 s" "agrees {#} st s" "w_phases s = [Idle]"
      by (auto simp: follows_def)
    let ?s = "alloc_node d None name s\<lparr>w_tasks := add_mset (w_next s) (w_tasks s)\<rparr>"
    have "walk_reachable 1 ?s" by (rule walk_next [OF s(1) seed])
    moreover have "agrees {#} (seed_root d name ?st) ?s" "w_phases ?s = [Idle]"
      using s(2,3) by (simp_all add: agrees_def seeded submit_task_def)
    ultimately show ?thesis unfolding follows_def by blast
  qed
  ultimately show ?thesis by (simp add: fine_def)
qed

lemma remove_operand_fine:
  assumes "remove_operand wk path s w = (s', w')"
  shows "fine (rs_run s) (rs_run s')"
proof -
  have named: "no_walk st (rs_run (remove_named wk path status s)) = no_walk st (rs_run s)" for st status s
    by (simp add: remove_named_def Let_def split: option.split)
  have missing: "no_walk (rs_run s) (rs_run (missing_operand wk path e s w1))" for e w1
    by (auto simp: missing_operand_def Let_def split: prod.split)
  have unopened: "no_walk (rs_run s1) (rs_run (fst (unopened_operand wk path err s1 w1)))" for err s1 w1
    by (auto simp: unopened_operand_def Let_def split: prod.split)
  have dir: "fine (rs_run s) (rs_run (fst (directory_operand wk path s w1)))" for w1
  proof (cases "opt_recursive (wk_options wk)")
    case False
    then show ?thesis
      by (auto simp: directory_operand_def named no_walk_fine split: prod.split)
  next
    case True
    obtain dirfd p w2 where o: "os_open (wk_sys wk) path OpenDirNoFollow (r_pool (rs_run s)) w1 = (dirfd, p, w2)"
      by (metis prod_cases3)
    show ?thesis
    proof (cases dirfd)
      case (Inl err)
      with True o fine_trans [OF pool_fine [OF o [unfolded Inl]] no_walk_fine [OF unopened
          [of "s\<lparr>rs_run := (rs_run s)\<lparr>r_pool := p\<rparr>\<rparr>" err w2, simplified]]]
      show ?thesis by (simp add: directory_operand_def)
    next
      case (Inr d)
      with True o seed_root_fine [OF o [unfolded Inr]] show ?thesis by (simp add: directory_operand_def)
    qed
  qed
  from assms dir show ?thesis
    by (auto simp: remove_operand_def named missing no_walk_fine split: prod.splits sum.splits if_splits)
      (metis fst_conv)
qed

lemma remove_operands_fine:
  "remove_operands wk ps s w = (s', w') \<Longrightarrow> fine (rs_run s) (rs_run s')"
proof (induction ps arbitrary: s w)
  case (Cons p ps)
  obtain s1 w1 where r: "remove_operand wk p s w = (s1, w1)" by fastforce
  with Cons.prems have "remove_operands wk ps s1 w1 = (s', w')" by simp
  from fine_trans [OF remove_operand_fine [OF r] Cons.IH [OF this]] show ?case .
qed simp

subsubsection \<open>The tasks\<close>

text \<open>The task \<open>process_all\<close> goes on with, and the run without it.\<close>

definition picked :: "((nat \<times> nat) list \<Rightarrow> nat) \<Rightarrow> run \<Rightarrow> nat \<times> run" where
  "picked pick st =
     (let i = pick (r_submitted st) mod length (r_submitted st)
      in (fst (r_submitted st ! i), st\<lparr>r_submitted := take i (r_submitted st) @ drop (Suc i) (r_submitted st)\<rparr>))"

lemma process_all_step:
  "process_all wk pick st w =
     (if r_submitted st = [] then Some (st, w)
      else case picked pick st of (task, st) \<Rightarrow>
        Option.bind (process wk task st w) (\<lambda>(st, w). process_all wk pick st w))"
  by (subst process_all.simps) (simp add: picked_def Let_def)

lemma picked_follows:
  assumes "r_submitted st \<noteq> []" and "picked pick st = (task, st0)" and "follows st"
  shows "\<exists>s. walk_reachable 1 s \<and> agrees {#} st0 s \<and> w_phases s = [Opening task] \<and> r_next st0 = r_next st"
proof -
  from assms(3) obtain s where s: "walk_reachable 1 s" "agrees {#} st s" "w_phases s = [Idle]"
    by (auto simp: follows_def)
  define i where "i = pick (r_submitted st) mod length (r_submitted st)"
  have i: "i < length (r_submitted st)" using assms(1) by (simp add: i_def)
  from assms(2) have task: "task = fst (r_submitted st ! i)"
    and st0: "st0 = st\<lparr>r_submitted := take i (r_submitted st) @ drop (Suc i) (r_submitted st)\<rparr>"
    by (simp_all add: picked_def Let_def i_def)
  have "mset (r_submitted st) = add_mset (r_submitted st ! i) (mset (r_submitted st0))"
    using arg_cong [OF id_take_nth_drop [OF i], of mset] by (simp add: st0)
  then have tasks: "w_tasks s = add_mset task (mset (map fst (r_submitted st0)))"
    using s(2) by (simp add: agrees_def task)
  let ?s = "set_phase 0 (Opening task) (s\<lparr>w_tasks := w_tasks s - {#task#}\<rparr>)"
  have "walk_step s ?s" using tasks s(3) by (intro take_task) simp_all
  from walk_next [OF s(1) this] have "walk_reachable 1 ?s" .
  moreover have "w_tasks s - {#task#} = mset (map fst (r_submitted st0))" by (simp only: tasks add_mset_remove_trivial)
  with s(2) have "agrees {#} st0 ?s" by (simp add: agrees_def picked_def st0 del: mset_map)
  ultimately show ?thesis using s(3) st0 by (intro exI [of _ ?s]) simp
qed

lemma picked_keeps: "picked pick st = (task, st0) \<Longrightarrow> same_leases st st0"
  by (auto simp: picked_def Let_def same_leases_def)

lemma process_fine:
  assumes "r_submitted st \<noteq> []" and p: "picked pick st = (task, st0)" and "process wk task st0 w = Some (st', w')"
  shows "fine st st'"
proof -
  have "follows st'" if f: "follows st"
  proof -
    from picked_follows [OF assms(1) p f] obtain s where s: "walk_reachable 1 s" "agrees {#} st0 s" "w_phases s = [Opening task]"
      by blast
    from process_reaches [OF assms(3) s(2), of 0] s(3) have "worker_reaches {#} s 0 Idle st'" by simp
    then obtain s' where "walk_step\<^sup>*\<^sup>* s s'" "agrees {#} st' s'" "w_phases s' = [Idle]"
      using s(3) by (auto simp: worker_reaches_def)
    with reachable_steps [OF _ s(1)] show ?thesis unfolding follows_def by blast
  qed
  with keeps_trans [OF keeps_silent [OF picked_keeps [OF p]] process_keeps [OF assms(3)]] show ?thesis
    by (simp add: fine_def)
qed

lemma process_all_fine:
  assumes "process_all wk pick st w = Some (st', w')"
  shows "fine st st'" "r_submitted st' = []"
proof -
  have "fine st (fst (st', w')) \<and> r_submitted (fst (st', w')) = []"
  proof (rule process_all.raw_induct [where P = "\<lambda>wk pick st w r. fine st (fst r) \<and> r_submitted (fst r) = []",
        OF _ assms], goal_cases)
    case (1 pa wk pick st w r)
    show ?case
    proof (cases "r_submitted st = []")
      case True
      with 1(2) show ?thesis by auto
    next
      case False
      obtain task st0 where p: "picked pick st = (task, st0)" by fastforce
      with 1(2) False obtain st1 w1 where pr: "process wk task st0 w = Some (st1, w1)" and r: "pa wk pick st1 w1 = Some r"
        by (auto simp: picked_def Let_def elim: bind_SomeE)
      from process_fine [OF False p pr] 1(1) [OF r] show ?thesis by (auto intro: fine_trans)
    qed
  qed
  then show "fine st st'" "r_submitted st' = []" by simp_all
qed

subsection \<open>What is left at the end\<close>

lemma follows_empty:
  assumes "follows st" and "few st" and "r_submitted st = []"
  shows "r_heap st n = None"
proof -
  from assms(1) obtain s where s: "walk_reachable 1 s" "agrees {#} st s" "w_phases s = [Idle]"
    by (auto simp: follows_def)
  from s(2) assms(2) have "1 + 1 + w_next s < 2 ^ 32" by (simp add: agrees_def few_def)
  from reachable_inv [OF s(1) this] have inv: "counts_ok s" "tree_ok s" by simp_all
  have "quiescent s" using s(2,3) assms(3) by (simp add: quiescent_def agrees_def)
  from quiescent_empty [OF inv this] s(2) show ?thesis by (simp add: agrees_def)
qed

lemma open_nodes_empty: "(\<And>n. r_heap st n = None) \<Longrightarrow> open_nodes st = 0"
  by (simp add: open_nodes_def cnt_zero node_open_def)

lemma remove_all_leaves_nothing:
  assumes "remove_all sys garbage pick c p errs w = Some (code, st, w')"
    and "bits p = packed 0 e" and "few st"
  shows "r_submitted st = [] \<and> (\<forall>n. r_heap st n = None) \<and> live (unpack (bits (r_pool st))) = 0"
proof -
  let ?wk = "rm_worker sys garbage c"
  let ?s = "\<lparr>rs_failures = if has_dropped_operands c then 1 else 0, rs_run = start_run p errs, rs_euid = k_unloaded\<rparr>"
  obtain s w1 where ops: "remove_operands ?wk (cli_operands c) ?s w = (s, w1)" by fastforce
  with assms(1) obtain w2 where all: "process_all ?wk pick (rs_run s) w1 = Some (st, w2)"
    by (auto simp: remove_all_def Let_def elim: bind_SomeE)
  have "fine (start_run p errs) st"
    using fine_trans [OF remove_operands_fine [OF ops] process_all_fine(1) [OF all]] by simp
  with start_follows start_leased [OF assms(2)] assms(3) have st: "follows st" "leased 0 st"
    by (auto simp: fine_def keeps_def)
  note none = follows_empty [OF st(1) assms(3) process_all_fine(2) [OF all]]
  from st(2) open_nodes_empty [OF none] obtain e' where "bits (r_pool st) = packed 0 e'" by (auto simp: leased_def)
  with none process_all_fine(2) [OF all] show ?thesis by (simp add: unpack_packed)
qed

subsection \<open>Properties\<close>

text \<open>
  C7: whatever the system answers and whichever task is chosen next, when a run of \<open>rm\<close>
  returns then no task is left, every directory node was deleted, and every descriptor the
  run opened was given back to the pool: none is lost on any path through the program, error
  paths included.
\<close>

theorem run_leaves_nothing:
  assumes "remove_all sys garbage pick c p errs w = Some (code, st, w')"
    and "bits p = packed 0 e" and "few st"
  shows "r_submitted st = [] \<and> (\<forall>n. r_heap st n = None) \<and> live (unpack (bits (r_pool st))) = 0"
  using assms by (rule remove_all_leaves_nothing)

text \<open>\<open>rm -r d\<close> of an empty directory.\<close>

definition tidy_sys :: "unit sys" where
  "tidy_sys = null_sys\<lparr>sys_lstat := (\<lambda>path w. (Inr Directory, w)), sys_open := (\<lambda>path fl w. (Inr 5, w)),
     sys_getdents := (\<lambda>d n w. (Inr [], w)), sys_rmdir := (\<lambda>path w. (None, w))\<rparr>"

definition tidy_cli :: cli where
  "tidy_cli = \<lparr>cli_options = default_options\<lparr>opt_recursive := True\<rparr>, cli_operands = [''d''],
     cli_argv = [''rm'', ''-r'', ''d''], has_dropped_operands = False\<rparr>"

lemma tidy_sys_fields [simp]:
  "sys_lstat tidy_sys path () = (Inr Directory, ())" "sys_open tidy_sys path fl () = (Inr 5, ())"
  "sys_getdents tidy_sys d n () = (Inr [], ())" "sys_rmdir tidy_sys path () = (None, ())"
  "sys_platform tidy_sys = Linux"
  by (simp_all add: tidy_sys_def null_sys_def)

lemma tidy_open: "\<exists>p'. os_open tidy_sys path fl p () = (Inr 5, p', ())"
  by (auto simp: os_open_def fd_open_def Let_def split: prod.split)

lemma tidy_scan: "dir_for_each tidy_sys d sz body st () = Some (st, ())"
  by (simp add: dir_for_each_def dir_read_def dir_fill_def fill_loop.simps dir_loop.simps at_end_def)

lemma tidy_path:
  "path_into g [0 \<mapsto> \<lparr>dn_fd = f, dn_parent = None, dn_name = name, dn_refs = r\<rparr>] 0 = Some name"
proof -
  let ?h = "[0 \<mapsto> \<lparr>dn_fd = f, dn_parent = None, dn_name = name, dn_refs = r\<rparr>] :: heap"
  have "heap_ok ?h" by (auto simp: heap_ok_def)
  moreover have "chain_nodes ?h 0 = Some [\<lparr>dn_fd = f, dn_parent = None, dn_name = name, dn_refs = r\<rparr>]"
    by (simp add: chain_nodes_def parent_chain_Some)
  ultimately show ?thesis by (simp add: path_into_eq node_path_def)
qed

abbreviation tidy_worker :: "unit worker" where
  "tidy_worker \<equiv> rm_worker tidy_sys (\<lambda>_. CHR 0x00) tidy_cli"

lemma tidy_cleanup:
  assumes h: "r_heap st = [0 \<mapsto> \<lparr>dn_fd = f, dn_parent = None, dn_name = ''d'', dn_refs = 1\<rparr>]"
  shows "\<exists>st'. maybe_cleanup tidy_worker (Some 0) st () = Some (st', ()) \<and> r_submitted st' = r_submitted st \<and>
    r_next st' = r_next st"
proof -
  let ?st1 = "st\<lparr>r_heap := [0 \<mapsto> \<lparr>dn_fd = f, dn_parent = None, dn_name = ''d'', dn_refs = 0\<rparr>]\<rparr>"
  have "remove_empty tidy_sys (\<lambda>_. CHR 0x00) (r_heap ?st1) 0 (r_pool st) () = Some (None, ''d'', r_pool st, ())"
    by (simp add: remove_empty_def tidy_path path_max_def)
  then have re: "remove_empty_logged tidy_worker 0 ?st1 () = Some (None, ''d'', ?st1, ())"
    by (simp add: remove_empty_logged_def rm_worker_def log_if_removed_def tidy_cli_def default_options_def)
  obtain st2 where del: "delete_dir_node tidy_worker 0 \<lparr>dn_fd = f, dn_parent = None, dn_name = ''d'', dn_refs = 0\<rparr> ?st1 () =
      (st2, ())" by (cases "delete_dir_node tidy_worker 0 \<lparr>dn_fd = f, dn_parent = None, dn_name = ''d'', dn_refs = 0\<rparr> ?st1 ()") simp
  then have "r_submitted st2 = r_submitted st" "r_next st2 = r_next st"
    by (auto simp: delete_dir_node_def split: prod.splits)
  with h re del show ?thesis
    by (subst maybe_cleanup.simps, simp add: Let_def, subst maybe_cleanup.simps, simp)
qed

lemma tidy_process:
  assumes h: "r_heap st = [0 \<mapsto> new_dir_node 5 None ''d'']"
  shows "\<exists>st'. process tidy_worker 0 st () = Some (st', ()) \<and> r_submitted st' = r_submitted st \<and> r_next st' = r_next st"
proof -
  obtain p where cl: "fd_close tidy_sys 5 (r_pool st) () = (k_invalid, p, ())"
    by (cases "fd_close tidy_sys 5 (r_pool st) ()") (auto simp: fd_close_def split: if_splits)
  let ?st2 = "st\<lparr>r_heap := [0 \<mapsto> \<lparr>dn_fd = k_invalid, dn_parent = None, dn_name = ''d'', dn_refs = 1\<rparr>], r_pool := p\<rparr>"
  have wk: "wk_sys tidy_worker = tidy_sys" "\<not> opt_verbose (wk_options tidy_worker)"
    by (simp_all add: rm_worker_def tidy_cli_def default_options_def)
  have "dir_node_open tidy_sys (wk_garbage tidy_worker) 0 (r_heap st) (r_pool st) () = Some (Inr (), r_heap st, r_pool st, ())"
    by (simp add: dir_node_open_def h new_dir_node_def fd_is_open_def)
  moreover have "scan tidy_worker 0 (st\<lparr>r_heap := [0 \<mapsto> new_dir_node 5 None ''d'']\<rparr>) () =
      Some (st\<lparr>r_heap := [0 \<mapsto> new_dir_node 5 None ''d'']\<rparr>, ())"
    by (simp add: scan_def wk tidy_scan)
  ultimately have "process tidy_worker 0 st () = maybe_cleanup tidy_worker (Some 0) ?st2 ()"
    using cl unfolding process_def wk by (simp add: h) (simp add: new_dir_node_def)
  with tidy_cleanup [of ?st2 k_invalid] show ?thesis by simp
qed

lemma tidy_operands:
  "\<exists>s. remove_operands tidy_worker [''d'']
      \<lparr>rs_failures = 0, rs_run = start_run initial_pool [], rs_euid = k_unloaded\<rparr> () = (s, ()) \<and>
    r_submitted (rs_run s) = [(0, k_runnable)] \<and> r_heap (rs_run s) = [0 \<mapsto> new_dir_node 5 None ''d''] \<and>
    r_next (rs_run s) = 1"
proof -
  let ?s = "\<lparr>rs_failures = 0, rs_run = start_run initial_pool [], rs_euid = k_unloaded\<rparr>"
  obtain p where o: "os_open tidy_sys ''d'' OpenDirNoFollow initial_pool () = (Inr 5, p, ())"
    using tidy_open by blast
  let ?st = "seed_root 5 ''d'' ((start_run initial_pool [])\<lparr>r_pool := p\<rparr>)"
  have "remove_operands tidy_worker [''d''] ?s () = (?s\<lparr>rs_run := ?st\<rparr>, ())"
    using o by (simp add: remove_operand_def directory_operand_def rm_worker_def start_run_def)
      (simp add: tidy_cli_def)
  moreover have "r_submitted ?st = [(0, k_runnable)]" "r_heap ?st = [0 \<mapsto> new_dir_node 5 None ''d'']" "r_next ?st = 1"
    by (simp_all add: seed_root_def submit_task_def start_run_def Let_def)
  ultimately show ?thesis by simp
qed

lemma tidy_run:
  "\<exists>code st. remove_all tidy_sys (\<lambda>_. CHR 0x00) (\<lambda>_. 0) tidy_cli initial_pool [] () = Some (code, st, ()) \<and> r_next st = 1"
proof -
  obtain s where ops: "remove_operands tidy_worker [''d'']
      \<lparr>rs_failures = 0, rs_run = start_run initial_pool [], rs_euid = k_unloaded\<rparr> () = (s, ())"
    and seeded: "r_submitted (rs_run s) = [(0, k_runnable)]" "r_heap (rs_run s) = [0 \<mapsto> new_dir_node 5 None ''d'']"
      "r_next (rs_run s) = 1" using tidy_operands by blast
  obtain st' where pr: "process tidy_worker 0 ((rs_run s)\<lparr>r_submitted := []\<rparr>) () = Some (st', ())"
    and st': "r_submitted st' = []" "r_next st' = 1"
    using tidy_process [of "(rs_run s)\<lparr>r_submitted := []\<rparr>"] seeded by auto
  have "process_all tidy_worker (\<lambda>_. 0) (rs_run s) () = Some (st', ())"
    using pr process_all_none [OF st'(1)] seeded(1) by (subst process_all.simps) simp
  with ops st'(2) show ?thesis by (simp add: remove_all_def tidy_cli_def)
qed

theorem run_leaves_nothing_witness:
  "\<exists>code st. remove_all tidy_sys (\<lambda>_. CHR 0x00) (\<lambda>_. 0) tidy_cli initial_pool [] () = Some (code, st, ()) \<and>
    r_next st = 1 \<and> r_submitted st = [] \<and> (\<forall>n. r_heap st n = None) \<and> live (unpack (bits (r_pool st))) = 0"
proof -
  obtain code st where r: "remove_all tidy_sys (\<lambda>_. CHR 0x00) (\<lambda>_. 0) tidy_cli initial_pool [] () = Some (code, st, ())"
    and n: "r_next st = 1" using tidy_run by blast
  have "bits initial_pool = packed 0 0" by (simp add: initial_pool_def packed_def)
  from run_leaves_nothing [OF r this] n r show ?thesis by (auto simp: few_def)
qed

end
