(* ===== verification/Run_Ends.thy ===== *)
theory Run_Ends
  imports Whole_Run
begin

section \<open>A run comes to an end\<close>

text \<open>
  The workers of \<open>RunRm\<close>, task by task: the run is never stuck at a task, and if the system
  reports a finite number of directory records and refuses descriptors a finite number of
  times, it comes to an end.
\<close>

text \<open>\<open>process_all\<close>, stopped after at most \<open>k\<close> tasks.\<close>

fun process_some ::
  "'w worker \<Rightarrow> ((nat \<times> nat) list \<Rightarrow> nat) \<Rightarrow> nat \<Rightarrow> run \<Rightarrow> 'w \<Rightarrow> (run \<times> 'w) option" where
  "process_some wk pick 0 st w = Some (st, w)"
| "process_some wk pick (Suc k) st w =
     (if r_submitted st = [] then Some (st, w)
      else case picked pick st of (task, st) \<Rightarrow>
        Option.bind (process wk task st w) (\<lambda>(st, w). process_some wk pick k st w))"

lemma process_some_all:
  "process_some wk pick k st w = Some (st', w') \<Longrightarrow> r_submitted st' = [] \<Longrightarrow>
     process_all wk pick st w = Some (st', w')"
proof (induction k arbitrary: st w)
  case 0
  then show ?case by (simp add: process_all_none)
next
  case (Suc k)
  then show ?case
    by (subst process_all_step) (auto split: if_splits prod.splits elim!: bind_SomeE)
qed

text \<open>A step of the run, as a relation between the states before and after one task.\<close>

definition goes_on :: "'w worker \<Rightarrow> ((nat \<times> nat) list \<Rightarrow> nat) \<Rightarrow> run \<Rightarrow> 'w \<Rightarrow> run \<Rightarrow> 'w \<Rightarrow> bool" where
  "goes_on wk pick st w st' w' \<longleftrightarrow> r_submitted st \<noteq> [] \<and>
     (\<exists>task st0. picked pick st = (task, st0) \<and> process wk task st0 w = Some (st', w'))"

subsection \<open>No task is stuck\<close>

definition tasks_live :: "run \<Rightarrow> bool" where
  "tasks_live st \<longleftrightarrow> (\<forall>(n, tier) \<in> set (r_submitted st). r_heap st n \<noteq> None)"

lemma follows_run_ok:
  assumes "follows st" and "few st"
  shows "run_ok st" "tasks_live st"
proof -
  from assms(1) obtain s where s: "walk_reachable 1 s" "agrees {#} st s" "w_phases s = [Idle]"
    by (auto simp: follows_def)
  from s(2) assms(2) have "1 + 1 + w_next s < 2 ^ 32" by (simp add: agrees_def few_def)
  from reachable_inv [OF s(1) this] have inv: "counts_ok s" "tree_ok s" by simp_all
  have "r_heap st n \<noteq> None \<Longrightarrow> n < r_next st" for n
    using tree_okD(1) [OF inv(2), of n] s(2) by (auto simp: agrees_def)
  with tree_ok_heap_ok [OF inv(2)] s(2) show "run_ok st" by (simp add: run_ok_def agrees_def)
  have "r_heap st n \<noteq> None" if "(n, tier) \<in> set (r_submitted st)" for n tier
  proof -
    from that s(2) have "held s n" by (force simp: held_def agrees_def)
    from held_live [OF inv this] s(2) show ?thesis by (simp add: agrees_def)
  qed
  then show "tasks_live st" by (auto simp: tasks_live_def)
qed

lemma picked_facts:
  assumes "r_submitted st \<noteq> []" and "picked pick st = (task, st0)"
  shows "\<exists>tier. (task, tier) \<in> set (r_submitted st)" "r_heap st0 = r_heap st" "r_next st0 = r_next st"
    "length (r_submitted st0) < length (r_submitted st)"
proof -
  define i where "i = pick (r_submitted st) mod length (r_submitted st)"
  have i: "i < length (r_submitted st)" using assms(1) by (simp add: i_def)
  from assms(2) have "task = fst (r_submitted st ! i)"
    and st0: "st0 = st\<lparr>r_submitted := take i (r_submitted st) @ drop (Suc i) (r_submitted st)\<rparr>"
    by (simp_all add: picked_def Let_def i_def)
  with nth_mem [OF i] show "\<exists>tier. (task, tier) \<in> set (r_submitted st)" by (metis prod.collapse)
  from st0 i show "r_heap st0 = r_heap st" "r_next st0 = r_next st"
    "length (r_submitted st0) < length (r_submitted st)" by simp_all
qed

lemma run_steps:
  assumes "records_advance (wk_sys wk)" and "listing_bound (wk_sys wk) m" and "calls_keep (wk_sys wk) m"
    and "follows st" and "few st" and "r_submitted st \<noteq> []"
  shows "\<exists>st' w'. goes_on wk pick st w st' w' \<and> follows st'"
proof -
  obtain task st0 where p: "picked pick st = (task, st0)" by fastforce
  note f = follows_run_ok [OF assms(4,5)] and q = picked_facts [OF assms(6) p]
  from f q have "run_ok st0" "r_heap st0 task \<noteq> None" by (auto simp: run_ok_def tasks_live_def)
  from process_total [OF assms(1-3) this] obtain st' w' where pr: "process wk task st0 w = Some (st', w')" by blast
  from process_fine [OF assms(6) p pr] assms(4) have "follows st'" by (simp add: fine_def)
  with p pr assms(6) show ?thesis unfolding goes_on_def by blast
qed





subsection \<open>What a task costs\<close>

text \<open>
  The system refuses a descriptor a finite number of times, and nothing a worker does
  lengthens a listing.
\<close>

definition refusals_end :: "'w sys \<Rightarrow> ('w \<Rightarrow> nat) \<Rightarrow> bool" where
  "refusals_end sys m \<longleftrightarrow>
     (\<forall>path fl w ans w'. sys_open sys path fl w = (ans, w') \<longrightarrow>
        (if ans = Inl EMFILE \<or> ans = Inl ENFILE then m w' < m w else m w' \<le> m w)) \<and>
     (\<forall>d path fl w ans w'. sys_openat sys d path fl w = (ans, w') \<longrightarrow>
        (if ans = Inl EMFILE \<or> ans = Inl ENFILE then m w' < m w else m w' \<le> m w)) \<and>
     (\<forall>d w. m (sys_close sys d w) \<le> m w) \<and> (\<forall>path w. m (snd (sys_rmdir sys path w)) \<le> m w)"

definition keeps_measure :: "'w sys \<Rightarrow> ('w \<Rightarrow> nat) \<Rightarrow> bool" where
  "keeps_measure sys m \<longleftrightarrow> calls_keep sys m \<and> refusals_end sys m"

lemma keeps_measureD:
  assumes "keeps_measure sys m"
  shows "calls_keep sys m" "m (sys_close sys d w) \<le> m w" "sys_rmdir sys path w = (status, w') \<Longrightarrow> m w' \<le> m w"
    "sys_unlinkat sys d path r w = (status, w') \<Longrightarrow> m w' \<le> m w"
  using assms calls_keepD(3) [of sys m d path r w status w'] unfolding keeps_measure_def refusals_end_def
  by (blast, blast, metis snd_conv, blast)

lemma fd_open_spends:
  assumes "keeps_measure sys m" and o: "fd_open sys open_fn p w = (res, p', w')"
    and call: "\<And>w ans w'. open_fn w = (ans, w') \<Longrightarrow>
      if ans = Inl EMFILE \<or> ans = Inl ENFILE then m w' < m w else m w' \<le> m w"
  shows "m w' \<le> m w" "res = Inl err \<Longrightarrow> oe_retryable err \<Longrightarrow> m w' < m w"
proof -
  obtain rs p1 w1 where r: "pool_reserve sys p w = (rs, p1, w1)" by (metis prod_cases3)
  then have 1: "m w1 \<le> m w"
    using set_max_keeps [OF keeps_measureD(1) [OF assms(1)]]
    by (auto simp: pool_reserve_def raise_if_needed_def Let_def split: prod.splits sum.splits if_splits)
  obtain ans w2 where a: "open_fn w1 = (ans, w2)" by fastforce
  have w': "w' = w2" using o r a by (auto simp: fd_open_def Let_def split: sum.splits prod.splits if_splits)
  with call [OF a] 1 show "m w' \<le> m w" by (auto split: if_splits)
  assume "res = Inl err" "oe_retryable err"
  with o r a have "ans = Inl EMFILE \<or> ans = Inl ENFILE"
    by (auto simp: fd_open_def Let_def split: sum.splits prod.splits if_splits)
  with call [OF a] 1 w' show "m w' < m w" by auto
qed

lemma open_at_spends:
  assumes "keeps_measure sys m" and "open_at sys dir name flags p w = (res, p', w')"
  shows "m w' \<le> m w" "res = Inl err \<Longrightarrow> oe_retryable err \<Longrightarrow> m w' < m w"
proof -
  from assms(1) have calls:
    "\<And>w ans w'. sys_open sys path fl w = (ans, w') \<Longrightarrow> if ans = Inl EMFILE \<or> ans = Inl ENFILE then m w' < m w else m w' \<le> m w"
    "\<And>w ans w'. sys_openat sys d path fl w = (ans, w') \<Longrightarrow> if ans = Inl EMFILE \<or> ans = Inl ENFILE then m w' < m w else m w' \<le> m w"
    for d path fl unfolding keeps_measure_def refusals_end_def by blast+
  show "m w' \<le> m w" "res = Inl err \<Longrightarrow> oe_retryable err \<Longrightarrow> m w' < m w"
    using assms(2) fd_open_spends [OF assms(1) _ calls(1)] fd_open_spends [OF assms(1) _ calls(2)]
    by (auto simp: open_at_def os_open_def os_openat_def split: if_splits)
qed

lemma fd_close_spends:
  "keeps_measure sys m \<Longrightarrow> fd_close sys d p w = (d', p', w') \<Longrightarrow> m w' \<le> m w"
  using keeps_measureD(2) [of sys m d w] by (auto simp: fd_close_def split: if_splits)

lemma fd_destroy_spends: "keeps_measure sys m \<Longrightarrow> fd_destroy sys d p w = (p', w') \<Longrightarrow> m w' \<le> m w"
  by (auto simp: fd_destroy_def split: prod.splits dest: fd_close_spends)

lemma open_pieces_spends:
  "keeps_measure sys m \<Longrightarrow> open_pieces sys dir qs final flags p w = (res, p', w') \<Longrightarrow>
     m w' \<le> m w \<and> (\<forall>err. res = Inl err \<longrightarrow> oe_retryable err \<longrightarrow> m w' < m w)"
proof (induction qs arbitrary: dir p w)
  case Nil
  show ?case
  proof (cases final)
    case None
    with Nil fd_destroy_spends [OF Nil(1)] show ?thesis by (auto split: prod.splits)
  next
    case (Some name)
    obtain r1 p1 w1 where o: "open_at sys dir name flags p w = (r1, p1, w1)" by (metis prod_cases3)
    with Nil(2) Some have d: "fd_destroy sys dir p1 w1 = (p', w')" and r: "res = r1" by auto
    from fd_destroy_spends [OF Nil(1) d] open_at_spends [OF Nil(1) o] show ?thesis
      unfolding r by (metis le_trans le_less_trans)
  qed
next
  case (Cons q qs)
  obtain r1 p1 w1 where o: "open_at sys dir q OpenDir p w = (r1, p1, w1)" by (metis prod_cases3)
  note 1 = open_at_spends [OF Cons.prems(1) o]
  show ?case
  proof (cases r1)
    case (Inl err)
    with Cons.prems(2) o have d: "fd_destroy sys dir p1 w1 = (p', w')" and r: "res = r1" by auto
    from fd_destroy_spends [OF Cons.prems(1) d] 1 show ?thesis unfolding r by (metis le_trans le_less_trans)
  next
    case (Inr nxt)
    obtain d0 p2 w2 where c: "fd_close sys dir p1 w1 = (d0, p2, w2)" by (metis prod_cases3)
    with Cons.prems(2) o Inr have "open_pieces sys nxt qs final flags p2 w2 = (res, p', w')"
      by (simp add: fd_move_assign_def)
    from Cons.IH [OF Cons.prems(1) this] fd_close_spends [OF Cons.prems(1) c] 1(1) show ?thesis by force
  qed
qed

lemma open_long_spends:
  assumes "keeps_measure sys m" and "open_long sys path flags p w = (res, p', w')"
  shows "m w' \<le> m w" "res = Inl err \<Longrightarrow> oe_retryable err \<Longrightarrow> m w' < m w"
  using open_pieces_spends [OF assms(1)] assms(2)
  by (auto simp: open_long_def open_long_loop_pieces split: prod.splits)

lemma dir_node_open_spends:
  assumes "keeps_measure sys m" and "dir_node_open sys g n h p w = Some (res, h', p', w')"
  shows "m w' \<le> m w" "res = Inl err \<Longrightarrow> oe_retryable err \<Longrightarrow> m w' < m w"
proof -
  have "m w' \<le> m w \<and> (\<forall>err. res = Inl err \<longrightarrow> oe_retryable err \<longrightarrow> m w' < m w)"
  proof -
    from assms(2) obtain d where d: "h n = Some d" by (auto simp: dir_node_open_def elim: bind_SomeE)
    show ?thesis
    proof (cases "fd_is_open (dn_fd d)")
      case True
      with assms(2) d show ?thesis by (auto simp: dir_node_open_def)
    next
      case False
      with assms(2) d obtain path where path: "path_into g h n = Some path"
        by (auto simp: dir_node_open_def elim: bind_SomeE)
      obtain r1 p1 w1 where o: "open_long sys path OpenDirNoFollow p w = (r1, p1, w1)" by (metis prod_cases3)
      note 1 = open_long_spends [OF assms(1) o]
      from assms(2) d False path o 1 show ?thesis
        by (cases r1) (auto simp: dir_node_open_def fd_move_assign_def fd_close_def fd_is_open_def)
    qed
  qed
  then show "m w' \<le> m w" "res = Inl err \<Longrightarrow> oe_retryable err \<Longrightarrow> m w' < m w" by blast+
qed

lemma remove_empty_spends:
  assumes "keeps_measure sys m" and re: "remove_empty sys g h n p w = Some (status, path, p', w')"
  shows "m w' \<le> m w"
proof -
  from re obtain path0 where "path_into g h n = Some path0" by (auto simp: remove_empty_def elim: bind_SomeE)
  with re consider (unchanged) "w' = w" | (rmdir) st where "sys_rmdir sys path0 w = (st, w')"
    | (failed) slash err where "open_long sys (take slash path0) OpenDir p w = (Inl err, p', w')"
    | (opened) slash parent p1 w1 st w2 where "open_long sys (take slash path0) OpenDir p w = (Inr parent, p1, w1)"
        "sys_unlinkat sys parent (drop (slash + 1) path0) True w1 = (st, w2)" "fd_destroy sys parent p1 w2 = (p', w')"
    by (auto simp: remove_empty_def split: if_splits prod.splits option.splits sum.splits)
  then show ?thesis
  proof cases
    case rmdir
    then show ?thesis by (rule keeps_measureD(3) [OF assms(1)])
  next
    case failed
    then show ?thesis by (rule open_long_spends(1) [OF assms(1)])
  next
    case opened
    from open_long_spends(1) [OF assms(1) opened(1)] keeps_measureD(4) [OF assms(1) opened(2)]
      fd_destroy_spends [OF assms(1) opened(3)] show ?thesis by simp
  qed simp
qed

text \<open>A part of a task that finds no directory.\<close>

definition settles :: "('w \<Rightarrow> nat) \<Rightarrow> run \<times> 'w \<Rightarrow> run \<times> 'w \<Rightarrow> bool" where
  "settles m a b \<longleftrightarrow> m (snd b) \<le> m (snd a) \<and> r_submitted (fst b) = r_submitted (fst a) \<and>
     r_next (fst b) = r_next (fst a)"

lemma settles_refl [simp]: "settles m a a"
  by (simp add: settles_def)

lemma settles_trans: "settles m a b \<Longrightarrow> settles m b c \<Longrightarrow> settles m a c"
  by (auto simp: settles_def)

lemma remove_empty_logged_settles:
  "keeps_measure (wk_sys wk) m \<Longrightarrow> remove_empty_logged wk n st w = Some (status, path, st', w') \<Longrightarrow>
     settles m (st, w) (st', w')"
  by (auto simp: remove_empty_logged_def settles_def elim!: bind_SomeE dest: remove_empty_spends)

lemma delete_dir_node_settles:
  "keeps_measure (wk_sys wk) m \<Longrightarrow> delete_dir_node wk n d st w = (st', w') \<Longrightarrow> settles m (st, w) (st', w')"
  by (auto simp: delete_dir_node_def settles_def split: prod.splits dest: fd_destroy_spends)

lemma maybe_cleanup_settles:
  assumes "maybe_cleanup wk it st w = Some (st', w')" and "keeps_measure (wk_sys wk) m"
  shows "settles m (st, w) (st', w')"
proof -
  have "keeps_measure (wk_sys wk) m \<longrightarrow> settles m (st, w) (st', w')"
  proof (rule maybe_cleanup.raw_induct [where P = "\<lambda>wk it st w r. keeps_measure (wk_sys wk) m \<longrightarrow> settles m (st, w) r",
        OF _ assms(1)], intro impI, goal_cases)
    case (1 mc wk it st w r)
    note IH = 1(1) and run = 1(2) and keep = 1(3)
    show ?case
    proof (cases it)
      case None
      with run show ?thesis by auto
    next
      case (Some n)
      with run obtain d where d: "r_heap st n = Some d" by (auto elim: bind_SomeE)
      let ?d = "d\<lparr>dn_refs := dn_refs d - 1\<rparr>"
      let ?st1 = "st\<lparr>r_heap := (r_heap st)(n \<mapsto> ?d)\<rparr>"
      show ?thesis
      proof (cases "dn_refs d = 1")
        case False
        with run Some d have "r = (?st1, w)" by (simp add: Let_def)
        then show ?thesis by (simp add: settles_def)
      next
        case True
        with run Some d obtain status path st2 w2 where
          re: "remove_empty_logged wk n ?st1 w = Some (status, path, st2, w2)"
          by (auto simp: Let_def elim: bind_SomeE)
        define st3 where "st3 = (case status of
            Some error \<Rightarrow> if error \<noteq> ENOENT then warn_at wk path error (fail st2) else st2 | None \<Rightarrow> st2)"
        obtain st4 w4 where del: "delete_dir_node wk n ?d st3 w2 = (st4, w4)" by fastforce
        have mc: "mc wk (dn_parent d) st4 w4 = Some r"
          using run Some d True re del unfolding st3_def by (simp add: Let_def)
        have "settles m (st, w) (st3, w2)"
          using remove_empty_logged_settles [OF keep re] by (simp add: settles_def st3_def split: option.split)
        with delete_dir_node_settles [OF keep del] IH [OF mc] keep show ?thesis by (blast intro: settles_trans)
      qed
    qed
  qed
  with assms(2) show ?thesis by blast
qed

lemma delete_unopened_settles:
  assumes "delete_unopened wk task st w = Some (st', w')" and keep: "keeps_measure (wk_sys wk) m"
  shows "settles m (st, w) (st', w')"
proof -
  from assms(1) obtain d where d: "r_heap st task = Some d" by (auto simp: delete_unopened_def elim: bind_SomeE)
  obtain st1 w1 where del: "delete_dir_node wk task d st w = (st1, w1)" by fastforce
  note s = delete_dir_node_settles [OF keep del]
  show ?thesis
  proof (cases "dn_parent d")
    case None
    with assms d del s show ?thesis by (simp add: delete_unopened_def)
  next
    case (Some p)
    with assms d del have "maybe_cleanup wk (Some p) st1 w1 = Some (st', w')" by (simp add: delete_unopened_def)
    from settles_trans [OF s maybe_cleanup_settles [OF this keep]] show ?thesis .
  qed
qed

lemma process_unopenable_settles:
  assumes "process_unopenable wk task err st w = Some (st', w')" and keep: "keeps_measure (wk_sys wk) m"
  shows "settles m (st, w) (st', w')"
proof -
  from assms(1) obtain report st1 w1 st2 where
    r: "unopenable_fails wk task st w = Some (report, st1, w1)"
    and rp: "(if report then report_unopenable wk task err st1 else Some st1) = Some st2"
    and del: "delete_unopened wk task st2 w1 = Some (st', w')"
    unfolding process_unopenable_def by (elim bind_SomeE) (auto elim: bind_SomeE)
  have "settles m (st, w) (st1, w1)"
    using r by (auto simp: unopenable_fails_def split: if_splits dest: remove_empty_logged_settles [OF keep])
  moreover have "r_submitted st2 = r_submitted st1 \<and> r_next st2 = r_next st1" using rp by (auto simp: report_unopenable_def split: if_splits)
  ultimately have "settles m (st, w) (st2, w1)" by (simp add: settles_def)
  from settles_trans [OF this delete_unopened_settles [OF del keep]] show ?thesis .
qed

text \<open>
  A scan or a task either brings the measure down or finds no directory, and every address
  it takes is paid for by a record.
\<close>

definition pays :: "('w \<Rightarrow> nat) \<Rightarrow> run \<times> 'w \<Rightarrow> run \<times> 'w \<Rightarrow> bool" where
  "pays m a b \<longleftrightarrow> (m (snd b) < m (snd a) \<or> settles m a b) \<and>
     r_next (fst b) + m (snd b) \<le> r_next (fst a) + m (snd a)"

lemma settles_pays: "settles m a b \<Longrightarrow> pays m a b"
  by (simp add: pays_def settles_def)

lemma pays_trans: "pays m a b \<Longrightarrow> pays m b c \<Longrightarrow> pays m a c"
  by (auto simp: pays_def settles_def)

lemma scan_entry_next:
  "scan_entry wk task dp v st w = Some (stop, st', w') \<Longrightarrow>
     r_next st' \<le> r_next st + (case v of Inr _ \<Rightarrow> 1 | Inl _ \<Rightarrow> 0)"
proof (cases v)
  case (Inl e)
  assume "scan_entry wk task dp v st w = Some (stop, st', w')"
  with Inl show ?thesis by (auto simp: scan_entry_def elim!: bind_SomeE)
next
  case (Inr e)
  assume "scan_entry wk task dp v st w = Some (stop, st', w')"
  with Inr have "entry_effect task st st'" by (auto intro: scan_entry_effect)
  with Inr show ?thesis by (auto simp: entry_effect_def same_nodes_def dest!: add_child_next)
qed

lemma scan_pays:
  assumes sc: "scan wk task st w = Some (st', w')"
    and "records_advance (wk_sys wk)" and bound: "records_bound (wk_sys wk) m" and keep: "calls_keep (wk_sys wk) m"
    and ok: "scan_ok task st"
  shows "pays m (st, w) (st', w')"
proof -
  from sc obtain dp d where
    loop: "dir_for_each (wk_sys wk) d k_default_dir_buffer_bytes (scan_entry wk task dp) st w = Some (st', w')"
    by (auto simp: scan_def elim!: bind_SomeE)
  have body: "\<exists>stop st' w'. scan_entry wk task dp v st w = Some (stop, st', w') \<and> scan_ok task st' \<and> m w' \<le> m w"
    if "scan_ok task st" for v st w
    using scan_entry_passes [OF keep that] by (auto simp: passes_def)
  let ?P = "\<lambda>st w. scan_ok task st"
  from dir_for_each_visits [where P = ?P, OF loop assms(2) records_bound_listing [OF bound] ok] body
  have v: "dir_visits (wk_sys wk) d k_default_dir_buffer_bytes (scan_entry wk task dp) st w st' w'" by blast
  have "costs r_next m ?P (scan_entry wk task dp)"
    unfolding costs_def
  proof (intro allI impI)
    fix v st w stop st' w'
    assume "scan_ok task st" and e: "scan_entry wk task dp v st w = Some (stop, st', w')"
    from body [OF this(1), of v w] e have "scan_ok task st' \<and> m w' \<le> m w" by simp
    with scan_entry_next [OF e] show "scan_ok task st' \<and> m w' \<le> m w \<and>
        r_next st' \<le> r_next st + (case v of Inr _ \<Rightarrow> 1 | Inl _ \<Rightarrow> 0)" by simp
  qed
  from dir_visits_costs [where P = ?P, OF v this bound _ ok]
  have "r_next st' + m w' \<le> r_next st + m w" by blast
  moreover have "m w' < m w \<or> m w' \<le> m w \<and> same_nodes st st'"
  proof (rule dir_visits_spends [where P = ?P and Q = same_nodes, OF v records_bound_listing [OF bound] ok])
    show "same_nodes st st'" if "scan_entry wk task dp (Inl e) st w = Some (stop, st', w')" for e st w stop st' w'
      using that by (auto simp: scan_entry_def elim!: bind_SomeE)
  qed (use body in auto)
  ultimately show ?thesis by (auto simp: pays_def settles_def same_nodes_def)
qed

lemma process_pays:
  assumes pr: "process wk task st w = Some (st', w')"
    and "records_advance (wk_sys wk)" and "records_bound (wk_sys wk) m" and keep: "keeps_measure (wk_sys wk) m"
    and ok: "run_ok st" "r_heap st task \<noteq> None"
  shows "pays m (st, w) (st', w')"
proof -
  from pr obtain res h p w1 where
    o: "dir_node_open (wk_sys wk) (wk_garbage wk) task (r_heap st) (r_pool st) w = Some (res, h, p, w1)"
    unfolding process_def by (elim bind_SomeE) auto
  let ?st1 = "st\<lparr>r_heap := h, r_pool := p\<rparr>"
  have "settles m (st, w) (?st1, w1)" using dir_node_open_spends(1) [OF keep o] by (simp add: settles_def)
  note 1 = settles_pays [OF this]
  show ?thesis
  proof (cases res)
    case (Inl err)
    show ?thesis
    proof (cases "oe_retryable err")
      case True
      with pr o Inl have "w' = w1" "r_next st' = r_next st" by (auto simp: process_def Let_def submit_task_def)
      with dir_node_open_spends(2) [OF keep o Inl True] show ?thesis by (simp add: pays_def)
    next
      case False
      with pr o Inl have "process_unopenable wk task err ?st1 w1 = Some (st', w')"
        by (simp add: process_def Let_def)
      from pays_trans [OF 1 settles_pays [OF process_unopenable_settles [OF this keep]]] show ?thesis .
    qed
  next
    case (Inr u)
    with pr o obtain st2 w2 d f p2 w3 where sc: "scan wk task ?st1 w1 = Some (st2, w2)"
      and d: "r_heap st2 task = Some d" and c: "fd_close (wk_sys wk) (dn_fd d) (r_pool st2) w2 = (f, p2, w3)"
      and mc: "maybe_cleanup wk (Some task)
        (st2\<lparr>r_heap := (r_heap st2)(task \<mapsto> d\<lparr>dn_fd := f\<rparr>), r_pool := p2\<rparr>) w3 = Some (st', w')"
      by (auto simp: process_def Let_def elim!: bind_SomeE split: prod.splits)
    from dir_node_open_shape [OF o] Inr obtain d0 f0 where d0: "r_heap st task = Some d0"
      and h: "h = (r_heap st)(task \<mapsto> d0\<lparr>dn_fd := f0\<rparr>)" by auto
    have "heap_ok h"
      using ok(1) d0 unfolding h run_ok_def heap_ok_def by (auto split: if_splits)
    then have "scan_ok task ?st1" using ok by (auto simp: scan_ok_def run_ok_def h)
    note 2 = scan_pays [OF sc assms(2,3) keeps_measureD(1) [OF keep] this]
    have "settles m (st2, w2) (st2\<lparr>r_heap := (r_heap st2)(task \<mapsto> d\<lparr>dn_fd := f\<rparr>), r_pool := p2\<rparr>, w3)"
      using fd_close_spends [OF keep c] by (simp add: settles_def)
    from settles_trans [OF this maybe_cleanup_settles [OF mc keep]]
    show ?thesis by (rule pays_trans [OF pays_trans [OF 1 2] settles_pays])
  qed
qed

text \<open>As many addresses as there are records left stay below the bound.\<close>

lemma process_all_ends:
  fixes wk :: "'w worker" and w :: 'w
  assumes "records_advance (wk_sys wk)" and bound: "records_bound (wk_sys wk) m" and keep: "keeps_measure (wk_sys wk) m"
    and "follows st" and "r_next st + m w + 3 < 2 ^ 32"
  shows "\<exists>st' w'. process_all wk pick st w = Some (st', w') \<and> few st'"
  using assms(4,5)
proof (induction "(m w, length (r_submitted st))" arbitrary: st w rule: wf_induct_rule [OF wf_lex_prod [OF wf_less_than wf_less_than]])
  case (1 st w)
  from 1(3) have few: "few st" by (simp add: few_def)
  show ?case
  proof (cases "r_submitted st = []")
    case True
    with few show ?thesis by (simp add: process_all_none)
  next
    case False
    from run_steps [OF assms(1) records_bound_listing [OF bound] keeps_measureD(1) [OF keep] 1(2) few False]
    obtain st' w' where g: "goes_on wk pick st w st' w'" and f: "follows st'" by blast
    then obtain task st0 where p: "picked pick st = (task, st0)" and pr: "process wk task st0 w = Some (st', w')"
      unfolding goes_on_def by blast
    note q = picked_facts [OF False p]
    from q follows_run_ok [OF 1(2) few] have "run_ok st0" "r_heap st0 task \<noteq> None"
      by (auto simp: run_ok_def tasks_live_def)
    note pays = process_pays [OF pr assms(1) bound keep this]
    with q(4) have lt: "((m w', length (r_submitted st')), (m w, length (r_submitted st))) \<in> less_than <*lex*> less_than"
      by (auto simp: settles_def pays_def)
    have "r_next st' + m w' + 3 < 2 ^ 32" using pays q(3) 1(3) by (simp add: pays_def)
    from 1(1) [OF lt f this] False p pr show ?thesis by (subst process_all_step) simp
  qed
qed

subsection \<open>Properties\<close>

text \<open>The state of the loop over the operands before the first.\<close>

definition start_rm :: "cli \<Rightarrow> pool \<Rightarrow> message list \<Rightarrow> rm_state" where
  "start_rm c p errs =
     \<lparr>rs_failures = (if has_dropped_operands c then 1 else 0), rs_run = start_run p errs, rs_euid = k_unloaded\<rparr>"

lemma operands_follow:
  "remove_operands wk ps (start_rm c p errs) w = (s, w1) \<Longrightarrow> follows (rs_run s)"
  using remove_operands_fine [of wk ps "start_rm c p errs" w s w1] start_follows [of p errs]
  by (simp add: fine_def start_rm_def)


text \<open>A directory with one subdirectory, on a system that counts the reads that found something.\<close>

definition nested_sys :: "nat sys" where
  "nested_sys = null_sys\<lparr>sys_lstat := (\<lambda>path w. (Inr Directory, w)), sys_open := (\<lambda>path fl w. (Inr 5, w)),
     sys_openat := (\<lambda>d path fl w. (Inr 6, w)), sys_rmdir := (\<lambda>path w. (None, w)),
     sys_getdents := (\<lambda>d n w. if w = 0 then (Inr [example_entry ''a''], 1) else (Inr [], w))\<rparr>"

lemma nested_sys_ok:
  "records_advance nested_sys" "listing_bound nested_sys (\<lambda>w. 1 - w)" "keeps_measure nested_sys (\<lambda>w. 1 - w)"
  by (auto simp: nested_sys_def null_sys_def records_advance_def listing_bound_def keeps_measure_def calls_keep_def
      refusals_end_def example_entry_def split: if_splits)

lemma nested_records: "records_bound nested_sys (\<lambda>w. 1 - w)"
  by (auto simp: nested_sys_def records_bound_def split: sum.split if_splits)


text \<open>An operand is at most one root.\<close>

lemma remove_operands_next:
  "remove_operands wk ps s w = (s', w') \<Longrightarrow> r_next (rs_run s') \<le> r_next (rs_run s) + length ps"
proof (induction ps arbitrary: s w)
  case (Cons p ps)
  obtain s1 w1 where r: "remove_operand wk p s w = (s1, w1)" by fastforce
  have "no_walk (rs_run s) (rs_run (remove_named wk path status s))" for path status
    by (simp add: remove_named_def Let_def split: option.split)
  then have "r_next (rs_run s1) \<le> Suc (r_next (rs_run s))"
    using r
    by (auto simp: remove_operand_def directory_operand_def missing_operand_def unopened_operand_def remove_named_def
        seed_root_def submit_task_def rm_warns_def rm_logs_def rm_fails_def Let_def
        split: prod.splits sum.splits if_splits option.splits)
  with Cons.IH [of s1 w1] Cons.prems r show ?case by simp
qed simp

text \<open>
  C1: total correctness of the removal. If the system lists a finite number of directory
  records and refuses a descriptor a finite number of times, then a run of \<open>rm\<close> returns,
  whatever else the system answers and in whatever order the tasks are chosen, as long as
  records and operands are fewer than \<open>2^32\<close>; and it leaves no task, no node and no
  descriptor behind.
\<close>

theorem run_ends:
  assumes "records_advance sys" and "records_bound sys m" and "keeps_measure sys m"
    and "remove_operands (rm_worker sys garbage c) (cli_operands c) (start_rm c p errs) w = (s, w1)"
    and "length (cli_operands c) + m w1 + 3 < 2 ^ 32" and "bits p = packed 0 e"
  shows "\<exists>code st w'. remove_all sys garbage pick c p errs w = Some (code, st, w') \<and>
    r_submitted st = [] \<and> (\<forall>n. r_heap st n = None) \<and> live (unpack (bits (r_pool st))) = 0"
proof -
  have wk: "wk_sys (rm_worker sys garbage c) = sys" by (simp add: rm_worker_def)
  have "r_next (rs_run s) \<le> length (cli_operands c)"
    using remove_operands_next [OF assms(4)] by (simp add: start_rm_def start_run_def)
  with assms(5) have "r_next (rs_run s) + m w1 + 3 < 2 ^ 32" by simp
  from process_all_ends [of "rm_worker sys garbage c" m "rs_run s" w1 pick, OF _ _ _ _ this] assms(1-3) wk
    operands_follow [OF assms(4)]
  obtain st w2 where st: "process_all (rm_worker sys garbage c) pick (rs_run s) w1 = Some (st, w2)" "few st" by auto
  from st(1) assms(4) obtain code where run: "remove_all sys garbage pick c p errs w = Some (code, st, w2)"
    by (simp add: remove_all_def start_rm_def Let_def)
  from remove_all_leaves_nothing [OF run assms(6) st(2)] run show ?thesis by blast
qed

theorem run_ends_witness:
  "\<exists>code st w'. remove_all nested_sys (\<lambda>_. CHR 0x00) (\<lambda>_. 0) tidy_cli initial_pool [] 0 = Some (code, st, w') \<and>
     r_submitted st = [] \<and> (\<forall>n. r_heap st n = None) \<and> live (unpack (bits (r_pool st))) = 0"
proof -
  obtain s w1 where r: "remove_operands (rm_worker nested_sys (\<lambda>_. CHR 0x00) tidy_cli) (cli_operands tidy_cli)
      (start_rm tidy_cli initial_pool []) 0 = (s, w1)" by fastforce
  note ends = run_ends [OF nested_sys_ok(1) nested_records nested_sys_ok(3) r, where pick = "\<lambda>_. 0" and e = 0]
  have "length (cli_operands tidy_cli) + (1 - w1) + 3 < 2 ^ 32" by (simp add: tidy_cli_def)
  moreover have "bits initial_pool = packed 0 0" by (simp add: initial_pool_def packed_def)
  ultimately show ?thesis by (rule ends)
qed

end
