(* ===== verification/Run_Crew.thy ===== *)
theory Run_Crew
  imports Run_Ends
begin

section \<open>Any number of workers, any schedule\<close>

text \<open>
  \<open>RunRm\<close> with the copies of its worker that the scheduler makes, each with a failure count of
  its own: whichever worker takes whichever task next, the run comes to an end, nothing is
  left behind, and the sum of the counts \<open>RunRm\<close> forms after \<open>Wait\<close> is the number of messages
  printed.
\<close>

subsection \<open>The workers\<close>

text \<open>The run they share, whose count of failures is not used, and the count of each.\<close>

record crew =
  cr_run :: run
  cr_failures :: "nat list"

definition crew_start :: "nat \<Rightarrow> run \<Rightarrow> crew" where
  "crew_start threads st = \<lparr>cr_run = st, cr_failures = replicate (max 1 threads) 0\<rparr>"

text \<open>The run as worker \<open>i\<close> sees it.\<close>

definition seen_by :: "nat \<Rightarrow> crew \<Rightarrow> run" where
  "seen_by i c = (cr_run c)\<lparr>r_failures := cr_failures c ! i\<rparr>"

text \<open>Worker \<open>i\<close> takes the task at \<open>j\<close> and processes it.\<close>

inductive crew_step :: "'w worker \<Rightarrow> crew \<times> 'w \<Rightarrow> crew \<times> 'w \<Rightarrow> bool" for wk where
  works: "i < length (cr_failures c) \<Longrightarrow> j < length (r_submitted (cr_run c)) \<Longrightarrow>
    picked (\<lambda>_. j) (seen_by i c) = (task, st) \<Longrightarrow> process wk task st w = Some (st', w') \<Longrightarrow>
    crew_step wk (c, w) (\<lparr>cr_run = st', cr_failures = (cr_failures c)[i := r_failures st']\<rparr>, w')"

inductive_cases crew_stepE: "crew_step wk (c, w) (c', w')"

text \<open>What \<open>RunRm\<close> returns after \<open>Wait\<close>.\<close>

definition crew_exit :: "rm_state \<Rightarrow> crew \<Rightarrow> int" where
  "crew_exit s c = (let failures = rs_failures s + sum_list (cr_failures c) in if failures = 0 then 0 else 1)"

subsection \<open>What every step keeps\<close>

lemma seen_by_fine: "fine (cr_run c) (seen_by i c)"
  by (rule no_walk_fine) (simp add: no_walk_def seen_by_def)

lemma seen_by_simps [simp]:
  "r_submitted (seen_by i c) = r_submitted (cr_run c)" "r_err (seen_by i c) = r_err (cr_run c)"
  "r_next (seen_by i c) = r_next (cr_run c)" "r_failures (seen_by i c) = cr_failures c ! i"
  "follows (seen_by i c) = follows (cr_run c)" "few (seen_by i c) = few (cr_run c)"
  by (simp_all add: seen_by_def follows_def agrees_def few_def)

definition crew_fine :: "crew \<Rightarrow> crew \<Rightarrow> bool" where
  "crew_fine c c' \<longleftrightarrow> fine (cr_run c) (cr_run c') \<and>
     (\<exists>msgs. r_err (cr_run c') = r_err (cr_run c) @ msgs \<and>
        sum_list (cr_failures c') = sum_list (cr_failures c) + length msgs)"

lemma crew_fine_refl [simp]: "crew_fine c c"
  by (simp add: crew_fine_def)

lemma crew_fine_trans: "crew_fine a b \<Longrightarrow> crew_fine b c \<Longrightarrow> crew_fine a c"
  unfolding crew_fine_def by (force intro: fine_trans)

lemma crew_step_fine:
  assumes "crew_step wk (c, w) (c', w')"
  shows "crew_fine c c'"
  using assms
proof (rule crew_stepE)
  fix i j task st st'
  assume c': "c' = \<lparr>cr_run = st', cr_failures = (cr_failures c)[i := r_failures st']\<rparr>"
    and i: "i < length (cr_failures c)" and j: "j < length (r_submitted (cr_run c))"
    and p: "picked (\<lambda>_. j) (seen_by i c) = (task, st)" and pr: "process wk task st w = Some (st', w')"
  from j have "r_submitted (seen_by i c) \<noteq> []" by auto
  from process_fine [OF this p pr] have "fine (cr_run c) st'" by (rule fine_trans [OF seen_by_fine])
  moreover from process_balanced [OF pr] obtain msgs where
    "r_err st' = r_err st @ msgs" "r_failures st' = r_failures st + length msgs" by (auto simp: balanced_def)
  moreover have "r_err st = r_err (cr_run c)" "r_failures st = cr_failures c ! i"
    using p by (auto simp: picked_def Let_def)
  moreover have "sum_list ((cr_failures c)[i := r_failures st']) + cr_failures c ! i = sum_list (cr_failures c) + r_failures st'"
    using sum_list_update_add [OF i, of "\<lambda>n. n"] by simp
  ultimately show ?thesis by (simp add: crew_fine_def c')
qed

lemma crew_steps_fine: "(crew_step wk)\<^sup>*\<^sup>* (c, w) (c', w') \<Longrightarrow> crew_fine c c'"
  by (induction rule: rtranclp_induct2) (auto intro: crew_fine_trans crew_step_fine)

lemma crew_length: "(crew_step wk)\<^sup>*\<^sup>* (c, w) (c', w') \<Longrightarrow> length (cr_failures c') = length (cr_failures c)"
  by (induction rule: rtranclp_induct2) (auto elim: crew_stepE)

subsection \<open>Steps and their costs\<close>

lemma crew_can_step:
  assumes "records_advance (wk_sys wk)" and "listing_bound (wk_sys wk) m" and "calls_keep (wk_sys wk) m"
    and "follows (cr_run c)" and "few (cr_run c)"
    and i: "i < length (cr_failures c)" and j: "j < length (r_submitted (cr_run c))"
  shows "\<exists>c' w'. crew_step wk (c, w) (c', w')"
proof -
  have "r_submitted (seen_by i c) \<noteq> []" using j by auto
  from run_steps [OF assms(1-3) _ _ this, of "\<lambda>_. j" w] assms(4,5)
  obtain st' w' where "goes_on wk (\<lambda>_. j) (seen_by i c) w st' w'" by auto
  with i j show ?thesis unfolding goes_on_def by (blast intro: works)
qed

lemma crew_step_pays:
  assumes "crew_step wk (c, w) (c', w')"
    and "records_advance (wk_sys wk)" and "records_bound (wk_sys wk) m" and "keeps_measure (wk_sys wk) m"
    and "follows (cr_run c)" and "few (cr_run c)"
  shows "((m w', length (r_submitted (cr_run c'))), (m w, length (r_submitted (cr_run c)))) \<in> less_than <*lex*> less_than"
    and "r_next (cr_run c') + m w' \<le> r_next (cr_run c) + m w"
proof -
  from assms(1) obtain i j task st where j: "j < length (r_submitted (cr_run c))"
    and p: "picked (\<lambda>_. j) (seen_by i c) = (task, st)" and pr: "process wk task st w = Some (cr_run c', w')"
    by (auto elim: crew_stepE)
  from j have ne: "r_submitted (seen_by i c) \<noteq> []" by auto
  note q = picked_facts [OF ne p]
  have "run_ok (seen_by i c)" "tasks_live (seen_by i c)" by (rule follows_run_ok; simp add: assms(5,6))+
  with q have "run_ok st" "r_heap st task \<noteq> None" by (auto simp: run_ok_def tasks_live_def)
  note pays = process_pays [OF pr assms(2-4) this]
  from pays q(4) show "((m w', length (r_submitted (cr_run c'))), (m w, length (r_submitted (cr_run c)))) \<in>
      less_than <*lex*> less_than" by (auto simp: settles_def pays_def)
  from pays q(3) show "r_next (cr_run c') + m w' \<le> r_next (cr_run c) + m w" by (simp add: pays_def)
qed

text \<open>Along a run from the end of the loop over the operands.\<close>

lemma crew_start_simps [simp]: "cr_run (crew_start threads st) = st" "sum_list (cr_failures (crew_start threads st)) = 0"
  "0 < length (cr_failures (crew_start threads st))"
  by (simp_all add: crew_start_def)

lemma crew_reached:
  assumes "(crew_step wk)\<^sup>*\<^sup>* (crew_start threads (rs_run s), w1) (c, w')" and "follows (rs_run s)"
  shows "follows (cr_run c)"
  using crew_steps_fine [OF assms(1)] assms(2) by (simp add: crew_fine_def fine_def)

lemma crew_within:
  assumes "(crew_step wk)\<^sup>*\<^sup>* (crew_start threads (rs_run s), w1) (c, w')" and f: "follows (rs_run s)"
    and sys: "records_advance (wk_sys wk)" "records_bound (wk_sys wk) m" "keeps_measure (wk_sys wk) m"
    and "r_next (rs_run s) + m w1 + 3 < 2 ^ 32"
  shows "r_next (cr_run c) + m w' + 3 < 2 ^ 32"
  using assms(1)
proof (induction rule: rtranclp_induct2)
  case refl
  with assms(6) show ?case by simp
next
  case (step c w c' w')
  have "few (cr_run c)" using step.IH by (simp add: few_def)
  from crew_step_pays(2) [OF step.hyps(2) sys crew_reached [OF step.hyps(1) f] this] step.IH show ?case by simp
qed

lemma crew_ends:
  assumes f: "follows (rs_run s)"
    and sys: "records_advance (wk_sys wk)" "records_bound (wk_sys wk) m" "keeps_measure (wk_sys wk) m"
    and b: "r_next (rs_run s) + m w1 + 3 < 2 ^ 32"
  shows "\<not> (\<exists>run. run 0 = (crew_start threads (rs_run s), w1) \<and> (\<forall>k. crew_step wk (run k) (run (Suc k))))"
proof
  assume "\<exists>run. run 0 = (crew_start threads (rs_run s), w1) \<and> (\<forall>k. crew_step wk (run k) (run (Suc k)))"
  then obtain run where r: "run 0 = (crew_start threads (rs_run s), w1)" "\<And>k. crew_step wk (run k) (run (Suc k))"
    by blast
  let ?m = "\<lambda>(c, w). (m w, length (r_submitted (cr_run c)))"
  have reached: "(crew_step wk)\<^sup>*\<^sup>* (crew_start threads (rs_run s), w1) (run k)" for k
    by (induction k) (auto simp: r(1) intro: rtranclp.rtrancl_into_rtrancl r(2))
  have "(?m (run (Suc k)), ?m (run k)) \<in> less_than <*lex*> less_than" for k
  proof -
    obtain c w c' w' where k: "run k = (c, w)" "run (Suc k) = (c', w')" by (metis surj_pair)
    from reached [of k] k(1) have rk: "(crew_step wk)\<^sup>*\<^sup>* (crew_start threads (rs_run s), w1) (c, w)" by simp
    from crew_within [OF rk f sys b] have "few (cr_run c)" by (simp add: few_def)
    from crew_step_pays(1) [OF _ sys crew_reached [OF rk f] this] r(2) [of k] k show ?thesis by simp
  qed
  then have "\<exists>g. \<forall>k. (g (Suc k), g k) \<in> less_than <*lex*> less_than"
    by (intro exI [of _ "\<lambda>k. ?m (run k)"]) blast
  moreover have "wf (less_than <*lex*> less_than)" by (simp add: wf_lex_prod)
  ultimately show False unfolding wf_iff_no_infinite_down_chain by blast
qed

lemma crew_done:
  assumes ops: "remove_operands (rm_worker sys garbage cl) (cli_operands cl) (start_rm cl p errs) w = (s, w1)"
    and "(crew_step (rm_worker sys garbage cl))\<^sup>*\<^sup>* (crew_start threads (rs_run s), w1) (c, w')"
    and "bits p = packed 0 e" "few (cr_run c)" "r_submitted (cr_run c) = []"
  shows "(\<forall>n. r_heap (cr_run c) n = None) \<and> live (unpack (bits (r_pool (cr_run c)))) = 0"
proof -
  have "fine (start_run p errs) (cr_run c)"
    using fine_trans [OF remove_operands_fine [OF ops]] crew_steps_fine [OF assms(2)]
    by (simp add: crew_fine_def start_rm_def)
  with start_follows start_leased [OF assms(3)] assms(4) have st: "follows (cr_run c)" "leased 0 (cr_run c)"
    by (auto simp: fine_def keeps_def)
  note none = follows_empty [OF st(1) assms(4,5)]
  from st(2) open_nodes_empty [OF none] obtain e' where "bits (r_pool (cr_run c)) = packed 0 e'"
    by (auto simp: leased_def)
  with none show ?thesis by (simp add: unpack_packed)
qed

subsection \<open>Properties\<close>

text \<open>
  C6: under any schedule of any number of workers, at every moment the failures counted so
  far, by the loop over the operands and by each worker, are as many as the messages printed,
  and one more if the command line dropped an operand. When no task is left, \<open>RunRm\<close> returns
  0 exactly when nothing was reported or dropped, and no node and no descriptor is left.
\<close>

theorem crew_exit_status:
  assumes "remove_operands (rm_worker sys garbage cl) (cli_operands cl) (start_rm cl p errs) w = (s, w1)"
    and "(crew_step (rm_worker sys garbage cl))\<^sup>*\<^sup>* (crew_start threads (rs_run s), w1) (c, w')"
    and "bits p = packed 0 e" and "few (cr_run c)"
  shows "\<exists>msgs. r_err (cr_run c) = errs @ msgs \<and>
    rs_failures s + sum_list (cr_failures c) = of_bool (has_dropped_operands cl) + length msgs \<and>
    (crew_exit s c = 0 \<longleftrightarrow> msgs = [] \<and> \<not> has_dropped_operands cl) \<and>
    (r_submitted (cr_run c) = [] \<longrightarrow>
       (\<forall>n. r_heap (cr_run c) n = None) \<and> live (unpack (bits (r_pool (cr_run c)))) = 0)"
proof -
  from remove_operands_balanced [OF assms(1)] obtain m1 where m1: "r_err (rs_run s) = errs @ m1"
    "rs_failures s = of_bool (has_dropped_operands cl) + length m1"
    by (auto simp: rm_balanced_def start_rm_def start_run_def)
  from crew_steps_fine [OF assms(2)] obtain m2 where m2: "r_err (cr_run c) = r_err (rs_run s) @ m2"
    "sum_list (cr_failures c) = length m2" by (auto simp: crew_fine_def)
  from crew_done [OF assms] m1 m2 show ?thesis
    by (intro exI [of _ "m1 @ m2"]) (auto simp: crew_exit_def Let_def)
qed

theorem crew_exit_status_witness:
  "\<exists>s c msgs. remove_operands tidy_worker [''d''] (start_rm tidy_cli initial_pool []) () = (s, ()) \<and>
     (crew_step tidy_worker)\<^sup>*\<^sup>* (crew_start 2 (rs_run s), ()) (c, ()) \<and> c \<noteq> crew_start 2 (rs_run s) \<and>
     r_err (cr_run c) = msgs \<and> rs_failures s + sum_list (cr_failures c) = length msgs \<and>
     (\<forall>n. r_heap (cr_run c) n = None) \<and> live (unpack (bits (r_pool (cr_run c)))) = 0"
proof -
  obtain s where ops: "remove_operands tidy_worker (cli_operands tidy_cli) (start_rm tidy_cli initial_pool []) () = (s, ())"
    and seeded: "r_submitted (rs_run s) = [(0, k_runnable)]" "r_heap (rs_run s) = [0 \<mapsto> new_dir_node 5 None ''d'']"
      "r_next (rs_run s) = 1" using tidy_operands by (auto simp: start_rm_def tidy_cli_def)
  let ?c = "crew_start 2 (rs_run s)"
  let ?st = "(seen_by 1 ?c)\<lparr>r_submitted := []\<rparr>"
  obtain st' where pr: "process tidy_worker 0 ?st () = Some (st', ())" and st': "r_submitted st' = []" "r_next st' = 1"
    using tidy_process [of ?st] seeded by (auto simp: seen_by_def)
  let ?c' = "\<lparr>cr_run = st', cr_failures = (cr_failures ?c)[1 := r_failures st']\<rparr>"
  have "crew_step tidy_worker (?c, ()) (?c', ())"
    by (rule works [where j = 0 and task = 0, OF _ _ _ pr]) (simp_all add: seeded picked_def crew_start_def)
  then have steps: "(crew_step tidy_worker)\<^sup>*\<^sup>* (?c, ()) (?c', ())" by simp
  have "bits initial_pool = packed 0 0" by (simp add: initial_pool_def packed_def)
  from crew_exit_status [OF ops steps this] st' obtain msgs where "r_err (cr_run ?c') = [] @ msgs"
    "rs_failures s + sum_list (cr_failures ?c') = of_bool (has_dropped_operands tidy_cli) + length msgs"
    "(\<forall>n. r_heap (cr_run ?c') n = None) \<and> live (unpack (bits (r_pool (cr_run ?c')))) = 0"
    by (auto simp: few_def)
  moreover have "?c' \<noteq> ?c" using st'(1) seeded(1) by (auto simp: crew_start_def)
  moreover have "cli_operands tidy_cli = [''d'']" "\<not> has_dropped_operands tidy_cli" by (simp_all add: tidy_cli_def)
  ultimately show ?thesis using ops steps by (intro exI [of _ s] exI [of _ ?c'] exI [of _ msgs]) simp
qed

text \<open>
  C5: if the system lists a finite number of directory records and refuses a descriptor a
  finite number of times, there is no endless schedule, however the tasks are distributed
  among the workers, as long as records and operands are fewer than \<open>2^32\<close>; and at every
  moment of every schedule, any worker can take any of the tasks left and finish it.
\<close>

theorem every_schedule_ends:
  assumes "records_advance sys" and "records_bound sys m" and "keeps_measure sys m"
    and "remove_operands (rm_worker sys garbage cl) (cli_operands cl) (start_rm cl p errs) w = (s, w1)"
    and "length (cli_operands cl) + m w1 + 3 < 2 ^ 32"
  shows "\<not> (\<exists>run. run 0 = (crew_start threads (rs_run s), w1) \<and>
      (\<forall>k. crew_step (rm_worker sys garbage cl) (run k) (run (Suc k)))) \<and>
    (\<forall>c w'. (crew_step (rm_worker sys garbage cl))\<^sup>*\<^sup>* (crew_start threads (rs_run s), w1) (c, w') \<longrightarrow>
       few (cr_run c) \<and>
       (\<forall>i < length (cr_failures c). \<forall>j < length (r_submitted (cr_run c)). \<exists>st' w''.
          process (rm_worker sys garbage cl) (fst (r_submitted (cr_run c) ! j)) (snd (picked (\<lambda>_. j) (seen_by i c))) w' =
            Some (st', w'')))"
proof -
  let ?wk = "rm_worker sys garbage cl"
  have sys: "records_advance (wk_sys ?wk)" "records_bound (wk_sys ?wk) m" "keeps_measure (wk_sys ?wk) m"
    using assms(1-3) by (simp_all add: rm_worker_def)
  note f = operands_follow [OF assms(4)]
  have b: "r_next (rs_run s) + m w1 + 3 < 2 ^ 32"
    using remove_operands_next [OF assms(4)] assms(5) by (simp add: start_rm_def start_run_def)
  have "few (cr_run c) \<and> (\<forall>i < length (cr_failures c). \<forall>j < length (r_submitted (cr_run c)). \<exists>st' w''.
      process ?wk (fst (r_submitted (cr_run c) ! j)) (snd (picked (\<lambda>_. j) (seen_by i c))) w' = Some (st', w''))"
    if r: "(crew_step ?wk)\<^sup>*\<^sup>* (crew_start threads (rs_run s), w1) (c, w')" for c w'
  proof -
    from crew_within [OF r f sys b] have few: "few (cr_run c)" by (simp add: few_def)
    have "\<exists>st' w''. process ?wk (fst (r_submitted (cr_run c) ! j)) (snd (picked (\<lambda>_. j) (seen_by i c))) w' = Some (st', w'')"
      if "j < length (r_submitted (cr_run c))" for i j
    proof -
      have "r_submitted (seen_by i c) \<noteq> []" using that by auto
      from run_steps [OF sys(1) records_bound_listing [OF sys(2)] keeps_measureD(1) [OF sys(3)] _ _ this, of "\<lambda>_. j" w']
        crew_reached [OF r f] few
      obtain st' w'' where "goes_on ?wk (\<lambda>_. j) (seen_by i c) w' st' w''" by auto
      with that show ?thesis by (auto simp: goes_on_def picked_def Let_def)
    qed
    with few show ?thesis by blast
  qed
  with crew_ends [OF f sys b] show ?thesis by blast
qed

theorem every_schedule_ends_witness:
  "\<exists>s w1. remove_operands (rm_worker nested_sys (\<lambda>_. CHR 0x00) tidy_cli) [''d''] (start_rm tidy_cli initial_pool []) 0 = (s, w1) \<and>
     \<not> (\<exists>run. run 0 = (crew_start 3 (rs_run s), w1) \<and>
       (\<forall>k. crew_step (rm_worker nested_sys (\<lambda>_. CHR 0x00) tidy_cli) (run k) (run (Suc k))))"
proof -
  let ?wk = "rm_worker nested_sys (\<lambda>_. CHR 0x00) tidy_cli"
  obtain s w1 where r: "remove_operands ?wk (cli_operands tidy_cli) (start_rm tidy_cli initial_pool []) 0 = (s, w1)" by fastforce
  have "length (cli_operands tidy_cli) + (1 - w1) + 3 < 2 ^ 32" by (simp add: tidy_cli_def)
  note ends = every_schedule_ends [OF nested_sys_ok(1) nested_records nested_sys_ok(3) r this, where threads = 3]
  from conjunct1 [OF ends] r show ?thesis by (auto simp: tidy_cli_def)
qed

end
