(* ===== verification/Dirent_Bytes.thy ===== *)
theory Dirent_Bytes
  imports Os
begin

section \<open>Directory records as bytes\<close>

text \<open>
  \<open>DirEntry\<close>, \<open>DirEntries\<close> and \<open>BasicDirReader\<close> of \<open>cutils/os/os.hpp\<close> over the bytes of the
  borrowed buffer. The layout of \<open>struct dirent\<close> belongs to the platform and is an argument;
  what the kernel promises of the bytes it writes is a hypothesis. The theory ends with the
  refinement: whoever loops over the bytes sees the records \<open>Os\<close> loops over.
\<close>

subsection \<open>Layout\<close>

text \<open>
  The alignment of the struct, where its fields begin, how two bytes make an
  \<open>unsigned short\<close>, and the values of \<open>DT_DIR\<close> and \<open>DT_UNKNOWN\<close>. Only Darwin records the
  length of the name.
\<close>

record layout =
  ly_align :: nat
  ly_reclen :: nat
  ly_namlen :: "nat option"
  ly_type :: nat
  ly_name :: nat
  ly_short :: "char \<Rightarrow> char \<Rightarrow> nat"
  ly_dir :: char
  ly_unknown :: char

text \<open>Reads from memory; \<^const>\<open>None\<close> is a read past the end of the buffer.\<close>

definition byte_at :: "char list \<Rightarrow> nat \<Rightarrow> char option" where
  "byte_at buf i = (if i < length buf then Some (buf ! i) else None)"

definition short_at :: "layout \<Rightarrow> char list \<Rightarrow> nat \<Rightarrow> nat option" where
  "short_at l buf i =
     (if Suc i < length buf then Some (ly_short l (buf ! i) (buf ! Suc i)) else None)"

definition chars_at :: "char list \<Rightarrow> nat \<Rightarrow> nat \<Rightarrow> string option" where
  "chars_at buf i n = (if i + n \<le> length buf then Some (take n (drop i buf)) else None)"

text \<open>\<open>strlen\<close>.\<close>

definition strlen_at :: "char list \<Rightarrow> nat \<Rightarrow> nat option" where
  "strlen_at buf i =
     (if CHR 0x00 \<in> set (drop i buf) then Some (length (takeWhile (\<lambda>c. c \<noteq> CHR 0x00) (drop i buf))) else None)"

subsection \<open>DirEntry\<close>

text \<open>An entry is the address of its record.\<close>

definition raw_name :: "layout \<Rightarrow> char list \<Rightarrow> nat \<Rightarrow> string option" where
  "raw_name l buf a =
     (case ly_namlen l of
        Some n \<Rightarrow> Option.bind (short_at l buf (a + n)) (chars_at buf (a + ly_name l))
      | None \<Rightarrow> Option.bind (strlen_at buf (a + ly_name l)) (chars_at buf (a + ly_name l)))"

definition raw_type :: "layout \<Rightarrow> char list \<Rightarrow> nat \<Rightarrow> char option" where
  "raw_type l buf a = byte_at buf (a + ly_type l)"

definition raw_is_directory :: "layout \<Rightarrow> char list \<Rightarrow> nat \<Rightarrow> bool option" where
  "raw_is_directory l buf a = map_option (\<lambda>t. t = ly_dir l) (raw_type l buf a)"

definition raw_is_type_unknown :: "layout \<Rightarrow> char list \<Rightarrow> nat \<Rightarrow> bool option" where
  "raw_is_type_unknown l buf a = map_option (\<lambda>t. t = ly_unknown l) (raw_type l buf a)"

definition raw_is_dot_or_dot_dot :: "layout \<Rightarrow> char list \<Rightarrow> nat \<Rightarrow> bool option" where
  "raw_is_dot_or_dot_dot l buf a = map_option (\<lambda>text. text = ''.'' \<or> text = ''..'') (raw_name l buf a)"

text \<open>What a system call sees of \<open>c_str()\<close>: the bytes before the first NUL.\<close>

definition raw_c_str :: "layout \<Rightarrow> char list \<Rightarrow> nat \<Rightarrow> string option" where
  "raw_c_str l buf a = Option.bind (strlen_at buf (a + ly_name l)) (chars_at buf (a + ly_name l))"

definition raw_reclen :: "layout \<Rightarrow> char list \<Rightarrow> nat \<Rightarrow> nat option" where
  "raw_reclen l buf a = short_at l buf (a + ly_reclen l)"

subsection \<open>DirEntries\<close>

type_synonym 'w raw_getdents = "fd \<Rightarrow> nat \<Rightarrow> 'w \<Rightarrow> (char list, errc) expected \<times> 'w"

record raw_entries =
  re_dir :: fd
  re_buffer :: "char list"
  re_filled :: nat
  re_offset :: nat
  re_error :: errc
  re_failed :: bool

definition raw_at_end :: "raw_entries \<Rightarrow> bool" where
  "raw_at_end s \<longleftrightarrow> \<not> re_failed s \<and> re_offset s \<ge> re_filled s"

text \<open>\<open>CurrentEntry\<close> steps over the buffer in whole words.\<close>

definition raw_current_entry :: "layout \<Rightarrow> raw_entries \<Rightarrow> nat" where
  "raw_current_entry l s = re_offset s div ly_align l * ly_align l"

definition raw_current :: "layout \<Rightarrow> raw_entries \<Rightarrow> (nat, errc) expected" where
  "raw_current l s = (if re_failed s then Inl (re_error s) else Inr (raw_current_entry l s))"

text \<open>The call writes its records from the beginning of the buffer on.\<close>

partial_function (option) raw_fill_loop ::
  "'w raw_getdents \<Rightarrow> raw_entries \<Rightarrow> 'w \<Rightarrow> (raw_entries \<times> 'w) option" where
  "raw_fill_loop getdents s w =
     (case getdents (re_dir s) (length (re_buffer s)) w of
        (Inr bytes, w) \<Rightarrow>
          Some (s\<lparr>re_buffer := bytes @ drop (length bytes) (re_buffer s), re_filled := length bytes\<rparr>, w)
      | (Inl e, w) \<Rightarrow>
          if e = EINTR then raw_fill_loop getdents s w
          else Some (s\<lparr>re_error := e, re_failed := True\<rparr>, w))"

definition raw_fill :: "'w raw_getdents \<Rightarrow> raw_entries \<Rightarrow> 'w \<Rightarrow> (raw_entries \<times> 'w) option" where
  "raw_fill getdents s w = raw_fill_loop getdents (s\<lparr>re_offset := 0, re_filled := 0\<rparr>) w"

definition raw_advance :: "layout \<Rightarrow> 'w raw_getdents \<Rightarrow> raw_entries \<Rightarrow> 'w \<Rightarrow> (raw_entries \<times> 'w) option" where
  "raw_advance l getdents s w =
     (if re_failed s then Some (s\<lparr>re_failed := False, re_filled := 0, re_offset := 0\<rparr>, w)
      else
        Option.bind (raw_reclen l (re_buffer s) (raw_current_entry l s)) (\<lambda>n.
          let s = s\<lparr>re_offset := re_offset s + n\<rparr>
          in if re_offset s \<ge> re_filled s then raw_fill getdents s w else Some (s, w)))"

text \<open>The loop; its body gets the buffer and the entry in it.\<close>

partial_function (option) raw_loop ::
  "layout \<Rightarrow> 'w raw_getdents \<Rightarrow> (char list \<Rightarrow> (nat, errc) expected \<Rightarrow> 's \<Rightarrow> 'w \<Rightarrow> (bool \<times> 's \<times> 'w) option)
    \<Rightarrow> raw_entries \<Rightarrow> 's \<Rightarrow> 'w \<Rightarrow> ('s \<times> raw_entries \<times> 'w) option" where
  "raw_loop l getdents body s st w =
     (if raw_at_end s then Some (st, s, w)
      else
        Option.bind (body (re_buffer s) (raw_current l s) st w) (\<lambda>(stop, st, w).
          if stop then Some (st, s, w)
          else Option.bind (raw_advance l getdents s w) (\<lambda>(s, w). raw_loop l getdents body s st w)))"

subsection \<open>BasicDirReader\<close>

text \<open>The buffer, made of zeroed words and reused for every directory.\<close>

definition dir_reader :: "layout \<Rightarrow> nat \<Rightarrow> char list" where
  "dir_reader l buffer_bytes =
     replicate ((buffer_bytes + ly_align l - 1) div ly_align l * ly_align l) (CHR 0x00)"

definition raw_read :: "'w raw_getdents \<Rightarrow> char list \<Rightarrow> fd \<Rightarrow> 'w \<Rightarrow> (raw_entries \<times> 'w) option" where
  "raw_read getdents buffer d w =
     raw_fill getdents \<lparr>re_dir = d, re_buffer = buffer, re_filled = 0, re_offset = 0, re_error = Errno 0,
       re_failed = False\<rparr> w"

text \<open>A loop over a directory, which leaves the buffer to the next.\<close>

definition raw_for_each ::
  "layout \<Rightarrow> 'w raw_getdents \<Rightarrow> char list \<Rightarrow> fd
    \<Rightarrow> (char list \<Rightarrow> (nat, errc) expected \<Rightarrow> 's \<Rightarrow> 'w \<Rightarrow> (bool \<times> 's \<times> 'w) option)
    \<Rightarrow> 's \<Rightarrow> 'w \<Rightarrow> ('s \<times> char list \<times> 'w) option" where
  "raw_for_each l getdents buffer d body st w =
     Option.bind (raw_read getdents buffer d w) (\<lambda>(s, w).
       map_option (\<lambda>(st, s, w). (st, re_buffer s, w)) (raw_loop l getdents body s st w))"

lemma dir_reader_size:
  assumes "0 < ly_align l"
  shows "n \<le> length (dir_reader l n)" "length (dir_reader l n) < n + ly_align l"
    "ly_align l dvd length (dir_reader l n)"
proof -
  let ?k = "(n + ly_align l - 1) div ly_align l"
  have "?k * ly_align l + (n + ly_align l - 1) mod ly_align l = n + ly_align l - 1" by simp
  moreover have "(n + ly_align l - 1) mod ly_align l < ly_align l" using assms by simp
  ultimately show "n \<le> length (dir_reader l n)" "length (dir_reader l n) < n + ly_align l"
    using assms unfolding dir_reader_def length_replicate by linarith+
  show "ly_align l dvd length (dir_reader l n)" by (simp add: dir_reader_def)
qed

subsection \<open>What the kernel writes\<close>

text \<open>
  The bytes of one record: as long as the record says and padded to the alignment, with the
  name and a NUL inside, and the fields where the layout has them.
\<close>

definition type_byte :: "layout \<Rightarrow> dirent_type \<Rightarrow> char \<Rightarrow> bool" where
  "type_byte l t b \<longleftrightarrow> (t = DT_DIR \<longleftrightarrow> b = ly_dir l) \<and> (t = DT_UNKNOWN \<longleftrightarrow> b = ly_unknown l)"

definition record_bytes :: "layout \<Rightarrow> dirent \<Rightarrow> char list \<Rightarrow> bool" where
  "record_bytes l e c \<longleftrightarrow>
     length c = d_reclen e \<and> 0 < d_reclen e \<and> ly_align l dvd d_reclen e \<and>
     short_at l c (ly_reclen l) = Some (d_reclen e) \<and>
     (\<exists>b. byte_at c (ly_type l) = Some b \<and> type_byte l (d_type e) b) \<and>
     CHR 0x00 \<notin> set (d_name e) \<and>
     (\<exists>pad. drop (ly_name l) c = d_name e @ CHR 0x00 # pad) \<and>
     (\<forall>n. ly_namlen l = Some n \<longrightarrow> short_at l c n = Some (length (d_name e)))"

text \<open>A block: the records one after the other.\<close>

inductive block_of :: "layout \<Rightarrow> dirent list \<Rightarrow> char list \<Rightarrow> bool" for l where
  block_Nil: "block_of l [] []"
| block_Cons: "record_bytes l e c \<Longrightarrow> block_of l es bs \<Longrightarrow> block_of l (e # es) (c @ bs)"

inductive_cases block_ConsE: "block_of l (e # es) bs"

text \<open>The call that fills bytes answers what the call of records answers, within the buffer.\<close>

definition same_answers :: "layout \<Rightarrow> 'w sys \<Rightarrow> 'w raw_getdents \<Rightarrow> bool" where
  "same_answers l sys getdents \<longleftrightarrow>
     (\<forall>d sz w. case getdents d sz w of
        (Inl e, w') \<Rightarrow> sys_getdents sys d sz w = (Inl e, w')
      | (Inr bs, w') \<Rightarrow> length bs \<le> sz \<and> (\<exists>es. sys_getdents sys d sz w = (Inr es, w') \<and> block_of l es bs))"

lemma same_answersD:
  assumes "same_answers l sys getdents"
  shows "getdents d sz w = (Inl e, w') \<Longrightarrow> sys_getdents sys d sz w = (Inl e, w')"
    and "getdents d sz w = (Inr bs, w') \<Longrightarrow>
      length bs \<le> sz \<and> (\<exists>es. sys_getdents sys d sz w = (Inr es, w') \<and> block_of l es bs)"
proof -
  note a = assms [unfolded same_answers_def, THEN spec, THEN spec, THEN spec, of d sz w]
  show "getdents d sz w = (Inl e, w') \<Longrightarrow> sys_getdents sys d sz w = (Inl e, w')"
    "getdents d sz w = (Inr bs, w') \<Longrightarrow>
      length bs \<le> sz \<and> (\<exists>es. sys_getdents sys d sz w = (Inr es, w') \<and> block_of l es bs)"
    using a by simp_all
qed

lemma block_of_length: "block_of l es bs \<Longrightarrow> length bs = block_bytes es"
  by (induction rule: block_of.induct) (auto simp: record_bytes_def)

lemma block_of_aligned: "block_of l es bs \<Longrightarrow> ly_align l dvd length bs"
  by (induction rule: block_of.induct) (auto simp: record_bytes_def)

lemma block_of_pos: "block_of l es bs \<Longrightarrow> e \<in> set es \<Longrightarrow> 0 < d_reclen e"
  by (induction rule: block_of.induct) (auto simp: record_bytes_def)

lemma block_of_split:
  "block_of l (pre @ e # es) bs \<Longrightarrow>
     \<exists>b c b'. bs = b @ c @ b' \<and> block_of l pre b \<and> record_bytes l e c \<and> block_of l es b'"
proof (induction pre arbitrary: bs)
  case Nil
  then obtain c b where "bs = c @ b" "record_bytes l e c" "block_of l es b" by (auto elim: block_ConsE)
  then show ?case by (intro exI [of _ "[]"] exI [of _ c] exI [of _ b]) (simp add: block_Nil)
next
  case (Cons p pre)
  then obtain c0 b0 where 0: "bs = c0 @ b0" "record_bytes l p c0" "block_of l (pre @ e # es) b0"
    by (auto elim: block_ConsE)
  from Cons.IH [OF 0(3)] obtain b c b' where
    "b0 = b @ c @ b'" "block_of l pre b" "record_bytes l e c" "block_of l es b'" by blast
  with 0 show ?case by (intro exI [of _ "c0 @ b"] exI [of _ c] exI [of _ b']) (simp add: block_Cons)
qed

subsection \<open>Reading a record back\<close>

lemma reads_inside:
  "byte_at c i = Some x \<Longrightarrow> byte_at (b @ c @ b') (length b + i) = Some x"
  "short_at l c i = Some n \<Longrightarrow> short_at l (b @ c @ b') (length b + i) = Some n"
  by (auto simp: byte_at_def short_at_def nth_append split: if_splits)

lemma strlen_inside:
  assumes "drop i c = name @ CHR 0x00 # pad" and "CHR 0x00 \<notin> set name" and "c \<noteq> []"
  shows "strlen_at (b @ c @ b') (length b + i) = Some (length name)"
    and "chars_at (b @ c @ b') (length b + i) (length name) = Some name"
proof -
  have "i < length c" using assms(1) by (cases "i < length c") auto
  then have d: "drop (length b + i) (b @ c @ b') = name @ CHR 0x00 # pad @ b'" using assms(1) by simp
  have "takeWhile (\<lambda>c. c \<noteq> CHR 0x00) (name @ CHR 0x00 # pad @ b') = name"
    using assms(2) by (subst takeWhile_append2) auto
  with d show "strlen_at (b @ c @ b') (length b + i) = Some (length name)" by (simp add: strlen_at_def)
  have "length name < length c - i" using arg_cong [OF assms(1), of length] by simp
  with d show "chars_at (b @ c @ b') (length b + i) (length name) = Some name" by (simp add: chars_at_def)
qed

lemma record_read:
  assumes "record_bytes l e c"
  shows "raw_name l (b @ c @ b') (length b) = Some (d_name e)"
    and "raw_c_str l (b @ c @ b') (length b) = Some (d_name e)"
    and "raw_reclen l (b @ c @ b') (length b) = Some (d_reclen e)"
    and "raw_is_directory l (b @ c @ b') (length b) = Some (entry_is_directory e)"
    and "raw_is_type_unknown l (b @ c @ b') (length b) = Some (entry_is_type_unknown e)"
    and "raw_is_dot_or_dot_dot l (b @ c @ b') (length b) = Some (entry_is_dot_or_dot_dot e)"
proof -
  from assms obtain pad x where name: "drop (ly_name l) c = d_name e @ CHR 0x00 # pad" "CHR 0x00 \<notin> set (d_name e)"
    and ty: "byte_at c (ly_type l) = Some x" "type_byte l (d_type e) x"
    and len: "\<And>n. ly_namlen l = Some n \<Longrightarrow> short_at l c n = Some (length (d_name e))"
    and rec: "short_at l c (ly_reclen l) = Some (d_reclen e)"
    unfolding record_bytes_def by blast
  from assms have ne: "c \<noteq> []" by (auto simp: record_bytes_def)
  note n = strlen_inside [OF name ne, of b b']
  show nm: "raw_name l (b @ c @ b') (length b) = Some (d_name e)"
    using n len reads_inside(2) [where b = b and b' = b' and c = c]
    by (auto simp: raw_name_def split: option.split)
  from n show "raw_c_str l (b @ c @ b') (length b) = Some (d_name e)" by (simp add: raw_c_str_def)
  from reads_inside(2) [OF rec] show "raw_reclen l (b @ c @ b') (length b) = Some (d_reclen e)"
    by (simp add: raw_reclen_def)
  from nm show "raw_is_dot_or_dot_dot l (b @ c @ b') (length b) = Some (entry_is_dot_or_dot_dot e)"
    by (simp add: raw_is_dot_or_dot_dot_def entry_is_dot_or_dot_dot_def)
  from reads_inside(1) [OF ty(1)] ty(2)
  show "raw_is_directory l (b @ c @ b') (length b) = Some (entry_is_directory e)"
    "raw_is_type_unknown l (b @ c @ b') (length b) = Some (entry_is_type_unknown e)"
    by (auto simp: raw_is_directory_def raw_is_type_unknown_def raw_type_def entry_is_directory_def
        entry_is_type_unknown_def type_byte_def)
qed

subsection \<open>The same loop\<close>

text \<open>
  A reader of bytes and a reader of records in the same state: while there is an entry to
  read, it begins at a record of the block the buffer starts with.
\<close>

definition at_record :: "layout \<Rightarrow> raw_entries \<Rightarrow> dir_entries \<Rightarrow> bool" where
  "at_record l rs ds \<longleftrightarrow>
     (\<exists>pre e es bs rest. de_block ds = pre @ e # es \<and> block_of l (de_block ds) bs \<and> re_buffer rs = bs @ rest \<and>
        de_offset ds = block_bytes pre \<and> de_filled ds = block_bytes (de_block ds))"

definition same_reader :: "layout \<Rightarrow> raw_entries \<Rightarrow> dir_entries \<Rightarrow> bool" where
  "same_reader l rs ds \<longleftrightarrow>
     re_dir rs = de_dir ds \<and> length (re_buffer rs) = de_size ds \<and> re_filled rs = de_filled ds \<and>
     re_offset rs = de_offset ds \<and> re_failed rs = de_failed ds \<and> (de_failed ds \<longrightarrow> re_error rs = de_error ds) \<and>
     (de_failed ds \<or> at_end ds \<or> at_record l rs ds)"

lemma at_end_same: "same_reader l rs ds \<Longrightarrow> raw_at_end rs = at_end ds"
  by (auto simp: same_reader_def raw_at_end_def at_end_def)

text \<open>A filled buffer.\<close>

lemma same_reader_filled:
  assumes "re_dir rs = de_dir ds" "length (re_buffer rs) = de_size ds" "re_offset rs = 0" "de_offset ds = 0"
    "\<not> re_failed rs" "\<not> de_failed ds" and "block_of l es bs" and "length bs \<le> de_size ds"
  shows "same_reader l (rs\<lparr>re_buffer := bs @ drop (length bs) (re_buffer rs), re_filled := length bs\<rparr>)
    (ds\<lparr>de_block := es, de_filled := block_bytes es\<rparr>)"
proof (cases es)
  case Nil
  with assms block_of_length [OF assms(7)] show ?thesis by (simp add: same_reader_def at_end_def)
next
  case (Cons e es')
  have "at_record l (rs\<lparr>re_buffer := bs @ drop (length bs) (re_buffer rs), re_filled := length bs\<rparr>)
      (ds\<lparr>de_block := es, de_filled := block_bytes es\<rparr>)"
    unfolding at_record_def
    by (rule exI [of _ "[]"], rule exI [of _ e], rule exI [of _ es'], rule exI [of _ bs])
      (use assms Cons in simp)
  with assms block_of_length [OF assms(7)] show ?thesis by (simp add: same_reader_def)
qed

definition before_fill :: "raw_entries \<Rightarrow> dir_entries \<Rightarrow> bool" where
  "before_fill rs ds \<longleftrightarrow> re_dir rs = de_dir ds \<and> length (re_buffer rs) = de_size ds \<and> re_offset rs = 0 \<and>
     de_offset ds = 0 \<and> re_filled rs = 0 \<and> de_filled ds = 0 \<and> \<not> re_failed rs \<and> \<not> de_failed ds"

lemma fill_loop_same:
  assumes "raw_fill_loop getdents rs w = Some (rs', w')" and "before_fill rs ds" and ans: "same_answers l sys getdents"
  shows "\<exists>ds'. fill_loop sys ds w = Some (ds', w') \<and> same_reader l rs' ds'"
proof -
  have "before_fill rs ds \<and> same_answers l sys getdents \<longrightarrow>
      (\<exists>ds'. fill_loop sys ds w = Some (ds', snd (rs', w')) \<and> same_reader l (fst (rs', w')) ds')"
  proof (rule raw_fill_loop.raw_induct [where P = "\<lambda>getdents rs w r. before_fill rs ds \<and> same_answers l sys getdents \<longrightarrow>
      (\<exists>ds'. fill_loop sys ds w = Some (ds', snd r) \<and> same_reader l (fst r) ds')", OF _ assms(1)], intro impI, elim conjE, goal_cases)
    case (1 fl getdents rs w r)
    note IH = 1(1) and run = 1(2) and b = 1(3) and ans = 1(4)
    obtain res w1 where g: "getdents (re_dir rs) (length (re_buffer rs)) w = (res, w1)" by fastforce
    note g' = g [unfolded b [unfolded before_fill_def, THEN conjunct1]
        b [unfolded before_fill_def, THEN conjunct2, THEN conjunct1]]
    show ?case
    proof (cases res)
      case (Inr bs)
      with g run have r: "r = (rs\<lparr>re_buffer := bs @ drop (length bs) (re_buffer rs), re_filled := length bs\<rparr>, w1)" by simp
      from same_answersD(2) [OF ans g' [unfolded Inr]] obtain es where
        es: "sys_getdents sys (de_dir ds) (de_size ds) w = (Inr es, w1)" "block_of l es bs" "length bs \<le> de_size ds" by blast
      have "same_reader l (fst r) (ds\<lparr>de_block := es, de_filled := block_bytes es\<rparr>)"
        unfolding r fst_conv using b es by (intro same_reader_filled) (simp_all add: before_fill_def)
      with es r show ?thesis by (subst fill_loop.simps) simp
    next
      case (Inl e)
      note s = same_answersD(1) [OF ans g' [unfolded Inl]]
      show ?thesis
      proof (cases "e = EINTR")
        case True
        with g run Inl have "fl getdents rs w1 = Some r" by simp
        from IH [OF this] b ans True s show ?thesis by (subst fill_loop.simps) simp
      next
        case False
        with g run Inl have "r = (rs\<lparr>re_error := e, re_failed := True\<rparr>, w1)" by simp
        with b s False show ?thesis by (subst fill_loop.simps) (simp add: before_fill_def same_reader_def)
      qed
    qed
  qed
  with assms show ?thesis by simp
qed

lemma fill_loop_defined:
  assumes "fill_loop sys ds w = Some (ds', w')" and "before_fill rs ds" and ans: "same_answers l sys getdents"
  shows "raw_fill_loop getdents rs w \<noteq> None"
proof -
  have "before_fill rs ds \<and> same_answers l sys getdents \<longrightarrow> raw_fill_loop getdents rs w \<noteq> None"
  proof (rule fill_loop.raw_induct [where P = "\<lambda>sys ds w r. before_fill rs ds \<and> same_answers l sys getdents \<longrightarrow>
      raw_fill_loop getdents rs w \<noteq> None", OF _ assms(1)], intro impI, elim conjE, goal_cases)
    case (1 fl sys ds w r)
    note IH = 1(1) and run = 1(2) and b = 1(3) and ans = 1(4)
    obtain res w1 where g: "getdents (re_dir rs) (length (re_buffer rs)) w = (res, w1)" by fastforce
    show ?case
    proof (cases "res = Inl EINTR")
      case True
      note g1 = g [unfolded True]
      from same_answersD(1) [OF ans g1] b have "sys_getdents sys (de_dir ds) (de_size ds) w = (Inl EINTR, w1)"
        by (simp add: before_fill_def)
      with run have "fl sys ds w1 = Some r" by simp
      from IH [OF this] b ans g1 show ?thesis by (subst raw_fill_loop.simps) simp
    next
      case False
      with g show ?thesis by (subst raw_fill_loop.simps) (auto split: sum.split)
    qed
  qed
  with assms show ?thesis by simp
qed

text \<open>Two optional results that stand for each other.\<close>

definition same_result :: "('a \<Rightarrow> 'b \<Rightarrow> bool) \<Rightarrow> ('a \<times> 'w) option \<Rightarrow> ('b \<times> 'w) option \<Rightarrow> bool" where
  "same_result R = rel_option (rel_prod R (=))"

lemma same_resultI:
  "(\<And>a w. x = Some (a, w) \<Longrightarrow> \<exists>b. y = Some (b, w) \<and> R a b) \<Longrightarrow> (y \<noteq> None \<Longrightarrow> x \<noteq> None) \<Longrightarrow> same_result R x y"
  by (cases x; cases y) (auto simp: same_result_def)

lemma same_result_simps [simp]:
  "same_result R (Some (a, w)) (Some (b, w')) \<longleftrightarrow> R a b \<and> w = w'" "same_result R None None"
  "same_result R (Some (a, w)) None = False" "same_result R None (Some (b, w')) = False"
  by (simp_all add: same_result_def)

lemma raw_fill_same:
  assumes "re_dir rs = de_dir ds" "length (re_buffer rs) = de_size ds" "\<not> re_failed rs" "\<not> de_failed ds"
    and "same_answers l sys getdents"
  shows "same_result (same_reader l) (raw_fill getdents rs w) (dir_fill sys ds w)"
proof -
  have b: "before_fill (rs\<lparr>re_offset := 0, re_filled := 0\<rparr>) (ds\<lparr>de_offset := 0, de_filled := 0\<rparr>)"
    using assms by (simp add: before_fill_def)
  show ?thesis
    unfolding raw_fill_def dir_fill_def
    by (rule same_resultI) (use fill_loop_same [OF _ b assms(5)] fill_loop_defined [OF _ b assms(5)] in auto)
qed

text \<open>What the accessors of \<open>DirEntry\<close> say.\<close>

definition shows_entry :: "layout \<Rightarrow> char list \<Rightarrow> nat \<Rightarrow> dirent \<Rightarrow> bool" where
  "shows_entry l buf a e \<longleftrightarrow>
     raw_name l buf a = Some (d_name e) \<and> raw_c_str l buf a = Some (d_name e) \<and>
     raw_reclen l buf a = Some (d_reclen e) \<and> raw_is_directory l buf a = Some (entry_is_directory e) \<and>
     raw_is_type_unknown l buf a = Some (entry_is_type_unknown e) \<and>
     raw_is_dot_or_dot_dot l buf a = Some (entry_is_dot_or_dot_dot e)"

lemma at_record_entry:
  assumes "at_record l rs ds" and "re_offset rs = de_offset ds"
  shows "\<exists>e. current_entry ds = Some e \<and> shows_entry l (re_buffer rs) (raw_current_entry l rs) e"
    and "at_record l (rs\<lparr>re_offset := re_offset rs + d_reclen e\<rparr>) (ds\<lparr>de_offset := de_offset ds + d_reclen e\<rparr>) \<or>
      de_filled ds \<le> de_offset ds + d_reclen e \<or> current_entry ds \<noteq> Some e"
proof -
  from assms(1) obtain pre e0 es bs rest where ds: "de_block ds = pre @ e0 # es" "block_of l (de_block ds) bs"
    "re_buffer rs = bs @ rest" "de_offset ds = block_bytes pre" "de_filled ds = block_bytes (de_block ds)"
    by (auto simp: at_record_def)
  from block_of_split [of l pre e0 es bs] ds(1,2) obtain b c b' where
    bs: "bs = b @ c @ b'" "block_of l pre b" "record_bytes l e0 c" by auto
  have "\<forall>e \<in> set pre. 0 < d_reclen e" using block_of_pos [OF bs(2)] by blast
  with ds have cur: "current_entry ds = Some e0" by (simp add: current_entry_def record_at_append)
  from block_of_length [OF bs(2)] block_of_aligned [OF bs(2)] ds(4) assms(2)
  have "raw_current_entry l rs = length b" by (simp add: raw_current_entry_def)
  with record_read [OF bs(3), of b "b' @ rest"] bs(1) ds(3)
  have "shows_entry l (re_buffer rs) (raw_current_entry l rs) e0" by (simp add: shows_entry_def)
  with cur show "\<exists>e. current_entry ds = Some e \<and> shows_entry l (re_buffer rs) (raw_current_entry l rs) e" by blast
  show "at_record l (rs\<lparr>re_offset := re_offset rs + d_reclen e\<rparr>) (ds\<lparr>de_offset := de_offset ds + d_reclen e\<rparr>) \<or>
      de_filled ds \<le> de_offset ds + d_reclen e \<or> current_entry ds \<noteq> Some e"
  proof (cases "es")
    case Nil
    with ds cur show ?thesis by auto
  next
    case (Cons e1 es')
    have "at_record l (rs\<lparr>re_offset := re_offset rs + d_reclen e0\<rparr>) (ds\<lparr>de_offset := de_offset ds + d_reclen e0\<rparr>)"
      unfolding at_record_def
      by (rule exI [of _ "pre @ [e0]"], rule exI [of _ e1], rule exI [of _ es'], rule exI [of _ bs])
        (use ds Cons in simp)
    with cur show ?thesis by auto
  qed
qed

lemma current_same:
  assumes "same_reader l rs ds" and "\<not> at_end ds"
  shows "(\<exists>err. raw_current l rs = Inl err \<and> current ds = Some (Inl err)) \<or>
    (\<exists>a e. raw_current l rs = Inr a \<and> current ds = Some (Inr e) \<and> shows_entry l (re_buffer rs) a e)"
proof (cases "de_failed ds")
  case True
  with assms(1) show ?thesis by (simp add: same_reader_def raw_current_def current_def)
next
  case False
  with assms have "at_record l rs ds" "re_offset rs = de_offset ds" by (auto simp: same_reader_def)
  from at_record_entry(1) [OF this] False assms(1) show ?thesis
    by (auto simp: same_reader_def raw_current_def current_def)
qed

lemma raw_advance_same:
  assumes s: "same_reader l rs ds" and "\<not> at_end ds" and ans: "same_answers l sys getdents"
  shows "same_result (same_reader l) (raw_advance l getdents rs w) (dir_advance sys ds w)"
proof (cases "de_failed ds")
  case True
  with s show ?thesis by (simp add: same_reader_def raw_advance_def dir_advance_def at_end_def)
next
  case False
  with assms have r: "at_record l rs ds" "re_offset rs = de_offset ds" by (auto simp: same_reader_def)
  from at_record_entry(1) [OF this] obtain e where e: "current_entry ds = Some e"
    and n: "raw_reclen l (re_buffer rs) (raw_current_entry l rs) = Some (d_reclen e)"
    by (auto simp: shows_entry_def)
  let ?rs = "rs\<lparr>re_offset := re_offset rs + d_reclen e\<rparr>"
  let ?ds = "ds\<lparr>de_offset := de_offset ds + d_reclen e\<rparr>"
  have raw: "raw_advance l getdents rs w =
      (if re_filled rs \<le> re_offset rs + d_reclen e then raw_fill getdents ?rs w else Some (?rs, w))"
    using False s n by (simp add: raw_advance_def same_reader_def)
  have abs: "dir_advance sys ds w = (if de_filled ds \<le> de_offset ds + d_reclen e then dir_fill sys ?ds w else Some (?ds, w))"
    using False e by (simp add: dir_advance_def Let_def)
  show ?thesis
  proof (cases "de_filled ds \<le> de_offset ds + d_reclen e")
    case True
    with s have "re_filled rs \<le> re_offset rs + d_reclen e" by (simp add: same_reader_def)
    with True raw abs raw_fill_same [of ?rs ?ds l sys getdents w] s False ans show ?thesis
      by (simp add: same_reader_def)
  next
    case more: False
    with at_record_entry(2) [OF r, of e] e have "at_record l ?rs ?ds" by blast
    with more raw abs s False show ?thesis by (simp add: same_reader_def)
  qed
qed

text \<open>A body that looks at an entry through its accessors.\<close>

definition same_body ::
  "layout \<Rightarrow> (char list \<Rightarrow> (nat, errc) expected \<Rightarrow> 's \<Rightarrow> 'w \<Rightarrow> (bool \<times> 's \<times> 'w) option)
    \<Rightarrow> ((dirent, errc) expected \<Rightarrow> 's \<Rightarrow> 'w \<Rightarrow> (bool \<times> 's \<times> 'w) option) \<Rightarrow> bool" where
  "same_body l raw_body body \<longleftrightarrow>
     (\<forall>buf err st w. raw_body buf (Inl err) st w = body (Inl err) st w) \<and>
     (\<forall>buf a e st w. shows_entry l buf a e \<longrightarrow> raw_body buf (Inr a) st w = body (Inr e) st w)"

lemma same_body_current:
  assumes "same_body l raw_body body" and "same_reader l rs ds" and "\<not> at_end ds"
  shows "\<exists>v. current ds = Some v \<and> (\<forall>st w. raw_body (re_buffer rs) (raw_current l rs) st w = body v st w)"
  using current_same [OF assms(2,3)] assms(1) by (auto simp: same_body_def)

lemma raw_loop_same:
  assumes "raw_loop l getdents raw_body rs st w = Some (st', rs', w')"
    and "same_reader l rs ds" "same_answers l sys getdents" "same_body l raw_body body"
  shows "dir_loop sys body ds st w = Some (st', w')"
proof -
  have "\<forall>ds. same_reader l rs ds \<and> same_answers l sys getdents \<and> same_body l raw_body body \<longrightarrow>
      dir_loop sys body ds st w = Some (fst (st', rs', w'), snd (snd (st', rs', w')))"
  proof (rule raw_loop.raw_induct [where P = "\<lambda>l getdents raw_body rs st w r.
      \<forall>ds. same_reader l rs ds \<and> same_answers l sys getdents \<and> same_body l raw_body body \<longrightarrow>
        dir_loop sys body ds st w = Some (fst r, snd (snd r))", OF _ assms(1)], intro allI impI, elim conjE, goal_cases)
    case (1 lp l getdents raw_body rs st w r ds)
    note IH = 1(1) and run = 1(2) and s = 1(3) and ans = 1(4) and b = 1(5)
    show ?case
    proof (cases "at_end ds")
      case True
      with run at_end_same [OF s] have "r = (st, rs, w)" by simp
      with True show ?thesis by (subst dir_loop.simps) simp
    next
      case False
      from same_body_current [OF b s False] obtain v where
        v: "current ds = Some v" "raw_body (re_buffer rs) (raw_current l rs) st w = body v st w" by blast
      from run at_end_same [OF s] False v(2) obtain stop st1 w1 where
        bd: "body v st w = Some (stop, st1, w1)"
        and rest: "(if stop then Some (st1, rs, w1)
          else Option.bind (raw_advance l getdents rs w1) (\<lambda>(s, w). lp l getdents raw_body s st1 w)) = Some r"
        by (auto elim!: bind_SomeE)
      show ?thesis
      proof (cases stop)
        case True
        with rest bd v(1) False show ?thesis by (subst dir_loop.simps) auto
      next
        case cont: False
        with rest obtain rs2 w2 where ad: "raw_advance l getdents rs w1 = Some (rs2, w2)"
          and lp: "lp l getdents raw_body rs2 st1 w2 = Some r" by (auto elim!: bind_SomeE)
        from raw_advance_same [OF s False ans, of w1] ad obtain ds2 where
          "dir_advance sys ds w1 = Some (ds2, w2)" "same_reader l rs2 ds2"
          by (cases "dir_advance sys ds w1") auto
        with IH [OF lp] ans b bd v(1) False cont show ?thesis by (subst dir_loop.simps) simp
      qed
    qed
  qed
  with assms(2-4) show ?thesis by simp
qed

lemma raw_loop_defined:
  assumes "dir_loop sys body ds st w = Some (st', w')"
    and "same_reader l rs ds" "same_answers l sys getdents" "same_body l raw_body body"
  shows "raw_loop l getdents raw_body rs st w \<noteq> None"
proof -
  have "\<forall>rs. same_reader l rs ds \<and> same_answers l sys getdents \<and> same_body l raw_body body \<longrightarrow>
      raw_loop l getdents raw_body rs st w \<noteq> None"
  proof (rule dir_loop.raw_induct [where P = "\<lambda>sys body ds st w r.
      \<forall>rs. same_reader l rs ds \<and> same_answers l sys getdents \<and> same_body l raw_body body \<longrightarrow>
        raw_loop l getdents raw_body rs st w \<noteq> None", OF _ assms(1)], intro allI impI, elim conjE, goal_cases)
    case (1 lp sys body ds st w r rs)
    note IH = 1(1) and run = 1(2) and s = 1(3) and ans = 1(4) and b = 1(5)
    show ?case
    proof (cases "at_end ds")
      case True
      with at_end_same [OF s] show ?thesis by (subst raw_loop.simps) simp
    next
      case False
      from same_body_current [OF b s False] obtain v where
        v: "current ds = Some v" "raw_body (re_buffer rs) (raw_current l rs) st w = body v st w" by blast
      from run False v(1) obtain stop st1 w1 where
        bd: "body v st w = Some (stop, st1, w1)"
        and rest: "(if stop then Some (st1, w1)
          else Option.bind (dir_advance sys ds w1) (\<lambda>(de, w). lp sys body de st1 w)) = Some r"
        by (auto elim!: bind_SomeE)
      show ?thesis
      proof (cases stop)
        case True
        with bd v(2) False at_end_same [OF s] show ?thesis by (subst raw_loop.simps) simp
      next
        case cont: False
        with rest obtain ds2 w2 where ad: "dir_advance sys ds w1 = Some (ds2, w2)"
          and lp: "lp sys body ds2 st1 w2 = Some r" by (auto elim!: bind_SomeE)
        from raw_advance_same [OF s False ans, of w1] ad obtain rs2 where
          "raw_advance l getdents rs w1 = Some (rs2, w2)" "same_reader l rs2 ds2"
          by (cases "raw_advance l getdents rs w1") auto
        with IH [OF lp] ans b bd v(2) False cont at_end_same [OF s] show ?thesis by (subst raw_loop.simps) simp
      qed
    qed
  qed
  with assms(2-4) show ?thesis by simp
qed

lemma raw_read_same:
  "same_answers l sys getdents \<Longrightarrow>
     same_result (same_reader l) (raw_read getdents buffer d w) (dir_read sys d (length buffer) w)"
  unfolding raw_read_def dir_read_def by (rule raw_fill_same) simp_all

subsection \<open>Two platforms\<close>

text \<open>The layouts of the two platforms the code knows; both store the low byte first.\<close>

definition low_first :: "char \<Rightarrow> char \<Rightarrow> nat" where
  "low_first a b = of_char a + 256 * of_char b"

definition linux_layout :: layout where
  "linux_layout = \<lparr>ly_align = 8, ly_reclen = 16, ly_namlen = None, ly_type = 18, ly_name = 19,
     ly_short = low_first, ly_dir = CHR 0x04, ly_unknown = CHR 0x00\<rparr>"

definition darwin_layout :: layout where
  "darwin_layout = \<lparr>ly_align = 8, ly_reclen = 16, ly_namlen = Some 18, ly_type = 20, ly_name = 21,
     ly_short = low_first, ly_dir = CHR 0x04, ly_unknown = CHR 0x00\<rparr>"

definition short_bytes :: "nat \<Rightarrow> char list" where
  "short_bytes n = [char_of (n mod 256), char_of (n div 256)]"

text \<open>A record of either platform: inode and offset, the fields, the name, and the padding.\<close>

definition encode_record :: "layout \<Rightarrow> char \<Rightarrow> dirent \<Rightarrow> char list" where
  "encode_record l ty e =
     replicate 16 (CHR 0x00) @ short_bytes (d_reclen e) @
     (if ly_namlen l = None then [] else short_bytes (length (d_name e))) @ [ty] @ d_name e @
     replicate (d_reclen e - ly_name l - length (d_name e)) (CHR 0x00)"

lemma low_first_short:
  "n < 2 ^ 16 \<Longrightarrow> low_first (char_of (n mod 256)) (char_of (n div 256)) = n"
  by (simp add: low_first_def)

lemma encode_record_bytes:
  assumes "l = linux_layout \<or> l = darwin_layout" and "CHR 0x00 \<notin> set (d_name e)" and "8 dvd d_reclen e"
    and "ly_name l + length (d_name e) < d_reclen e" and "d_reclen e < 2 ^ 16" and "type_byte l (d_type e) ty"
  shows "record_bytes l e (encode_record l ty e)"
proof -
  have len: "length (d_name e) < 2 ^ 16" using assms(4,5) by simp
  obtain k where k: "d_reclen e - ly_name l - length (d_name e) = Suc k"
    using assms(4) by (cases "d_reclen e - ly_name l - length (d_name e)") auto
  note short = low_first_short [OF assms(5)] low_first_short [OF len]
  show ?thesis
    using assms(1)
  proof
    assume l: "l = linux_layout"
    show ?thesis
      using assms(2-6) short k unfolding l
      by (auto simp: record_bytes_def encode_record_def linux_layout_def short_bytes_def short_at_def byte_at_def
          nth_append)
  next
    assume l: "l = darwin_layout"
    show ?thesis
      using assms(2-6) short k unfolding l
      by (auto simp: record_bytes_def encode_record_def darwin_layout_def short_bytes_def short_at_def byte_at_def
          nth_append)
  qed
qed

subsection \<open>Properties\<close>

lemma raw_for_each_same:
  assumes "same_answers l sys getdents" and "same_body l raw_body body"
  shows "map_option (\<lambda>(st, buf, w). (st, w)) (raw_for_each l getdents buffer d raw_body st w) =
    dir_for_each sys d (length buffer) body st w"
proof -
  note rd = raw_read_same [OF assms(1), of buffer d w]
  show ?thesis
  proof (cases "raw_read getdents buffer d w")
    case None
    with rd have "dir_read sys d (length buffer) w = None"
      by (cases "dir_read sys d (length buffer) w") auto
    with None show ?thesis by (simp add: raw_for_each_def dir_for_each_def)
  next
    case (Some rw)
    then obtain rs w1 where rs: "raw_read getdents buffer d w = Some (rs, w1)" by (cases rw) auto
    with rd obtain ds where ds: "dir_read sys d (length buffer) w = Some (ds, w1)" "same_reader l rs ds"
      by (cases "dir_read sys d (length buffer) w") auto
    have "map_option (\<lambda>(st, buf, w). (st, w)) (map_option (\<lambda>(st, s, w). (st, re_buffer s, w)) (raw_loop l getdents raw_body rs st w1)) =
        dir_loop sys body ds st w1"
    proof (cases "raw_loop l getdents raw_body rs st w1")
      case None
      have "dir_loop sys body ds st w1 = None"
      proof (rule ccontr)
        assume "dir_loop sys body ds st w1 \<noteq> None"
        then obtain st' w' where "dir_loop sys body ds st w1 = Some (st', w')" by auto
        from raw_loop_defined [OF this ds(2) assms] None show False by blast
      qed
      with None show ?thesis by simp
    next
      case (Some r)
      then obtain st' rs' w' where "raw_loop l getdents raw_body rs st w1 = Some (st', rs', w')" by (cases r) auto
      with raw_loop_same [OF this ds(2) assms] show ?thesis by simp
    qed
    with rs ds(1) show ?thesis by (simp add: raw_for_each_def dir_for_each_def)
  qed
qed

text \<open>
  A loop over a directory that reads the bytes the kernel wrote, through the accessors
  of \<open>DirEntry\<close> and striding by the record lengths found in the buffer, behaves exactly as
  the loop over the list of records: it visits the same entries in the same order, never
  reads outside the buffer when the loop over records is defined, and leaves the same state;
  with the default size of the buffer this is the loop of \<open>Scan\<close>.
\<close>

theorem bytes_refine_records:
  assumes "same_answers l sys getdents" and "same_body l raw_body body" and "0 < ly_align l" "ly_align l dvd buffer_bytes"
  shows "map_option (\<lambda>(st, buf, w). (st, w)) (raw_for_each l getdents (dir_reader l buffer_bytes) d raw_body st w) =
    dir_for_each sys d buffer_bytes body st w"
proof -
  obtain k where k: "buffer_bytes = ly_align l * k" using assms(4) by blast
  have "(ly_align l * k + (ly_align l - 1)) div ly_align l = k"
    using assms(3) by (subst div_mult_self4) simp_all
  moreover have "buffer_bytes + ly_align l - 1 = ly_align l * k + (ly_align l - 1)" using assms(3) k by simp
  ultimately have "length (dir_reader l buffer_bytes) = buffer_bytes" by (simp add: dir_reader_def k)
  with raw_for_each_same [OF assms(1,2), of "dir_reader l buffer_bytes"] show ?thesis by simp
qed

text \<open>The directory of \<open>Os\<close> as bytes, and as records; a buffer too small is refused.\<close>

definition block_getdents :: "nat raw_getdents" where
  "block_getdents d n w =
     (if n < 48 then (Inl EINVAL, w)
      else (map_sum id (\<lambda>es. concat (map (encode_record linux_layout (CHR 0x04)) es)) (example_dents w), Suc w))"

definition block_sys :: "nat sys" where
  "block_sys = null_sys\<lparr>sys_getdents := (\<lambda>d n w. if n < 48 then (Inl EINVAL, w) else (example_dents w, Suc w))\<rparr>"

definition raw_example_body ::
  "char list \<Rightarrow> (nat, errc) expected \<Rightarrow> (errc + string) list \<Rightarrow> nat \<Rightarrow> (bool \<times> (errc + string) list \<times> nat) option" where
  "raw_example_body buf v seen w =
     (case v of
        Inl e \<Rightarrow> Some (False, seen @ [Inl e], w)
      | Inr a \<Rightarrow> map_option (\<lambda>name. (False, seen @ [Inr name], w)) (raw_name linux_layout buf a))"

lemma example_entry_bytes:
  "length name = 1 \<Longrightarrow> CHR 0x00 \<notin> set name \<Longrightarrow>
     record_bytes linux_layout (example_entry name) (encode_record linux_layout (CHR 0x04) (example_entry name))"
  by (rule encode_record_bytes) (simp_all add: example_entry_def linux_layout_def type_byte_def)

lemma block_of_concat: "(\<And>e. e \<in> set es \<Longrightarrow> record_bytes l e (f e)) \<Longrightarrow> block_of l es (concat (map f es))"
  by (induction es) (auto intro: block_Nil block_Cons)

lemma example_dents_blocks:
  assumes "example_dents w = Inr es"
  shows "block_of linux_layout es (concat (map (encode_record linux_layout (CHR 0x04)) es))" "block_bytes es \<le> 48"
proof -
  have es: "set es \<subseteq> example_entry ` {''a'', ''b'', ''c''}" "block_bytes es \<le> 48"
    using assms by (cases w rule: example_dents.cases; simp add: example_entry_def; fastforce)+
  from es(1) show "block_of linux_layout es (concat (map (encode_record linux_layout (CHR 0x04)) es))"
    by (intro block_of_concat) (auto intro!: example_entry_bytes)
  show "block_bytes es \<le> 48" by (rule es(2))
qed

lemma block_answers: "same_answers linux_layout block_sys block_getdents"
    unfolding same_answers_def
  proof (intro allI)
    fix d sz w
    show "case block_getdents d sz w of
        (Inl e, w') \<Rightarrow> sys_getdents block_sys d sz w = (Inl e, w')
      | (Inr bs, w') \<Rightarrow> length bs \<le> sz \<and>
          (\<exists>es. sys_getdents block_sys d sz w = (Inr es, w') \<and> block_of linux_layout es bs)"
    proof (cases "example_dents w")
      case (Inl e)
      then show ?thesis by (simp add: block_getdents_def block_sys_def)
    next
      case (Inr es)
      with example_dents_blocks [OF Inr] block_of_length [OF example_dents_blocks(1) [OF Inr]] show ?thesis
        by (auto simp: block_getdents_def block_sys_def)
    qed
  qed

theorem bytes_refine_records_witness:
  "map_option (\<lambda>(st, buf, w). (st, w)) (raw_for_each linux_layout block_getdents (dir_reader linux_layout 65536) 3 raw_example_body [] 0) =
   dir_for_each block_sys 3 65536 example_body [] 0"
proof (rule bytes_refine_records)
  show "same_body linux_layout raw_example_body example_body"
    by (auto simp: same_body_def raw_example_body_def shows_entry_def)
qed (rule block_answers, simp_all add: linux_layout_def)

end
