(* ===== verification/Scan_Bytes.thy ===== *)
theory Scan_Bytes
  imports Walk Dirent_Bytes
begin

section \<open>A scan over bytes\<close>

text \<open>
  The loop of \<open>Scan\<close> in \<open>main.cpp\<close> over the records as they lie in the worker's buffer: the
  same removal as the scan of \<open>Walk\<close> over a list of records.
\<close>

text \<open>All a worker asks an entry for.\<close>

definition entry_at :: "layout \<Rightarrow> char list \<Rightarrow> nat \<Rightarrow> dirent option" where
  "entry_at l buf a =
     Option.bind (raw_c_str l buf a) (\<lambda>name.
       Option.bind (raw_is_directory l buf a) (\<lambda>dir.
         Option.bind (raw_is_type_unknown l buf a) (\<lambda>unknown.
           map_option (\<lambda>n. \<lparr>d_name = name,
               d_type = (if dir then DT_DIR else if unknown then DT_UNKNOWN else DT_OTHER 0), d_reclen = n\<rparr>)
             (raw_reclen l buf a))))"

definition raw_scan_entry ::
  "layout \<Rightarrow> 'w worker \<Rightarrow> nat \<Rightarrow> string \<Rightarrow> char list \<Rightarrow> (nat, errc) expected \<Rightarrow> run \<Rightarrow> 'w
    \<Rightarrow> (bool \<times> run \<times> 'w) option" where
  "raw_scan_entry l wk task dir_path buf read st w =
     (case read of
        Inl error \<Rightarrow> scan_entry wk task dir_path (Inl error) st w
      | Inr a \<Rightarrow> Option.bind (entry_at l buf a) (\<lambda>entry. scan_entry wk task dir_path (Inr entry) st w))"

definition raw_scan ::
  "layout \<Rightarrow> 'w raw_getdents \<Rightarrow> 'w worker \<Rightarrow> char list \<Rightarrow> nat \<Rightarrow> run \<Rightarrow> 'w \<Rightarrow> (run \<times> char list \<times> 'w) option" where
  "raw_scan l getdents wk buffer task st w =
     Option.bind
       (if opt_verbose (wk_options wk) then path_into (wk_garbage wk) (r_heap st) task else Some [])
       (\<lambda>dir_path.
         Option.bind (r_heap st task) (\<lambda>d.
           raw_for_each l getdents buffer (dn_fd d) (raw_scan_entry l wk task dir_path) st w))"

text \<open>A worker does not look at the length of a record or at the value of another type.\<close>

lemma scan_entry_cong:
  assumes "d_name e' = d_name e" "entry_is_directory e' = entry_is_directory e"
    "entry_is_type_unknown e' = entry_is_type_unknown e"
  shows "scan_entry wk task dp (Inr e') st w = scan_entry wk task dp (Inr e) st w"
proof -
  have other: "scan_file wk task dp d e' st w = scan_file wk task dp d e st w"
    and subdir: "scan_subdir wk task dp d e' st w = scan_subdir wk task dp d e st w" for d st w
    unfolding scan_file_def scan_subdir_def assms(1) by (rule refl)+
  show ?thesis
    unfolding scan_entry_def sum.case entry_is_dot_or_dot_dot_def assms other subdir by (rule refl)
qed

lemma entry_at_shown:
  assumes "shows_entry l buf a e"
  shows "\<exists>e'. entry_at l buf a = Some e' \<and> d_name e' = d_name e \<and> entry_is_directory e' = entry_is_directory e \<and>
    entry_is_type_unknown e' = entry_is_type_unknown e"
  using assms
  by (auto simp: shows_entry_def entry_at_def entry_is_directory_def entry_is_type_unknown_def)

lemma raw_scan_entry_same: "same_body l (raw_scan_entry l wk task dp) (scan_entry wk task dp)"
  unfolding same_body_def
proof (intro conjI allI impI)
  fix buf a e st w
  assume "shows_entry l buf a e"
  from entry_at_shown [OF this] obtain e' where e': "entry_at l buf a = Some e'" "d_name e' = d_name e"
    "entry_is_directory e' = entry_is_directory e" "entry_is_type_unknown e' = entry_is_type_unknown e" by blast
  from scan_entry_cong [OF e'(2-4)] e'(1)
  show "raw_scan_entry l wk task dp buf (Inr a) st w = scan_entry wk task dp (Inr e) st w"
    by (simp add: raw_scan_entry_def)
qed (simp add: raw_scan_entry_def)

text \<open>
  C22: a worker that scans a directory through its reusable buffer, reading the name, the
  type and the length of each record out of the bytes the kernel wrote, does what the scan
  over the list of records does, whatever the last directory left in the buffer: the same
  files are unlinked, the same children handed on, the same messages printed, and no byte
  outside the buffer is read if the scan over records is defined.
\<close>

theorem scan_reads_bytes:
  assumes "same_answers l (wk_sys wk) getdents" and "length buffer = k_default_dir_buffer_bytes"
  shows "map_option (\<lambda>(st, buf, w). (st, w)) (raw_scan l getdents wk buffer task st w) = scan wk task st w"
proof -
  have "map_option (\<lambda>(st, buf, w). (st, w)) (raw_for_each l getdents buffer d (raw_scan_entry l wk task dp) st w) =
      dir_for_each (wk_sys wk) d k_default_dir_buffer_bytes (scan_entry wk task dp) st w" for d dp
    using raw_for_each_same [OF assms(1) raw_scan_entry_same, of buffer] assms(2) by simp
  then show ?thesis
    unfolding raw_scan_def scan_def
    by (cases "if opt_verbose (wk_options wk) then path_into (wk_garbage wk) (r_heap st) task else Some []";
        cases "r_heap st task") simp_all
qed

definition bytes_worker :: "nat worker" where
  "bytes_worker = \<lparr>wk_sys = block_sys, wk_options = default_options, wk_prog = ''rm'', wk_garbage = (\<lambda>i. CHR ''?'')\<rparr>"

theorem scan_reads_bytes_witness:
  "map_option (\<lambda>(st, buf, w). (st, w))
     (raw_scan linux_layout block_getdents bytes_worker (dir_reader linux_layout 65536) 0 example_run 0) =
   scan bytes_worker 0 example_run 0"
proof (rule scan_reads_bytes)
  show "same_answers linux_layout (wk_sys bytes_worker) block_getdents"
    using block_answers by (simp add: bytes_worker_def)
  show "length (dir_reader linux_layout 65536) = k_default_dir_buffer_bytes"
    by (simp add: dir_reader_def linux_layout_def k_default_dir_buffer_bytes_def)
qed

end
