(* ===== verification/Chase_Lev.thy ===== *)
theory Chase_Lev
  imports Prelude
begin

section \<open>The work-stealing queue\<close>

text \<open>
  \<open>ChaseLev\<close> of \<open>cutils/workstealing_queue\<close>. First its operations as functions, each run
  without interference, against the contract of a work-stealing queue; then the same code
  cut into its atomic accesses, for an owner and any number of thieves that take turns in
  any order. The accesses are sequentially consistent: what the code's fences and memory
  orders are there to give is assumed, not derived. Indices are integers; \<open>int64_t\<close> would
  take \<open>2^63\<close> insertions to wrap around.
\<close>

subsection \<open>State and operations\<close>

record 'a cl_data =
  len :: nat
  buffer :: "'a list"

text \<open>\<open>data_\<close> points into \<open>buffers_\<close>, which keeps the retired buffers alive.\<close>

record 'a chase_lev =
  top :: int
  bottom :: int
  data :: nat
  buffers :: "'a cl_data list"

definition k_init_cap :: nat where "k_init_cap = 1024"

text \<open>\<open>blank\<close> is the value-initialised element.\<close>

definition cl_make :: "'a \<Rightarrow> 'a chase_lev" where
  "cl_make blank =
     \<lparr>top = 0, bottom = 0, data = 0,
      buffers = [\<lparr>len = k_init_cap, buffer = replicate k_init_cap blank\<rparr>]\<rparr>"

text \<open>\<open>data_\<close> of the queue moved from is null: it points past the buffers it no longer has.\<close>

definition cl_move :: "'a chase_lev \<Rightarrow> 'a chase_lev \<times> 'a chase_lev" where
  "cl_move other = (other, other\<lparr>buffers := [], data := 0\<rparr>)"

definition active :: "'a chase_lev \<Rightarrow> 'a cl_data" where
  "active s = buffers s ! data s"

definition slot :: "'a cl_data \<Rightarrow> int \<Rightarrow> 'a" where
  "slot d i = buffer d ! (nat i mod len d)"

definition set_slot :: "'a cl_data \<Rightarrow> int \<Rightarrow> 'a \<Rightarrow> 'a cl_data" where
  "set_slot d i v = d\<lparr>buffer := (buffer d)[nat i mod len d := v]\<rparr>"

definition cl_take :: "'a chase_lev \<Rightarrow> 'a option \<times> 'a chase_lev" where
  "cl_take s =
     (let b = bottom s - 1; a = active s; s = s\<lparr>bottom := b\<rparr>; t = top s
      in if t \<le> b then
           (let val = slot a b
            in if t = b then (Some val, s\<lparr>top := t + 1, bottom := b + 1\<rparr>)
               else (Some val, s))
         else (None, s\<lparr>bottom := b + 1\<rparr>))"

text \<open>The copying loop of \<open>Resize\<close>, from \<open>i\<close> up to \<open>b\<close>.\<close>

function copy_slots :: "'a cl_data \<Rightarrow> int \<Rightarrow> int \<Rightarrow> 'a cl_data \<Rightarrow> 'a cl_data" where
  "copy_slots old i b nd =
     (if i < b then copy_slots old (i + 1) b (set_slot nd i (slot old i)) else nd)"
  by pat_completeness auto
termination
  by (relation "measure (\<lambda>(old, i, b, nd). nat (b - i))") auto

declare copy_slots.simps [simp del]

definition cl_resize :: "'a \<Rightarrow> 'a chase_lev \<Rightarrow> 'a chase_lev" where
  "cl_resize blank s =
     (let old = active s; new_len = len old * 2;
          nd = \<lparr>len = new_len, buffer = replicate new_len blank\<rparr>;
          nd = copy_slots old (top s) (bottom s) nd
      in s\<lparr>buffers := buffers s @ [nd], data := length (buffers s)\<rparr>)"

definition store_slot :: "int \<Rightarrow> 'a \<Rightarrow> 'a chase_lev \<Rightarrow> 'a chase_lev" where
  "store_slot b v s = s\<lparr>buffers := (buffers s)[data s := set_slot (active s) b v]\<rparr>"

definition is_full :: "int \<Rightarrow> int \<Rightarrow> 'a chase_lev \<Rightarrow> bool" where
  "is_full b t s \<longleftrightarrow> b - t > int (len (active s)) - 1"

definition cl_insert :: "'a \<Rightarrow> 'a \<Rightarrow> 'a chase_lev \<Rightarrow> 'a chase_lev" where
  "cl_insert blank v s =
     (let b = bottom s; t = top s;
          s = (if is_full b t s then cl_resize blank s else s)
      in (store_slot b v s)\<lparr>bottom := b + 1\<rparr>)"

definition cl_steal :: "'a chase_lev \<Rightarrow> 'a option \<times> 'a chase_lev" where
  "cl_steal s =
     (let t = top s; b = bottom s
      in if t < b then (Some (slot (active s) t), s\<lparr>top := t + 1\<rparr>) else (None, s))"

subsection \<open>Invariant and contents\<close>

definition data_ok :: "'a cl_data \<Rightarrow> bool" where
  "data_ok d \<longleftrightarrow> 0 < len d \<and> length (buffer d) = len d"

text \<open>\<open>hi\<close> is the end of the elements in the queue, \<open>bottom\<close> when its owner is at rest.\<close>

definition cl_ok_upto :: "int \<Rightarrow> 'a chase_lev \<Rightarrow> bool" where
  "cl_ok_upto hi s \<longleftrightarrow> data s < length (buffers s) \<and> data_ok (active s) \<and>
     0 \<le> top s \<and> top s \<le> hi \<and> hi - top s \<le> int (len (active s))"

definition items_upto :: "int \<Rightarrow> 'a chase_lev \<Rightarrow> 'a list" where
  "items_upto hi s = map (slot (active s)) [top s..hi - 1]"

abbreviation cl_ok :: "'a chase_lev \<Rightarrow> bool" where
  "cl_ok s \<equiv> cl_ok_upto (bottom s) s"

definition items :: "'a chase_lev \<Rightarrow> 'a list" where
  "items s = items_upto (bottom s) s"

lemma slot_set_slot:
  assumes "data_ok d" and "0 \<le> i" and "0 \<le> j" and "\<bar>i - j\<bar> < int (len d)"
  shows "slot (set_slot d i v) j = (if j = i then v else slot d j)"
proof -
  have lt: "nat i mod len d < length (buffer d)" using assms(1) by (simp add: data_ok_def)
  have "nat i mod len d = nat j mod len d \<Longrightarrow> i = j"
  proof -
    assume "nat i mod len d = nat j mod len d"
    then have "int (len d) dvd i - j"
      using assms(2,3) by (metis mod_eq_dvd_iff zmod_int int_nat_eq)
    with assms(4) show "i = j" using zdvd_imp_le [of "int (len d)" "\<bar>i - j\<bar>"] by force
  qed
  with lt show ?thesis by (auto simp: slot_def set_slot_def nth_list_update)
qed

lemma set_slot_simps [simp]:
  "len (set_slot d i v) = len d" "data_ok (set_slot d i v) = data_ok d"
  by (simp_all add: set_slot_def data_ok_def)

text \<open>A write outside the window of the live elements does not show.\<close>

lemma slot_set_slot_other:
  "data_ok d \<Longrightarrow> 0 \<le> j \<Longrightarrow> j < i \<Longrightarrow> i < j + int (len d) \<Longrightarrow> slot (set_slot d i v) j = slot d j"
  using slot_set_slot [of d i j v] by simp

lemma copy_slots_slot:
  "data_ok nd \<Longrightarrow> 0 \<le> i \<Longrightarrow> b - lo \<le> int (len nd) \<Longrightarrow> 0 \<le> lo \<Longrightarrow> lo \<le> i \<Longrightarrow>
   (\<forall>j. lo \<le> j \<and> j < i \<longrightarrow> slot nd j = slot old j) \<Longrightarrow>
   data_ok (copy_slots old i b nd) \<and> len (copy_slots old i b nd) = len nd \<and>
   (\<forall>j. lo \<le> j \<and> j < max i b \<longrightarrow> slot (copy_slots old i b nd) j = slot old j)"
proof (induction old i b nd rule: copy_slots.induct)
  case (1 old i b nd)
  show ?case
  proof (cases "i < b")
    case True
    have s: "slot (set_slot nd i (slot old i)) j = slot old j" if "lo \<le> j" "j < i + 1" for j
      using slot_set_slot [of nd i j "slot old i"] that 1(2-) True by auto
    have "data_ok (copy_slots old (i + 1) b (set_slot nd i (slot old i))) \<and>
        len (copy_slots old (i + 1) b (set_slot nd i (slot old i))) = len (set_slot nd i (slot old i)) \<and>
        (\<forall>j. lo \<le> j \<and> j < max (i + 1) b \<longrightarrow> slot (copy_slots old (i + 1) b (set_slot nd i (slot old i))) j = slot old j)"
      by (rule 1(1) [OF True]) (use 1(2-) s in auto)
    with True show ?thesis by (subst (1 2 3) copy_slots.simps) auto
  next
    case False
    with 1(2-) show ?thesis by (subst (1 2 3) copy_slots.simps) auto
  qed
qed

text \<open>Resizing keeps every live element, and every element a stale \<open>top\<close> still covers.\<close>

definition resized :: "'a \<Rightarrow> int \<Rightarrow> 'a chase_lev \<Rightarrow> 'a chase_lev" where
  "resized blank t s =
     s\<lparr>buffers := buffers s @ [copy_slots (active s) t (bottom s)
          \<lparr>len = len (active s) * 2, buffer = replicate (len (active s) * 2) blank\<rparr>],
       data := length (buffers s)\<rparr>"

lemma cl_resize_resized: "cl_resize blank s = resized blank (top s) s"
  by (simp add: cl_resize_def resized_def Let_def)

lemma resized_simps [simp]:
  "top (resized blank t s) = top s" "bottom (resized blank t s) = bottom s"
  "data (resized blank t s) = length (buffers s)" "length (buffers (resized blank t s)) = Suc (length (buffers s))"
  "i < length (buffers s) \<Longrightarrow> buffers (resized blank t s) ! i = buffers s ! i"
  by (simp_all add: resized_def nth_append)

lemma resized_active:
  assumes "cl_ok_upto hi s" and "0 \<le> t" and "bottom s - t \<le> 2 * int (len (active s))"
  shows "data_ok (active (resized blank t s)) \<and> len (active (resized blank t s)) = 2 * len (active s) \<and>
    (\<forall>j. t \<le> j \<and> j < bottom s \<longrightarrow> slot (active (resized blank t s)) j = slot (active s) j)"
proof -
  let ?nd = "\<lparr>len = len (active s) * 2, buffer = replicate (len (active s) * 2) blank\<rparr>"
  have "data_ok ?nd" using assms(1) by (simp add: data_ok_def cl_ok_upto_def)
  moreover have "\<forall>j. t \<le> j \<and> j < t \<longrightarrow> slot ?nd j = slot (active s) j" by auto
  moreover have "bottom s - t \<le> int (len ?nd)" using assms(3) by simp
  ultimately have "data_ok (copy_slots (active s) t (bottom s) ?nd) \<and>
      len (copy_slots (active s) t (bottom s) ?nd) = len ?nd \<and>
      (\<forall>j. t \<le> j \<and> j < max t (bottom s) \<longrightarrow> slot (copy_slots (active s) t (bottom s) ?nd) j = slot (active s) j)"
    using assms(2) by (intro copy_slots_slot) simp_all
  then show ?thesis by (auto simp: resized_def active_def)
qed

lemma store_slot_simps [simp]:
  "top (store_slot b v s) = top s" "bottom (store_slot b v s) = bottom s" "data (store_slot b v s) = data s"
  "length (buffers (store_slot b v s)) = length (buffers s)"
  "data s < length (buffers s) \<Longrightarrow> active (store_slot b v s) = set_slot (active s) b v"
  by (simp_all add: store_slot_def active_def)

lemma active_update [simp]:
  "active (s\<lparr>top := t\<rparr>) = active s" "active (s\<lparr>bottom := b\<rparr>) = active s"
  by (simp_all add: active_def)

lemma items_upto_cong:
  "top s = top s' \<Longrightarrow> (\<And>j. top s \<le> j \<Longrightarrow> j < hi \<Longrightarrow> slot (active s) j = slot (active s') j) \<Longrightarrow>
     items_upto hi s = items_upto hi s'"
  by (simp add: items_upto_def)

lemma items_upto_snoc: "top s \<le> hi \<Longrightarrow> items_upto (hi + 1) s = items_upto hi s @ [slot (active s) hi]"
  by (simp add: items_upto_def upto_rec2)

lemma items_upto_Cons:
  "top s < hi \<Longrightarrow> items_upto hi s = slot (active s) (top s) # items_upto hi (s\<lparr>top := top s + 1\<rparr>)"
  by (simp add: items_upto_def upto_rec1)

lemma items_upto_Nil: "hi \<le> top s \<Longrightarrow> items_upto hi s = []"
  by (simp add: items_upto_def)

lemma items_upto_bottom [simp]: "items_upto hi (s\<lparr>bottom := b\<rparr>) = items_upto hi s"
  by (simp add: items_upto_def)

lemma cl_ok_upto_bottom [simp]: "cl_ok_upto hi (s\<lparr>bottom := b\<rparr>) = cl_ok_upto hi s"
  by (simp add: cl_ok_upto_def)

subsection \<open>The contract, and the operations without interference\<close>

text \<open>
  \<open>IsWorkStealingQueue\<close>: insertions are taken back in last-in first-out order at the owner's
  end, and stolen in first-in first-out order at the other.
\<close>

locale work_stealing_queue =
  fixes insert :: "'v \<Rightarrow> 'q \<Rightarrow> 'q"
    and take :: "'q \<Rightarrow> 'v option \<times> 'q"
    and steal :: "'q \<Rightarrow> 'v option \<times> 'q"
    and contents :: "'q \<Rightarrow> 'v list"
    and ok :: "'q \<Rightarrow> bool"
  assumes insert: "ok q \<Longrightarrow> ok (insert v q) \<and> contents (insert v q) = contents q @ [v]"
    and take: "ok q \<Longrightarrow> take q = (r, q') \<Longrightarrow> ok q' \<and>
      (if contents q = [] then r = None \<and> contents q' = []
       else r = Some (last (contents q)) \<and> contents q' = butlast (contents q))"
    and steal: "ok q \<Longrightarrow> steal q = (r, q') \<Longrightarrow> ok q' \<and>
      (if contents q = [] then r = None \<and> contents q' = []
       else r = Some (hd (contents q)) \<and> contents q' = tl (contents q))"
begin

lemma insert_mset: "ok q \<Longrightarrow> ok (insert v q) \<and> mset (contents (insert v q)) = add_mset v (mset (contents q))"
  using insert [of q v] by simp

lemma take_mset:
  assumes "ok q" and "take q = (r, q')"
  shows "ok q' \<and> mset (contents q) = mset (contents q') + mset (case r of None \<Rightarrow> [] | Some v \<Rightarrow> [v])
    \<and> (r = None \<longleftrightarrow> contents q = [])"
  using take [OF assms] by (cases "contents q" rule: rev_cases) auto

lemma steal_mset:
  assumes "ok q" and "steal q = (r, q')"
  shows "ok q' \<and> mset (contents q) = mset (contents q') + mset (case r of None \<Rightarrow> [] | Some v \<Rightarrow> [v])
    \<and> (r = None \<longleftrightarrow> contents q = [])"
  using steal [OF assms] by (cases "contents q") auto

end

lemma cl_insert_room:
  assumes "cl_ok s" and "\<not> is_full (bottom s) (top s) s"
  shows "cl_ok ((store_slot (bottom s) v s)\<lparr>bottom := bottom s + 1\<rparr>) \<and>
    items ((store_slot (bottom s) v s)\<lparr>bottom := bottom s + 1\<rparr>) = items s @ [v]"
proof -
  let ?s = "store_slot (bottom s) v s"
  have ok: "data s < length (buffers s)" "data_ok (active s)" "0 \<le> top s" "top s \<le> bottom s"
    "bottom s < top s + int (len (active s))"
    using assms by (auto simp: cl_ok_upto_def is_full_def)
  have "items_upto (bottom s + 1) ?s = items_upto (bottom s) ?s @ [slot (active ?s) (bottom s)]"
    using items_upto_snoc [of ?s "bottom s"] ok by simp
  moreover have "items_upto (bottom s) ?s = items_upto (bottom s) s"
    using ok by (intro items_upto_cong) (simp_all add: slot_set_slot_other)
  moreover have "slot (active ?s) (bottom s) = v" using ok slot_set_slot [of "active s" "bottom s" "bottom s"] by (simp add: data_ok_def)
  ultimately show ?thesis using ok by (simp add: items_def cl_ok_upto_def)
qed

lemma cl_resize_ok:
  assumes "cl_ok s"
  shows "cl_ok (cl_resize blank s) \<and> items (cl_resize blank s) = items s \<and>
    \<not> is_full (bottom s) (top s) (cl_resize blank s)"
proof -
  have "bottom s - top s \<le> 2 * int (len (active s))" "0 \<le> top s" "0 < len (active s)"
    using assms by (auto simp: cl_ok_upto_def data_ok_def)
  with resized_active [OF assms, of "top s" blank] assms show ?thesis
    by (auto simp: cl_resize_resized cl_ok_upto_def is_full_def items_def intro!: items_upto_cong)
qed

interpretation cl: work_stealing_queue "cl_insert blank" cl_take cl_steal items cl_ok for blank
proof
  fix q q' :: "'a chase_lev" and v r
  assume ok: "cl_ok q"
  show "cl_ok (cl_insert blank v q) \<and> items (cl_insert blank v q) = items q @ [v]"
  proof (cases "is_full (bottom q) (top q) q")
    case True
    note r = cl_resize_ok [OF ok, of blank]
    have "bottom (cl_resize blank q) = bottom q" "top (cl_resize blank q) = top q"
      by (simp_all add: cl_resize_resized)
    with cl_insert_room [of "cl_resize blank q" v] r True show ?thesis
      by (simp add: cl_insert_def Let_def)
  next
    case False
    with cl_insert_room [OF ok False, of v] show ?thesis by (simp add: cl_insert_def Let_def)
  qed
  show "cl_ok q' \<and> (if items q = [] then r = None \<and> items q' = []
      else r = Some (last (items q)) \<and> items q' = butlast (items q))" if "cl_take q = (r, q')"
  proof (cases "top q \<le> bottom q - 1")
    case True
    have "items q = items_upto (bottom q - 1) q @ [slot (active q) (bottom q - 1)]"
      using items_upto_snoc [of q "bottom q - 1"] True by (simp add: items_def)
    moreover have "r = Some (slot (active q) (bottom q - 1)) \<and> cl_ok q' \<and> items q' = items_upto (bottom q - 1) q"
      using that True ok
      by (auto simp: cl_take_def Let_def cl_ok_upto_def items_def items_upto_def split: if_splits)
    ultimately show ?thesis by simp
  next
    case False
    with that ok show ?thesis by (auto simp: cl_take_def Let_def items_def items_upto_def)
  qed
  show "cl_ok q' \<and> (if items q = [] then r = None \<and> items q' = []
      else r = Some (hd (items q)) \<and> items q' = tl (items q))" if "cl_steal q = (r, q')"
    using that ok items_upto_Cons [of q "bottom q"] items_upto_Nil [of "bottom q" q]
    by (auto simp: cl_steal_def Let_def cl_ok_upto_def items_def split: if_splits)
qed

text \<open>Any series of calls on a new queue, and what they return.\<close>

datatype 'a wsq_call = Insert 'a | Take | Steal

fun cl_call :: "'a \<Rightarrow> 'a wsq_call \<Rightarrow> 'a chase_lev \<Rightarrow> 'a option \<times> 'a chase_lev" where
  "cl_call blank (Insert v) s = (None, cl_insert blank v s)"
| "cl_call blank Take s = cl_take s"
| "cl_call blank Steal s = cl_steal s"

fun cl_calls :: "'a \<Rightarrow> 'a wsq_call list \<Rightarrow> 'a chase_lev \<Rightarrow> 'a option list \<times> 'a chase_lev" where
  "cl_calls blank [] s = ([], s)"
| "cl_calls blank (c # cs) s =
     (case cl_call blank c s of (r, s) \<Rightarrow> case cl_calls blank cs s of (rs, s) \<Rightarrow> (r # rs, s))"

text \<open>The same calls on a plain list, oldest element first.\<close>

fun deque_call :: "'a wsq_call \<Rightarrow> 'a list \<Rightarrow> 'a option \<times> 'a list" where
  "deque_call (Insert v) xs = (None, xs @ [v])"
| "deque_call Take xs = (if xs = [] then (None, []) else (Some (last xs), butlast xs))"
| "deque_call Steal xs = (if xs = [] then (None, []) else (Some (hd xs), tl xs))"

fun deque_calls :: "'a wsq_call list \<Rightarrow> 'a list \<Rightarrow> 'a option list \<times> 'a list" where
  "deque_calls [] xs = ([], xs)"
| "deque_calls (c # cs) xs =
     (case deque_call c xs of (r, xs) \<Rightarrow> case deque_calls cs xs of (rs, xs) \<Rightarrow> (r # rs, xs))"

lemma cl_call_deque:
  assumes "cl_ok s"
  shows "cl_ok (snd (cl_call blank c s)) \<and>
    (fst (cl_call blank c s), items (snd (cl_call blank c s))) = deque_call c (items s)"
proof (cases c)
  case (Insert v)
  then show ?thesis using cl.insert [OF assms, of blank v] by simp
next
  case Take
  then show ?thesis using cl.take [OF assms, of "fst (cl_take s)" "snd (cl_take s)"] by (simp split: if_splits)
next
  case Steal
  then show ?thesis using cl.steal [OF assms, of "fst (cl_steal s)" "snd (cl_steal s)"] by (simp split: if_splits)
qed

lemma cl_calls_deque:
  "cl_ok s \<Longrightarrow> cl_ok (snd (cl_calls blank cs s)) \<and>
     (fst (cl_calls blank cs s), items (snd (cl_calls blank cs s))) = deque_calls cs (items s)"
proof (induction cs arbitrary: s)
  case (Cons c cs)
  obtain r s1 where c: "cl_call blank c s = (r, s1)" by fastforce
  obtain rs s2 where cs: "cl_calls blank cs s1 = (rs, s2)" by fastforce
  from cl_call_deque [OF Cons.prems, of blank c] c
  have s1: "cl_ok s1" "deque_call c (items s) = (r, items s1)" by simp_all
  with Cons.IH [OF s1(1)] cs have "cl_ok s2" "deque_calls cs (items s1) = (rs, items s2)" by simp_all
  with s1 c cs show ?case by simp
qed simp

lemma cl_make_ok [simp]: "cl_ok (cl_make blank)" "items (cl_make blank) = []"
  by (simp_all add: cl_make_def cl_ok_upto_def active_def data_ok_def k_init_cap_def items_def items_upto_def)

subsection \<open>The atomic accesses\<close>

text \<open>
  Where the owner stands in a call, with the local variables of the call: \<open>Take\<close> after the
  store of \<open>bottom\<close>, and on its three ways out; \<open>Insert\<close> after its two loads, inside \<open>Resize\<close>
  after the load of \<open>top\<close>, before the store of the element and before the store of \<open>bottom\<close>.
\<close>

datatype 'a owner_pc =
    Resting
  | TakeStored int
  | TakeLast int 'a
  | TakeReturns int
  | InsertLoaded int int 'a
  | Resizing int int 'a
  | InsertReady int 'a
  | InsertStored int 'a

text \<open>A thief in \<open>Steal\<close>: after the load of \<open>top\<close>, of \<open>bottom\<close>, of \<open>data_\<close>, of the element.\<close>

datatype 'a thief_pc =
    Idle
  | LoadedTop int
  | SawElements int
  | LoadedData int nat
  | LoadedValue int 'a

text \<open>\<open>given\<close> and \<open>got\<close> record the elements inserted and the elements returned.\<close>

record 'a cl_run =
  queue :: "'a chase_lev"
  owner :: "'a owner_pc"
  thieves :: "'a thief_pc list"
  given :: "'a multiset"
  got :: "'a multiset"

fun owner_steps :: "'a \<Rightarrow> 'a cl_run \<Rightarrow> 'a cl_run" where
  "owner_steps blank r =
     (let q = queue r in
      case owner r of
        Resting \<Rightarrow> r
      | TakeStored b \<Rightarrow>
          (let t = top q in
           if t \<le> b then
             (let val = slot (active q) b
              in if t = b then r\<lparr>owner := TakeLast b val\<rparr>
                 else r\<lparr>owner := Resting, got := add_mset val (got r)\<rparr>)
           else r\<lparr>owner := TakeReturns b\<rparr>)
      | TakeLast b val \<Rightarrow>
          if top q = b then r\<lparr>queue := q\<lparr>top := b + 1\<rparr>, owner := TakeReturns b, got := add_mset val (got r)\<rparr>
          else r\<lparr>owner := TakeReturns b\<rparr>
      | TakeReturns b \<Rightarrow> r\<lparr>queue := q\<lparr>bottom := b + 1\<rparr>, owner := Resting\<rparr>
      | InsertLoaded b t val \<Rightarrow>
          if is_full b t q then r\<lparr>owner := Resizing b (top q) val\<rparr> else r\<lparr>owner := InsertReady b val\<rparr>
      | Resizing b t val \<Rightarrow> r\<lparr>queue := resized blank t q, owner := InsertReady b val\<rparr>
      | InsertReady b val \<Rightarrow> r\<lparr>queue := store_slot b val q, owner := InsertStored b val\<rparr>
      | InsertStored b val \<Rightarrow>
          r\<lparr>queue := q\<lparr>bottom := b + 1\<rparr>, owner := Resting, given := add_mset val (given r)\<rparr>)"

definition begin_take :: "'a cl_run \<Rightarrow> 'a cl_run" where
  "begin_take r =
     (let b = bottom (queue r) - 1 in r\<lparr>queue := (queue r)\<lparr>bottom := b\<rparr>, owner := TakeStored b\<rparr>)"

definition begin_insert :: "'a \<Rightarrow> 'a cl_run \<Rightarrow> 'a cl_run" where
  "begin_insert v r = r\<lparr>owner := InsertLoaded (bottom (queue r)) (top (queue r)) v\<rparr>"

fun thief_steps :: "nat \<Rightarrow> 'a cl_run \<Rightarrow> 'a cl_run" where
  "thief_steps i r =
     (let q = queue r; goes = (\<lambda>pc. r\<lparr>thieves := (thieves r)[i := pc]\<rparr>) in
      case thieves r ! i of
        Idle \<Rightarrow> goes (LoadedTop (top q))
      | LoadedTop t \<Rightarrow> if t < bottom q then goes (SawElements t) else goes Idle
      | SawElements t \<Rightarrow> goes (LoadedData t (data q))
      | LoadedData t a \<Rightarrow> goes (LoadedValue t (slot (buffers q ! a) t))
      | LoadedValue t val \<Rightarrow>
          if top q = t then (goes Idle)\<lparr>queue := q\<lparr>top := t + 1\<rparr>, got := add_mset val (got r)\<rparr>
          else goes Idle)"

declare owner_steps.simps [simp del] thief_steps.simps [simp del]

lemma owner_steps_at [simp]:
  "owner r = Resting \<Longrightarrow> owner_steps blank r = r"
  "owner r = TakeStored b \<Longrightarrow> top (queue r) < b \<Longrightarrow> owner_steps blank r =
     r\<lparr>owner := Resting, got := add_mset (slot (active (queue r)) b) (got r)\<rparr>"
  "owner r = TakeStored b \<Longrightarrow> top (queue r) = b \<Longrightarrow> owner_steps blank r =
     r\<lparr>owner := TakeLast b (slot (active (queue r)) b)\<rparr>"
  "owner r = TakeStored b \<Longrightarrow> b < top (queue r) \<Longrightarrow> owner_steps blank r = r\<lparr>owner := TakeReturns b\<rparr>"
  "owner r = TakeLast b val \<Longrightarrow> top (queue r) = b \<Longrightarrow> owner_steps blank r =
     r\<lparr>queue := (queue r)\<lparr>top := b + 1\<rparr>, owner := TakeReturns b, got := add_mset val (got r)\<rparr>"
  "owner r = TakeLast b val \<Longrightarrow> top (queue r) \<noteq> b \<Longrightarrow> owner_steps blank r = r\<lparr>owner := TakeReturns b\<rparr>"
  "owner r = TakeReturns b \<Longrightarrow> owner_steps blank r = r\<lparr>queue := (queue r)\<lparr>bottom := b + 1\<rparr>, owner := Resting\<rparr>"
  "owner r = InsertLoaded b t val \<Longrightarrow> is_full b t (queue r) \<Longrightarrow> owner_steps blank r =
     r\<lparr>owner := Resizing b (top (queue r)) val\<rparr>"
  "owner r = InsertLoaded b t val \<Longrightarrow> \<not> is_full b t (queue r) \<Longrightarrow> owner_steps blank r =
     r\<lparr>owner := InsertReady b val\<rparr>"
  "owner r = Resizing b t val \<Longrightarrow> owner_steps blank r =
     r\<lparr>queue := resized blank t (queue r), owner := InsertReady b val\<rparr>"
  "owner r = InsertReady b val \<Longrightarrow> owner_steps blank r =
     r\<lparr>queue := store_slot b val (queue r), owner := InsertStored b val\<rparr>"
  "owner r = InsertStored b val \<Longrightarrow> owner_steps blank r =
     r\<lparr>queue := (queue r)\<lparr>bottom := b + 1\<rparr>, owner := Resting, given := add_mset val (given r)\<rparr>"
  by (simp_all add: owner_steps.simps Let_def)

text \<open>A step of anyone; what the owner begins and who goes next is free.\<close>

inductive cl_step :: "'a \<Rightarrow> 'a cl_run \<Rightarrow> 'a cl_run \<Rightarrow> bool" for blank where
  owner_takes: "owner r = Resting \<Longrightarrow> cl_step blank r (begin_take r)"
| owner_inserts: "owner r = Resting \<Longrightarrow> cl_step blank r (begin_insert v r)"
| owner_goes_on: "owner r \<noteq> Resting \<Longrightarrow> cl_step blank r (owner_steps blank r)"
| thief_goes_on: "i < length (thieves r) \<Longrightarrow> cl_step blank r (thief_steps i r)"

definition cl_start :: "'a \<Rightarrow> nat \<Rightarrow> 'a cl_run" where
  "cl_start blank n =
     \<lparr>queue = cl_make blank, owner = Resting, thieves = replicate n Idle, given = {#}, got = {#}\<rparr>"

subsection \<open>The invariant of the interleaving\<close>

text \<open>The end of the live elements, as the owner's call stands.\<close>

fun live_end :: "'a owner_pc \<Rightarrow> int \<Rightarrow> int" where
  "live_end (TakeStored b) _ = b + 1"
| "live_end (TakeLast b _) _ = b + 1"
| "live_end (TakeReturns b) _ = b + 1"
| "live_end _ bottom_now = bottom_now"

definition the_end :: "'a cl_run \<Rightarrow> int" where
  "the_end r = live_end (owner r) (bottom (queue r))"

fun owner_ok :: "'a chase_lev \<Rightarrow> 'a owner_pc \<Rightarrow> bool" where
  "owner_ok q Resting \<longleftrightarrow> True"
| "owner_ok q (TakeStored b) \<longleftrightarrow> bottom q = b"
| "owner_ok q (TakeLast b v) \<longleftrightarrow> bottom q = b \<and> b \<le> top q \<and> slot (active q) b = v"
| "owner_ok q (TakeReturns b) \<longleftrightarrow> bottom q = b \<and> top q = b + 1"
| "owner_ok q (InsertLoaded b t v) \<longleftrightarrow> bottom q = b \<and> 0 \<le> t \<and> t \<le> top q"
| "owner_ok q (Resizing b t v) \<longleftrightarrow> bottom q = b \<and> 0 \<le> t \<and> t \<le> top q \<and> b - t \<le> int (len (active q))"
| "owner_ok q (InsertReady b v) \<longleftrightarrow> bottom q = b \<and> b - top q < int (len (active q))"
| "owner_ok q (InsertStored b v) \<longleftrightarrow> bottom q = b \<and> b - top q < int (len (active q)) \<and> slot (active q) b = v"

text \<open>
  What a thief knows holds as long as nobody has moved \<open>top\<close>, which is what its
  compare-exchange tests.
\<close>

fun thief_ok :: "int \<Rightarrow> 'a chase_lev \<Rightarrow> 'a thief_pc \<Rightarrow> bool" where
  "thief_ok hi q Idle \<longleftrightarrow> True"
| "thief_ok hi q (LoadedTop t) \<longleftrightarrow> t \<le> top q"
| "thief_ok hi q (SawElements t) \<longleftrightarrow> t \<le> top q \<and> (top q = t \<longrightarrow> t < hi)"
| "thief_ok hi q (LoadedData t a) \<longleftrightarrow> t \<le> top q \<and> a < length (buffers q) \<and>
     (top q = t \<longrightarrow> t < hi \<and> slot (buffers q ! a) t = slot (active q) t)"
| "thief_ok hi q (LoadedValue t v) \<longleftrightarrow> t \<le> top q \<and> (top q = t \<longrightarrow> t < hi \<and> v = slot (active q) t)"

definition cl_inv :: "'a cl_run \<Rightarrow> bool" where
  "cl_inv r \<longleftrightarrow> cl_ok_upto (the_end r) (queue r) \<and> owner_ok (queue r) (owner r) \<and>
     list_all (thief_ok (the_end r) (queue r)) (thieves r) \<and>
     given r = got r + mset (items_upto (the_end r) (queue r))"

text \<open>
  A thief's knowledge survives a change that moves neither the live elements nor the old
  buffers, and any advance of \<open>top\<close>.
\<close>

lemma thief_ok_cong:
  assumes "thief_ok hi q pc" and "top q' = top q" and "top q < hi \<longrightarrow> top q < hi'"
    and "length (buffers q) \<le> length (buffers q')"
    and "\<And>a. a < length (buffers q) \<Longrightarrow> top q < hi \<Longrightarrow> slot (buffers q ! a) (top q) = slot (active q) (top q) \<Longrightarrow>
      slot (buffers q' ! a) (top q) = slot (active q') (top q)"
    and "top q < hi \<Longrightarrow> slot (active q') (top q) = slot (active q) (top q)"
  shows "thief_ok hi' q' pc"
  using assms by (cases pc) auto

lemma thieves_ok_change:
  assumes "list_all (thief_ok hi q) pcs" and "top q' = top q"
    and "length (buffers q) \<le> length (buffers q')"
    and "\<And>a. a < length (buffers q) \<Longrightarrow> top q < hi \<Longrightarrow> slot (buffers q ! a) (top q) = slot (active q) (top q) \<Longrightarrow>
      slot (buffers q' ! a) (top q) = slot (active q') (top q)"
    and "top q < hi \<Longrightarrow> slot (active q') (top q) = slot (active q) (top q)"
  shows "list_all (thief_ok hi q') pcs"
  using assms(1)
proof (rule list.pred_mono_strong)
  fix pc assume "thief_ok hi q pc"
  then show "thief_ok hi q' pc" by (rule thief_ok_cong [OF _ assms(2) impI assms(3-5)])
qed

lemma thieves_ok_cong:
  assumes "list_all (thief_ok hi q) pcs" and "top q' = top q" and "top q < hi \<longrightarrow> top q < hi'"
    and "buffers q' = buffers q" and "data q' = data q"
  shows "list_all (thief_ok hi' q') pcs"
  using assms(1)
  by (rule list.pred_mono_strong) (rule thief_ok_cong, use assms in \<open>auto simp: active_def\<close>)

lemma thieves_ok_top:
  assumes "list_all (thief_ok hi q) pcs" and "t = top q + 1"
  shows "list_all (thief_ok hi' (q\<lparr>top := t\<rparr>)) pcs"
  using assms(1)
proof (rule list.pred_mono_strong)
  fix pc assume "thief_ok hi q pc"
  with assms(2) show "thief_ok hi' (q\<lparr>top := t\<rparr>) pc" by (cases pc) auto
qed

lemma cl_inv_start: "cl_inv (cl_start blank n)"
  using cl_make_ok [of blank]
  by (simp add: cl_inv_def cl_start_def the_end_def items_def list_all_length)

lemma cl_inv_begin:
  assumes "cl_inv r" and "owner r = Resting"
  shows "cl_inv (begin_take r)" and "cl_inv (begin_insert v r)"
proof -
  let ?q = "queue r"
  have inv: "cl_ok_upto (bottom ?q) ?q" "list_all (thief_ok (bottom ?q) ?q) (thieves r)"
    "given r = got r + mset (items_upto (bottom ?q) ?q)"
    using assms by (simp_all add: cl_inv_def the_end_def)
  from inv thieves_ok_cong [OF inv(2), of "?q\<lparr>bottom := bottom ?q - 1\<rparr>" "bottom ?q"]
  show "cl_inv (begin_take r)" by (simp add: cl_inv_def the_end_def begin_take_def Let_def)
  from inv show "cl_inv (begin_insert v r)"
    by (auto simp: cl_inv_def the_end_def begin_insert_def cl_ok_upto_def)
qed

lemma cl_inv_take:
  assumes "cl_inv r" and "owner r = TakeStored b \<or> owner r = TakeLast b v \<or> owner r = TakeReturns b"
  shows "cl_inv (owner_steps blank r)"
proof -
  let ?q = "queue r"
  have inv: "cl_ok_upto (b + 1) ?q" "list_all (thief_ok (b + 1) ?q) (thieves r)"
    "given r = got r + mset (items_upto (b + 1) ?q)" "owner_ok ?q (owner r)"
    using assms by (auto simp: cl_inv_def the_end_def)
  consider "owner r = TakeStored b" "top ?q < b" | "owner r = TakeStored b" "top ?q = b"
    | "owner r = TakeStored b" "b < top ?q" | "owner r = TakeLast b v" "top ?q = b"
    | "owner r = TakeLast b v" "top ?q \<noteq> b" | "owner r = TakeReturns b"
    using assms(2) by fastforce
  then show ?thesis
  proof cases
    case 1
    with inv items_upto_snoc [of ?q b] thieves_ok_cong [OF inv(2), of ?q b]
    show ?thesis by (auto simp: cl_inv_def the_end_def cl_ok_upto_def)
  next
    case 4
    with inv items_upto_snoc [of ?q b] thieves_ok_top [OF inv(2), of "b + 1"]
    show ?thesis by (auto simp: cl_inv_def the_end_def cl_ok_upto_def items_upto_Nil)
  next
    case 6
    with inv thieves_ok_cong [OF inv(2), of "?q\<lparr>bottom := b + 1\<rparr>" "b + 1"]
    show ?thesis by (auto simp: cl_inv_def the_end_def)
  qed (use inv in \<open>auto simp: cl_inv_def the_end_def cl_ok_upto_def Let_def\<close>)
qed

lemma cl_inv_resizing:
  assumes "cl_inv r" and "owner r = Resizing b t v"
  shows "cl_inv (owner_steps blank r)"
proof -
  let ?q = "queue r"
  let ?n = "resized blank t ?q"
  have inv: "cl_ok_upto b ?q" "list_all (thief_ok b ?q) (thieves r)"
    "given r = got r + mset (items_upto b ?q)" "bottom ?q = b" "0 \<le> t" "t \<le> top ?q"
    "b - t \<le> int (len (active ?q))"
    using assms by (auto simp: cl_inv_def the_end_def)
  have n: "data_ok (active ?n)" "len (active ?n) = 2 * len (active ?q)"
    "\<And>j. t \<le> j \<Longrightarrow> j < b \<Longrightarrow> slot (active ?n) j = slot (active ?q) j"
    using resized_active [OF inv(1,5), of blank] inv(4,7) by auto
  have "items_upto b ?n = items_upto b ?q"
    using n(3) inv(6) by (intro items_upto_cong) auto
  moreover have "list_all (thief_ok b ?n) (thieves r)"
    by (rule thieves_ok_change [OF inv(2)]) (use inv(6) n(3) in simp_all)
  moreover have "cl_ok_upto b ?n" "b - top ?q < int (len (active ?n))"
    using inv n by (auto simp: cl_ok_upto_def data_ok_def)
  ultimately show ?thesis using assms(2) inv by (simp add: cl_inv_def the_end_def)
qed

lemma cl_inv_store:
  assumes "cl_inv r" and "owner r = InsertReady b v"
  shows "cl_inv (owner_steps blank r)"
proof -
  let ?q = "queue r"
  let ?n = "store_slot b v ?q"
  have inv: "cl_ok_upto b ?q" "list_all (thief_ok b ?q) (thieves r)"
    "given r = got r + mset (items_upto b ?q)" "bottom ?q = b" "b - top ?q < int (len (active ?q))"
    using assms by (auto simp: cl_inv_def the_end_def)
  have ok: "data ?q < length (buffers ?q)" "data_ok (active ?q)" "0 \<le> top ?q" "top ?q \<le> b"
    "0 < len (active ?q)"
    using inv(1) by (auto simp: cl_ok_upto_def data_ok_def)
  have same: "slot (set_slot (active ?q) b v) j = slot (active ?q) j" if "top ?q \<le> j" "j < b" for j
    using that ok inv(5) by (intro slot_set_slot_other) auto
  have "items_upto b ?n = items_upto b ?q" using same ok by (intro items_upto_cong) auto
  moreover have "list_all (thief_ok b ?n) (thieves r)"
  proof (rule thieves_ok_change [OF inv(2)])
    fix a assume "a < length (buffers ?q)" "top ?q < b"
      and "slot (buffers ?q ! a) (top ?q) = slot (active ?q) (top ?q)"
    then show "slot (buffers ?n ! a) (top ?q) = slot (active ?n) (top ?q)"
      using same ok by (cases "a = data ?q") (simp_all add: store_slot_def active_def)
  qed (use same ok in auto)
  moreover have "slot (active ?n) b = v" using ok slot_set_slot [of "active ?q" b b v] by simp
  ultimately show ?thesis using assms(2) inv ok by (simp add: cl_inv_def the_end_def cl_ok_upto_def)
qed

lemma cl_inv_insert:
  assumes "cl_inv r" and "owner r = InsertLoaded b t v \<or> owner r = InsertStored b v"
  shows "cl_inv (owner_steps blank r)"
proof -
  let ?q = "queue r"
  have inv: "cl_ok_upto b ?q" "list_all (thief_ok b ?q) (thieves r)"
    "given r = got r + mset (items_upto b ?q)" "bottom ?q = b" "owner_ok ?q (owner r)"
    using assms by (auto simp: cl_inv_def the_end_def)
  from assms(2) show ?thesis
  proof
    assume "owner r = InsertLoaded b t v"
    with inv show ?thesis by (cases "is_full b t ?q") (auto simp: cl_inv_def the_end_def is_full_def cl_ok_upto_def)
  next
    assume "owner r = InsertStored b v"
    with inv items_upto_snoc [of ?q b] thieves_ok_cong [OF inv(2), of "?q\<lparr>bottom := b + 1\<rparr>" "b + 1"]
    show ?thesis by (auto simp: cl_inv_def the_end_def cl_ok_upto_def)
  qed
qed

lemma cl_inv_owner:
  assumes "cl_inv r"
  shows "cl_inv (owner_steps blank r)"
proof (cases "owner r")
  case Resting
  with assms show ?thesis by simp
qed (erule cl_inv_take [OF assms disjI1] cl_inv_take [OF assms disjI2 [OF disjI1]]
    cl_inv_take [OF assms disjI2 [OF disjI2]] cl_inv_insert [OF assms disjI1]
    cl_inv_insert [OF assms disjI2] cl_inv_resizing [OF assms] cl_inv_store [OF assms])+

lemma the_end_bottom:
  assumes "owner_ok (queue r) (owner r)"
  shows "bottom (queue r) \<le> the_end r"
  using assms by (cases "owner r") (simp_all add: the_end_def)

lemma cl_inv_moves:
  assumes "cl_inv r" and "thief_ok (the_end r) (queue r) pc"
  shows "cl_inv (r\<lparr>thieves := (thieves r)[i := pc]\<rparr>)"
proof -
  have "list_all (thief_ok (the_end r) (queue r)) ((thieves r)[i := pc])"
    using assms set_update_subset_insert [of "thieves r" i pc]
    by (auto simp: cl_inv_def list_all_iff)
  then show ?thesis using assms(1) by (simp add: cl_inv_def the_end_def)
qed

lemma owner_ok_top:
  "owner_ok q pc \<Longrightarrow> top q < live_end pc (bottom q) \<Longrightarrow> owner_ok (q\<lparr>top := top q + 1\<rparr>) pc"
  by (cases pc) (auto simp: active_def)

lemma cl_inv_thief:
  assumes "cl_inv r" and "i < length (thieves r)"
  shows "cl_inv (thief_steps i r)"
proof -
  let ?q = "queue r"
  have t: "thief_ok (the_end r) ?q (thieves r ! i)"
    using assms by (simp add: cl_inv_def list_all_length)
  have o: "owner_ok ?q (owner r)" "cl_ok_upto (the_end r) ?q" using assms(1) by (simp_all add: cl_inv_def)
  have e: "bottom ?q \<le> the_end r" by (rule the_end_bottom [OF o(1)])
  show ?thesis
  proof (cases "\<exists>t v. thieves r ! i = LoadedValue t v \<and> top ?q = t")
    case False
    show ?thesis
      using False t e o(2)
      by (cases "thieves r ! i")
        (auto simp: thief_steps.simps Let_def cl_ok_upto_def active_def intro!: cl_inv_moves [OF assms(1)])
  next
    case True
    then obtain v where v: "thieves r ! i = LoadedValue (top ?q) v" by blast
    with t have lt: "top ?q < the_end r" and val: "v = slot (active ?q) (top ?q)" by auto
    have "list_all (thief_ok (the_end r) ?q) ((thieves r)[i := Idle])"
      using cl_inv_moves [OF assms(1), of Idle i] by (simp add: cl_inv_def the_end_def)
    from thieves_ok_top [OF this refl, of "the_end r"] v val lt o
      owner_ok_top [OF o(1)] items_upto_Cons [OF lt] assms(1)
    show ?thesis by (auto simp: thief_steps.simps Let_def cl_inv_def the_end_def cl_ok_upto_def)
  qed
qed

lemma cl_inv_step: "cl_step blank r r' \<Longrightarrow> cl_inv r \<Longrightarrow> cl_inv r'"
  by (induction rule: cl_step.induct) (simp_all only: cl_inv_begin cl_inv_owner cl_inv_thief)

lemma cl_inv_steps: "(cl_step blank)\<^sup>*\<^sup>* r r' \<Longrightarrow> cl_inv r \<Longrightarrow> cl_inv r'"
  by (induction rule: rtranclp_induct) (simp_all add: cl_inv_step)

lemma cl_steps_two: "cl_step blank a b \<Longrightarrow> cl_step blank b c \<Longrightarrow> (cl_step blank)\<^sup>*\<^sup>* a c"
  by (rule converse_rtranclp_into_rtranclp [OF _ r_into_rtranclp])

lemma cl_steps_snoc: "(cl_step blank)\<^sup>*\<^sup>* a b \<Longrightarrow> cl_step blank b c \<Longrightarrow> (cl_step blank)\<^sup>*\<^sup>* a c"
  by (rule rtranclp.rtrancl_into_rtrancl)

lemma cl_steps_owner: "(cl_step blank)\<^sup>*\<^sup>* a r \<Longrightarrow> (cl_step blank)\<^sup>*\<^sup>* a (owner_steps blank r)"
  by (cases "owner r = Resting") (auto intro: cl_steps_snoc owner_goes_on)

lemma thieves_unchanged [simp]:
  "length (thieves (owner_steps blank r)) = length (thieves r)"
  "length (thieves (thief_steps i r)) = length (thieves r)"
  "length (thieves (begin_take r)) = length (thieves r)"
  "length (thieves (begin_insert v r)) = length (thieves r)"
  by (auto simp: owner_steps.simps thief_steps.simps Let_def begin_take_def begin_insert_def
      split: thief_pc.splits owner_pc.splits)

subsection \<open>The accesses of one call, alone\<close>

text \<open>
  The owner running one call to its end while the thieves stand still does what the function
  of the same name does; likewise a thief on its own.
\<close>

lemma owner_take_alone:
  assumes "owner r = Resting" and "cl_ok (queue r)" and "cl_take (queue r) = (res, q')"
  shows "\<exists>r'. (cl_step blank)\<^sup>*\<^sup>* r r' \<and> owner r' = Resting \<and> queue r' = q' \<and>
    got r' = got r + mset (case res of None \<Rightarrow> [] | Some v \<Rightarrow> [v])"
proof -
  let ?r1 = "begin_take r" and ?s = "owner_steps blank"
  have s1: "cl_step blank r ?r1" using assms(1) by (rule owner_takes)
  have go: "cl_step blank x (?s x)" if "owner x \<noteq> Resting" for x using that by (rule owner_goes_on)
  have o1: "owner ?r1 \<noteq> Resting" by (simp add: begin_take_def Let_def)
  note p1 = cl_steps_two [OF s1 go [OF o1]]
  let ?b = "bottom (queue r) - 1"
  consider "top (queue r) < ?b" | "top (queue r) = ?b" | "?b < top (queue r)" by linarith
  then show ?thesis
  proof cases
    case 1
    with p1 assms show ?thesis
      by (intro exI [of _ "?s ?r1"]) (auto simp: begin_take_def cl_take_def Let_def)
  next
    case 2
    then have o2: "owner (?s ?r1) \<noteq> Resting" "owner (?s (?s ?r1)) \<noteq> Resting"
      by (simp_all add: begin_take_def Let_def)
    from cl_steps_snoc [OF cl_steps_snoc [OF p1 go [OF o2(1)]] go [OF o2(2)]]
    show ?thesis using 2 assms
      by (intro exI [of _ "?s (?s (?s ?r1))"]) (auto simp: begin_take_def cl_take_def Let_def)
  next
    case 3
    then have o2: "owner (?s ?r1) \<noteq> Resting" by (simp add: begin_take_def Let_def)
    from cl_steps_snoc [OF p1 go [OF o2]] show ?thesis using 3 assms
      by (intro exI [of _ "?s (?s ?r1)"]) (auto simp: begin_take_def cl_take_def Let_def)
  qed
qed

lemma owner_insert_alone:
  assumes "owner r = Resting"
  shows "\<exists>r'. (cl_step blank)\<^sup>*\<^sup>* r r' \<and> owner r' = Resting \<and> queue r' = cl_insert blank v (queue r) \<and>
    given r' = add_mset v (given r)"
proof -
  let ?r1 = "begin_insert v r" and ?s = "owner_steps blank"
  have s1: "cl_step blank r ?r1" using assms by (rule owner_inserts)
  have go: "cl_step blank x (?s x)" if "owner x \<noteq> Resting" for x using that by (rule owner_goes_on)
  have o1: "owner ?r1 \<noteq> Resting" by (simp add: begin_insert_def)
  note p1 = cl_steps_two [OF s1 go [OF o1]]
  let ?full = "is_full (bottom (queue r)) (top (queue r)) (queue r)"
  have o2: "owner (?s ?r1) \<noteq> Resting" "owner (?s (?s ?r1)) \<noteq> Resting"
    by (cases ?full; simp add: begin_insert_def)+
  note p2 = cl_steps_snoc [OF cl_steps_snoc [OF p1 go [OF o2(1)]] go [OF o2(2)]]
  show ?thesis
  proof (cases ?full)
    case False
    with p2 show ?thesis
      by (intro exI [of _ "?s (?s (?s ?r1))"]) (auto simp: begin_insert_def cl_insert_def Let_def)
  next
    case True
    then have "owner (?s (?s (?s ?r1))) \<noteq> Resting" by (simp add: begin_insert_def)
    from cl_steps_snoc [OF p2 go [OF this]] True show ?thesis
      by (intro exI [of _ "?s (?s (?s (?s ?r1)))"])
        (auto simp: begin_insert_def cl_insert_def cl_resize_resized Let_def)
  qed
qed

subsection \<open>Properties\<close>

text \<open>
  C36: a new queue, given any series of calls one after the other, answers each like a list
  that is pushed and popped at one end and popped at the other, whatever the number of
  elements and of times the buffer has to grow.
\<close>

theorem queue_is_a_deque:
  "(fst (cl_calls blank cs (cl_make blank)), items (snd (cl_calls blank cs (cl_make blank)))) = deque_calls cs []"
  using cl_calls_deque [OF cl_make_ok(1), of blank cs blank] by simp

text \<open>
  C14: the owner and any number of thieves, interleaved access by access in any way: at
  every moment the elements inserted are exactly those returned, each once, and those still
  between \<open>top\<close> and the end; when the owner is between calls these are the contents of the
  queue.
\<close>

theorem nothing_lost_or_taken_twice:
  assumes "(cl_step blank)\<^sup>*\<^sup>* (cl_start blank n) r"
  shows "given r = got r + mset (items_upto (the_end r) (queue r)) \<and>
    (owner r = Resting \<longrightarrow> cl_ok (queue r) \<and> given r = got r + mset (items (queue r)))"
proof -
  from cl_inv_steps [OF assms cl_inv_start] have "cl_inv r" .
  then show ?thesis by (auto simp: cl_inv_def the_end_def items_def)
qed

text \<open>
  A thief loads \<open>top\<close>, sees the only element, and loads it; then the owner takes the element,
  and the thief's compare-exchange fails.
\<close>

definition race :: "nat cl_run" where
  "race = (let s = owner_steps 0; r = s (s (s (begin_insert 7 (cl_start 0 1))));
               r = thief_steps 0 (thief_steps 0 (thief_steps 0 (thief_steps 0 r)));
               r = s (s (s (begin_take r)))
           in thief_steps 0 r)"

lemma cl_make_not_full: "\<not> is_full (bottom (cl_make v)) (top (cl_make v)) (cl_make v)"
  by (simp add: is_full_def cl_make_def active_def k_init_cap_def)

lemma race_reachable: "(cl_step 0)\<^sup>*\<^sup>* (cl_start 0 1) race"
proof -
  let ?s = "owner_steps (0::nat)" and ?t = "thief_steps 0"
  let ?r = "?s (?s (?s (begin_insert 7 (cl_start 0 1))))"
  have thief: "(cl_step 0)\<^sup>*\<^sup>* a r \<Longrightarrow> length (thieves r) = 1 \<Longrightarrow> (cl_step 0)\<^sup>*\<^sup>* a (?t r)" for a r :: "nat cl_run"
    by (rule cl_steps_snoc [OF _ thief_goes_on]) simp_all
  have o: "owner (?t r) = owner r" for r :: "nat cl_run" by (simp add: thief_steps.simps Let_def split: thief_pc.splits)
  have n: "length (thieves (cl_start (0::nat) 1)) = 1" by (simp add: cl_start_def)
  have "(cl_step 0)\<^sup>*\<^sup>* (cl_start 0 1) (begin_insert (7::nat) (cl_start 0 1))"
    by (rule r_into_rtranclp, rule owner_inserts) (simp add: cl_start_def)
  then have "(cl_step 0)\<^sup>*\<^sup>* (cl_start 0 1) (?t (?t (?t (?t ?r))))"
    by (intro thief cl_steps_owner) (simp_all only: thieves_unchanged n)
  moreover have "owner ?r = Resting"
    using cl_make_not_full [of "0::nat"] by (simp add: begin_insert_def cl_start_def Let_def)
  ultimately have "(cl_step 0)\<^sup>*\<^sup>* (cl_start 0 1) (begin_take (?t (?t (?t (?t ?r)))))"
    by (elim cl_steps_snoc) (rule owner_takes, simp only: o)
  then show ?thesis
    unfolding race_def Let_def
    by (intro thief cl_steps_owner) (simp_all only: thieves_unchanged n)
qed

theorem nothing_lost_or_taken_twice_witness:
  "given race = got race + mset (items_upto (the_end race) (queue race))"
  by (rule conjunct1 [OF nothing_lost_or_taken_twice [OF race_reachable]])

text \<open>
  Each call of the owner that is not interfered with, cut into its accesses, has the
  effect and the result of the function that models the whole call.
\<close>

theorem accesses_implement_the_calls:
  assumes "owner r = Resting" and "cl_ok (queue r)"
  shows "(\<exists>r'. (cl_step blank)\<^sup>*\<^sup>* r r' \<and> owner r' = Resting \<and> queue r' = snd (cl_take (queue r)) \<and>
      got r' = got r + mset (case fst (cl_take (queue r)) of None \<Rightarrow> [] | Some v \<Rightarrow> [v])) \<and>
    (\<exists>r'. (cl_step blank)\<^sup>*\<^sup>* r r' \<and> owner r' = Resting \<and> queue r' = cl_insert blank v (queue r) \<and>
      given r' = add_mset v (given r))"
  using owner_take_alone [OF assms, of "fst (cl_take (queue r))" "snd (cl_take (queue r))" blank]
    owner_insert_alone [OF assms(1), of blank v] by simp

theorem accesses_implement_the_calls_witness:
  "(\<exists>r'. (cl_step 0)\<^sup>*\<^sup>* (cl_start 0 2) r' \<and> owner r' = Resting \<and> queue r' = snd (cl_take (queue (cl_start (0::nat) 2))) \<and>
      got r' = got (cl_start 0 2) + mset (case fst (cl_take (queue (cl_start 0 2))) of None \<Rightarrow> [] | Some v \<Rightarrow> [v])) \<and>
    (\<exists>r'. (cl_step 0)\<^sup>*\<^sup>* (cl_start 0 2) r' \<and> owner r' = Resting \<and> queue r' = cl_insert 0 5 (queue (cl_start 0 2)) \<and>
      given r' = add_mset 5 (given (cl_start (0::nat) 2)))"
  by (rule accesses_implement_the_calls) (simp_all add: cl_start_def)

end
