(* ===== verification/Scheduler.thy ===== *)
theory Scheduler
  imports Chase_Lev
begin

section \<open>The task scheduler\<close>

text \<open>
  \<open>TaskScheduler\<close> of \<open>cutils/task_scheduler\<close>: the thread that submits and waits, and the
  worker threads, as one step relation. A step is one access to what the threads share: an
  atomic counter, or a whole call on one of the queues, which \<open>Chase_Lev\<close> shows to take
  effect at one point; a call that loses a race there returns nothing here. What a worker's
  \<open>Process\<close> does is left open: it may submit any tasks, one after the other, and return at
  any time. A blocked \<open>wait\<close> is left only through a notification, after which the value is
  loaded again; the \<open>wait\<close> of an atomic hides other wake-ups from its caller.
\<close>

subsection \<open>State\<close>

text \<open>
  Inside \<open>MaybeGrowThreads\<close>: before its first load, at the test that loads \<open>pending_tasks_\<close>, at
  the exchange, and with a slot claimed.
\<close>

datatype grow = GrowLoad | GrowTest nat | GrowClaim nat | GrowStart nat

text \<open>
  The submitting thread: outside, in \<open>Submit\<close> after the increment and after the insertion, in
  \<open>Wait\<close> before a load, with the value loaded, and blocked, and in \<open>StopAndJoinThreads\<close> before
  it sets \<open>stop_\<close> and at the join of each slot.
\<close>

datatype 't main_pc =
    Outside
  | Counted 't nat
  | Growing grow
  | WaitLoads
  | WaitLoaded nat
  | Asleep
  | WaitStops
  | Joining nat
  | Returned

text \<open>
  A worker thread: not started, at the test of \<open>stop_\<close>, in \<open>AcquireNextTask\<close> at its own
  queue, a victim's or the submitted ones of a priority, in \<open>Process\<close>, there in \<open>Submit\<close>
  after the increment and after the insertion, at the decrement, at the notification.
\<close>

datatype 't worker_pc =
    Unstarted
  | AtLoop
  | TakesOwn nat
  | StealsFrom nat nat
  | TakesSubmitted nat
  | Processing 't nat
  | SubCounted 't nat 't nat
  | SubGrowing 't nat grow
  | Processed 't nat
  | Notifying
  | Exited

record 't sched =
  sd_queues :: "'t chase_lev list list"
  sd_submitted :: "'t chase_lev list"
  sd_pending :: nat
  sd_stop :: bool
  sd_live :: nat
  sd_main :: "'t main_pc"
  sd_workers :: "'t worker_pc list"
  sd_given :: "'t multiset"
  sd_done :: "'t multiset"

definition sched_make :: "'t \<Rightarrow> nat \<Rightarrow> nat \<Rightarrow> 't sched" where
  "sched_make blank priorities worker_count =
     (let max_workers = max 1 worker_count in
      \<lparr>sd_queues = replicate max_workers (replicate priorities (cl_make blank)),
       sd_submitted = replicate priorities (cl_make blank),
       sd_pending = 0, sd_stop = False, sd_live = 0, sd_main = Outside,
       sd_workers = replicate max_workers Unstarted, sd_given = {#}, sd_done = {#}\<rparr>)"

definition max_workers :: "'t sched \<Rightarrow> nat" where
  "max_workers s = length (sd_workers s)"

definition priorities :: "'t sched \<Rightarrow> nat" where
  "priorities s = length (sd_submitted s)"

definition set_worker :: "nat \<Rightarrow> 't worker_pc \<Rightarrow> 't sched \<Rightarrow> 't sched" where
  "set_worker i pc s = s\<lparr>sd_workers := (sd_workers s)[i := pc]\<rparr>"

definition own_queue :: "nat \<Rightarrow> nat \<Rightarrow> 't sched \<Rightarrow> 't chase_lev" where
  "own_queue i p s = sd_queues s ! i ! p"

definition set_own_queue :: "nat \<Rightarrow> nat \<Rightarrow> 't chase_lev \<Rightarrow> 't sched \<Rightarrow> 't sched" where
  "set_own_queue i p q s = s\<lparr>sd_queues := (sd_queues s)[i := (sd_queues s ! i)[p := q]]\<rparr>"

definition set_submitted :: "nat \<Rightarrow> 't chase_lev \<Rightarrow> 't sched \<Rightarrow> 't sched" where
  "set_submitted p q s = s\<lparr>sd_submitted := (sd_submitted s)[p := q]\<rparr>"

definition count_task :: "'t \<Rightarrow> 't sched \<Rightarrow> 't sched" where
  "count_task t s = s\<lparr>sd_pending := sd_pending s + 1, sd_given := add_mset t (sd_given s)\<rparr>"

subsection \<open>\<open>MaybeGrowThreads\<close>\<close>

text \<open>\<^const>\<open>None\<close> is the return. A weak exchange may fail for no reason.\<close>

inductive grow_step :: "grow \<Rightarrow> 't sched \<Rightarrow> grow option \<Rightarrow> 't sched \<Rightarrow> bool" where
  grow_loads: "grow_step GrowLoad s (Some (GrowTest (sd_live s))) s"
| grow_enough: "max_workers s \<le> index \<or> sd_pending s = 0 \<Longrightarrow> grow_step (GrowTest index) s None s"
| grow_tests: "index < max_workers s \<Longrightarrow> sd_pending s \<noteq> 0 \<Longrightarrow>
    grow_step (GrowTest index) s (Some (GrowClaim index)) s"
| grow_claims: "sd_live s = index \<Longrightarrow>
    grow_step (GrowClaim index) s (Some (GrowStart index)) (s\<lparr>sd_live := index + 1\<rparr>)"
| grow_again: "grow_step (GrowClaim index) s (Some (GrowTest (sd_live s))) s"
| grow_starts: "grow_step (GrowStart index) s None (set_worker index AtLoop s)"

inductive_cases grow_LoadE: "grow_step GrowLoad s g s'"
inductive_cases grow_TestE: "grow_step (GrowTest index) s g s'"
inductive_cases grow_ClaimE: "grow_step (GrowClaim index) s g s'"
inductive_cases grow_StartE: "grow_step (GrowStart index) s g s'"

subsection \<open>\<open>WorkerLoop\<close>\<close>

text \<open>
  The call on one queue with its result; \<open>lost\<close> when another thread got there first. The
  rest of \<open>NextTask\<close> and \<open>AcquireNextTask\<close> is the order in which the queues come up.
\<close>

definition take_or_lose :: "bool \<Rightarrow> 't chase_lev \<Rightarrow> 't option \<times> 't chase_lev" where
  "take_or_lose lost q = (if lost then (None, q) else cl_take q)"

definition steal_or_lose :: "bool \<Rightarrow> 't chase_lev \<Rightarrow> 't option \<times> 't chase_lev" where
  "steal_or_lose lost q = (if lost then (None, q) else cl_steal q)"

definition got_or :: "'t worker_pc \<Rightarrow> nat \<Rightarrow> 't option \<Rightarrow> 't worker_pc" where
  "got_or next p task = (case task of Some t \<Rightarrow> Processing t p | None \<Rightarrow> next)"

definition next_task :: "bool \<Rightarrow> nat \<Rightarrow> 't sched \<Rightarrow> 't sched" where
  "next_task lost i s =
     (case sd_workers s ! i of
        TakesOwn p \<Rightarrow>
          if p < priorities s then
            (case take_or_lose lost (own_queue i p s) of (task, q) \<Rightarrow>
               set_worker i (got_or (StealsFrom p 0) p task) (set_own_queue i p q s))
          else set_worker i AtLoop s
      | StealsFrom p v \<Rightarrow>
          if v < length (sd_queues s) then
            (if v = i then set_worker i (StealsFrom p (v + 1)) s
             else
               (case steal_or_lose lost (own_queue v p s) of (task, q) \<Rightarrow>
                  set_worker i (got_or (StealsFrom p (v + 1)) p task) (set_own_queue v p q s)))
          else set_worker i (TakesSubmitted p) s
      | TakesSubmitted p \<Rightarrow>
          (case steal_or_lose lost (sd_submitted s ! p) of (task, q) \<Rightarrow>
             set_worker i (got_or (TakesOwn (p + 1)) p task) (set_submitted p q s))
      | _ \<Rightarrow> s)"

definition worker_loop :: "nat \<Rightarrow> 't sched \<Rightarrow> 't sched" where
  "worker_loop i s =
     (case sd_workers s ! i of
        AtLoop \<Rightarrow> if sd_stop s then set_worker i Exited s else set_worker i (TakesOwn 0) s
      | Processing t p \<Rightarrow> set_worker i (Processed t p) s
      | Processed t p \<Rightarrow>
          (let old = sd_pending s;
               s = s\<lparr>sd_pending := old - 1, sd_done := add_mset t (sd_done s)\<rparr>
           in set_worker i (if old = 1 then Notifying else AtLoop) s)
      | Notifying \<Rightarrow>
          set_worker i AtLoop (s\<lparr>sd_main := (if sd_main s = Asleep then WaitLoads else sd_main s)\<rparr>)
      | _ \<Rightarrow> s)"

text \<open>\<open>Submit\<close> through the context of a worker.\<close>

definition ctx_submit :: "nat \<Rightarrow> 't \<Rightarrow> nat \<Rightarrow> 't sched \<Rightarrow> 't sched" where
  "ctx_submit i t' p' s =
     (case sd_workers s ! i of
        Processing t p \<Rightarrow> set_worker i (SubCounted t p t' p') (count_task t' s)
      | _ \<Rightarrow> s)"

definition ctx_insert :: "'t \<Rightarrow> nat \<Rightarrow> 't sched \<Rightarrow> 't sched" where
  "ctx_insert blank i s =
     (case sd_workers s ! i of
        SubCounted t p t' p' \<Rightarrow>
          set_worker i (SubGrowing t p GrowLoad)
            (set_own_queue i p' (cl_insert blank t' (own_queue i p' s)) s)
      | _ \<Rightarrow> s)"

subsection \<open>\<open>Submit\<close>, \<open>Wait\<close> and \<open>StopAndJoinThreads\<close>\<close>

definition submit :: "'t \<Rightarrow> nat \<Rightarrow> 't sched \<Rightarrow> bool \<times> 't sched" where
  "submit t p s = (if sd_stop s then (False, s) else (True, (count_task t s)\<lparr>sd_main := Counted t p\<rparr>))"

definition submit_insert :: "'t \<Rightarrow> 't sched \<Rightarrow> 't sched" where
  "submit_insert blank s =
     (case sd_main s of
        Counted t p \<Rightarrow>
          (set_submitted p (cl_insert blank t (sd_submitted s ! p)) s)\<lparr>sd_main := Growing GrowLoad\<rparr>
      | _ \<Rightarrow> s)"

definition wait_step :: "'t sched \<Rightarrow> 't sched" where
  "wait_step s =
     (case sd_main s of
        WaitLoads \<Rightarrow>
          if sd_pending s = 0 then s\<lparr>sd_main := WaitStops\<rparr>
          else s\<lparr>sd_main := WaitLoaded (sd_pending s)\<rparr>
      | WaitStops \<Rightarrow> s\<lparr>sd_stop := True, sd_main := Joining 0\<rparr>
      | WaitLoaded owed \<Rightarrow> s\<lparr>sd_main := (if sd_pending s = owed then Asleep else WaitLoads)\<rparr>
      | Joining j \<Rightarrow>
          if j < max_workers s then
            (if sd_workers s ! j = Unstarted \<or> sd_workers s ! j = Exited then s\<lparr>sd_main := Joining (j + 1)\<rparr>
             else s)
          else s\<lparr>sd_main := Returned\<rparr>
      | _ \<Rightarrow> s)"

subsection \<open>The threads together\<close>

inductive sched_step :: "'t \<Rightarrow> 't sched \<Rightarrow> 't sched \<Rightarrow> bool" for blank where
  main_submits: "sd_main s = Outside \<Longrightarrow> p < priorities s \<Longrightarrow> sched_step blank s (snd (submit t p s))"
| main_inserts: "sched_step blank s (submit_insert blank s)"
| main_grows: "sd_main s = Growing g \<Longrightarrow> grow_step g s g' s' \<Longrightarrow>
    sched_step blank s (s'\<lparr>sd_main := (case g' of None \<Rightarrow> Outside | Some g \<Rightarrow> Growing g)\<rparr>)"
| main_waits: "sd_main s = Outside \<Longrightarrow> sched_step blank s (s\<lparr>sd_main := WaitLoads\<rparr>)"
| main_goes_on: "sched_step blank s (wait_step s)"
| worker_searches: "i < max_workers s \<Longrightarrow> sched_step blank s (next_task lost i s)"
| worker_goes_on: "i < max_workers s \<Longrightarrow> sched_step blank s (worker_loop i s)"
| worker_submits: "i < max_workers s \<Longrightarrow> p < priorities s \<Longrightarrow> sched_step blank s (ctx_submit i t p s)"
| worker_inserts: "i < max_workers s \<Longrightarrow> sched_step blank s (ctx_insert blank i s)"
| worker_grows: "i < max_workers s \<Longrightarrow> sd_workers s ! i = SubGrowing t p g \<Longrightarrow> grow_step g s g' s' \<Longrightarrow>
    sched_step blank s (set_worker i (case g' of None \<Rightarrow> Processing t p | Some g \<Rightarrow> SubGrowing t p g) s')"

subsection \<open>Where the tasks are\<close>

definition queued :: "'t sched \<Rightarrow> 't multiset" where
  "queued s = (\<Sum>qs\<leftarrow>sd_queues s. \<Sum>q\<leftarrow>qs. mset (items q)) + (\<Sum>q\<leftarrow>sd_submitted s. mset (items q))"

fun in_hand :: "'t worker_pc \<Rightarrow> 't multiset" where
  "in_hand (Processing t p) = {#t#}"
| "in_hand (SubCounted t p t' p') = {#t, t'#}"
| "in_hand (SubGrowing t p g) = {#t#}"
| "in_hand (Processed t p) = {#t#}"
| "in_hand _ = {#}"

fun in_main :: "'t main_pc \<Rightarrow> 't multiset" where
  "in_main (Counted t p) = {#t#}"
| "in_main _ = {#}"

definition in_hands :: "'t sched \<Rightarrow> 't multiset" where
  "in_hands s = in_main (sd_main s) + (\<Sum>pc\<leftarrow>sd_workers s. in_hand pc)"

definition conserved :: "'t sched \<Rightarrow> bool" where
  "conserved s \<longleftrightarrow> sd_given s = sd_done s + queued s + in_hands s \<and>
     sd_pending s = size (queued s + in_hands s)"

fun pc_fits :: "nat \<Rightarrow> 't worker_pc \<Rightarrow> bool" where
  "pc_fits k (StealsFrom p v) \<longleftrightarrow> p < k"
| "pc_fits k (TakesSubmitted p) \<longleftrightarrow> p < k"
| "pc_fits k (SubCounted t p t' p') \<longleftrightarrow> p' < k"
| "pc_fits k _ \<longleftrightarrow> True"

definition shaped :: "'t sched \<Rightarrow> bool" where
  "shaped s \<longleftrightarrow> 0 < max_workers s \<and> length (sd_queues s) = max_workers s \<and>
     list_all (\<lambda>qs. length qs = priorities s \<and> list_all cl_ok qs) (sd_queues s) \<and>
     list_all cl_ok (sd_submitted s) \<and> list_all (pc_fits (priorities s)) (sd_workers s) \<and>
     (\<forall>t p. sd_main s = Counted t p \<longrightarrow> p < priorities s)"

lemma in_hands_set_worker:
  "i < max_workers s \<Longrightarrow> in_hands (set_worker i pc s) + in_hand (sd_workers s ! i) = in_hands s + in_hand pc"
  using sum_list_update_add [of i "sd_workers s" in_hand pc]
  by (simp add: in_hands_def set_worker_def max_workers_def add.assoc)

lemma replace_twice:
  assumes "a' + m = a + n" and "n + x = m + (y :: 'a multiset)"
  shows "a' + x = a + y"
proof -
  have "a' + x + m = a + n + x" using assms(1) by (metis add.assoc add.commute)
  also have "\<dots> = a + y + m" using assms(2) by (metis add.assoc add.commute)
  finally show ?thesis by simp
qed

lemma queued_set_own_queue:
  assumes "i < length (sd_queues s)" and "p < length (sd_queues s ! i)"
  shows "queued (set_own_queue i p q s) + mset (items (own_queue i p s)) = queued s + mset (items q)"
proof -
  let ?f = "\<lambda>qs. \<Sum>q\<leftarrow>qs. mset (items q)"
  note outer = sum_list_update_add [OF assms(1), of ?f "(sd_queues s ! i)[p := q]"]
  note inner = sum_list_update_add [OF assms(2), of "\<lambda>q. mset (items q)" q]
  from replace_twice [OF outer inner] show ?thesis by (simp add: queued_def set_own_queue_def own_queue_def ac_simps)
qed

lemma queued_set_submitted:
  "p < priorities s \<Longrightarrow> queued (set_submitted p q s) + mset (items (sd_submitted s ! p)) = queued s + mset (items q)"
  using sum_list_update_add [of p "sd_submitted s" "\<lambda>q. mset (items q)" q]
  by (simp add: queued_def set_submitted_def priorities_def add.assoc)

lemma sched_simps [simp]:
  "sd_queues (set_worker i pc s) = sd_queues s" "sd_submitted (set_worker i pc s) = sd_submitted s"
  "sd_pending (set_worker i pc s) = sd_pending s" "sd_stop (set_worker i pc s) = sd_stop s"
  "sd_live (set_worker i pc s) = sd_live s" "sd_main (set_worker i pc s) = sd_main s"
  "sd_given (set_worker i pc s) = sd_given s" "sd_done (set_worker i pc s) = sd_done s"
  "sd_workers (set_worker i pc s) = (sd_workers s)[i := pc]"
  "sd_queues (set_own_queue i p q s) = (sd_queues s)[i := (sd_queues s ! i)[p := q]]"
  "sd_submitted (set_own_queue i p q s) = sd_submitted s"
  "sd_pending (set_own_queue i p q s) = sd_pending s" "sd_stop (set_own_queue i p q s) = sd_stop s"
  "sd_live (set_own_queue i p q s) = sd_live s" "sd_main (set_own_queue i p q s) = sd_main s"
  "sd_given (set_own_queue i p q s) = sd_given s" "sd_done (set_own_queue i p q s) = sd_done s"
  "sd_workers (set_own_queue i p q s) = sd_workers s"
  "sd_queues (set_submitted p q s) = sd_queues s" "sd_submitted (set_submitted p q s) = (sd_submitted s)[p := q]"
  "sd_pending (set_submitted p q s) = sd_pending s" "sd_stop (set_submitted p q s) = sd_stop s"
  "sd_live (set_submitted p q s) = sd_live s" "sd_main (set_submitted p q s) = sd_main s"
  "sd_given (set_submitted p q s) = sd_given s" "sd_done (set_submitted p q s) = sd_done s"
  "sd_workers (set_submitted p q s) = sd_workers s"
  by (simp_all add: set_worker_def set_own_queue_def set_submitted_def)

lemma count_task_simps [simp]:
  "sd_queues (count_task t s) = sd_queues s" "sd_submitted (count_task t s) = sd_submitted s"
  "sd_pending (count_task t s) = sd_pending s + 1" "sd_stop (count_task t s) = sd_stop s"
  "sd_live (count_task t s) = sd_live s" "sd_main (count_task t s) = sd_main s"
  "sd_workers (count_task t s) = sd_workers s"
  "sd_given (count_task t s) = add_mset t (sd_given s)" "sd_done (count_task t s) = sd_done s"
  by (simp_all add: count_task_def)

lemma max_workers_simps [simp]:
  "max_workers (set_worker i pc s) = max_workers s" "max_workers (set_own_queue i p q s) = max_workers s"
  "max_workers (set_submitted p q s) = max_workers s" "max_workers (count_task t s) = max_workers s"
  "max_workers (s\<lparr>sd_main := m\<rparr>) = max_workers s" "max_workers (s\<lparr>sd_live := l\<rparr>) = max_workers s"
  "max_workers (s\<lparr>sd_stop := b\<rparr>) = max_workers s" "max_workers (s\<lparr>sd_pending := n\<rparr>) = max_workers s"
  "max_workers (s\<lparr>sd_done := d\<rparr>) = max_workers s"
  "priorities (set_worker i pc s) = priorities s" "priorities (set_own_queue i p q s) = priorities s"
  "priorities (set_submitted p q s) = priorities s" "priorities (count_task t s) = priorities s"
  "priorities (s\<lparr>sd_main := m\<rparr>) = priorities s" "priorities (s\<lparr>sd_live := l\<rparr>) = priorities s"
  "priorities (s\<lparr>sd_stop := b\<rparr>) = priorities s" "priorities (s\<lparr>sd_pending := n\<rparr>) = priorities s"
  "priorities (s\<lparr>sd_done := d\<rparr>) = priorities s"
  by (simp_all add: max_workers_def priorities_def)

lemma queued_simps [simp]:
  "queued (set_worker i pc s) = queued s" "queued (count_task t s) = queued s"
  "queued (s\<lparr>sd_main := m\<rparr>) = queued s" "queued (s\<lparr>sd_live := l\<rparr>) = queued s"
  "queued (s\<lparr>sd_stop := b\<rparr>) = queued s" "queued (s\<lparr>sd_pending := n\<rparr>) = queued s"
  "queued (s\<lparr>sd_done := d\<rparr>) = queued s"
  by (simp_all add: queued_def)

lemma in_hands_simps [simp]:
  "in_hands (set_own_queue i p q s) = in_hands s" "in_hands (set_submitted p q s) = in_hands s"
  "in_hands (count_task t s) = in_hands s" "in_hands (s\<lparr>sd_live := l\<rparr>) = in_hands s"
  "in_hands (s\<lparr>sd_stop := b\<rparr>) = in_hands s" "in_hands (s\<lparr>sd_pending := n\<rparr>) = in_hands s"
  "in_hands (s\<lparr>sd_done := d\<rparr>) = in_hands s"
  by (simp_all add: in_hands_def)

lemma in_hands_main: "in_hands (s\<lparr>sd_main := m\<rparr>) + in_main (sd_main s) = in_hands s + in_main m"
  by (simp add: in_hands_def add_ac)

definition tasks :: "'t sched \<Rightarrow> 't multiset" where
  "tasks s = queued s + in_hands s"

definition result :: "'t option \<Rightarrow> 't multiset" where
  "result r = mset (case r of None \<Rightarrow> [] | Some v \<Rightarrow> [v])"

lemma result_simps [simp]: "result None = {#}" "result (Some t) = {#t#}"
  by (simp_all add: result_def)

lemma in_hand_got_or: "in_hand next = {#} \<Longrightarrow> in_hand (got_or next p r) = result r"
  by (cases r) (simp_all add: got_or_def)

lemma pc_fits_got_or: "pc_fits k next \<Longrightarrow> pc_fits k (got_or next p r)"
  by (simp add: got_or_def split: option.splits)

lemma take_or_lose_ok:
  "cl_ok q \<Longrightarrow> take_or_lose lost q = (r, q') \<Longrightarrow> cl_ok q' \<and> mset (items q) = mset (items q') + result r"
  using cl.take_mset [of q r q'] by (cases lost) (auto simp: take_or_lose_def result_def)

lemma steal_or_lose_ok:
  "cl_ok q \<Longrightarrow> steal_or_lose lost q = (r, q') \<Longrightarrow> cl_ok q' \<and> mset (items q) = mset (items q') + result r"
  using cl.steal_mset [of q r q'] by (cases lost) (auto simp: steal_or_lose_def result_def)

lemma tasks_acquired:
  assumes "queued s1 + mset (items q) = queued s + mset (items q')" and "mset (items q) = mset (items q') + result r"
    and "in_hands s1 = in_hands s" and "in_hand (sd_workers s1 ! i) = {#}" and "in_hand next = {#}"
    and "i < max_workers s1"
  shows "tasks (set_worker i (got_or next p r) s1) = tasks s"
proof -
  have "queued s1 + result r + mset (items q') = queued s1 + mset (items q)"
    unfolding assms(2) by (simp only: ac_simps)
  then have "queued s1 + result r = queued s" unfolding assms(1) by (simp only: add_right_cancel)
  moreover have "in_hands (set_worker i (got_or next p r) s1) = in_hands s + result r"
    using in_hands_set_worker [OF assms(6), of "got_or next p r"] assms(3-5) by (simp add: in_hand_got_or)
  ultimately show ?thesis by (simp add: tasks_def ac_simps)
qed

lemma shapedD:
  assumes "shaped s"
  shows "0 < max_workers s" "length (sd_queues s) = max_workers s"
    "i < max_workers s \<Longrightarrow> length (sd_queues s ! i) = priorities s"
    "i < max_workers s \<Longrightarrow> p < priorities s \<Longrightarrow> cl_ok (own_queue i p s)"
    "p < priorities s \<Longrightarrow> cl_ok (sd_submitted s ! p)"
    "i < max_workers s \<Longrightarrow> pc_fits (priorities s) (sd_workers s ! i)"
    "sd_main s = Counted t p \<Longrightarrow> p < priorities s"
  using assms by (simp_all add: shaped_def list_all_length own_queue_def max_workers_def priorities_def)

lemma shaped_set_worker:
  "shaped s \<Longrightarrow> pc_fits (priorities s) pc \<Longrightarrow> shaped (set_worker i pc s)"
  using set_update_subset_insert [of "sd_workers s" i pc]
  by (auto simp: shaped_def list_all_iff)

lemma shaped_set_own_queue:
  assumes "shaped s" and "cl_ok q"
  shows "shaped (set_own_queue i p q s)"
proof (cases "i < length (sd_queues s)")
  case True
  have "list_all cl_ok ((sd_queues s ! i)[p := q])"
    using assms True set_update_subset_insert [of "sd_queues s ! i" p q]
    by (fastforce simp: shaped_def list_all_iff)
  with assms True show ?thesis by (auto simp: shaped_def list_all_length nth_list_update)
next
  case False
  then have "(sd_queues s)[i := (sd_queues s ! i)[p := q]] = sd_queues s" by (simp add: list_update_beyond)
  with assms(1) show ?thesis unfolding shaped_def sched_simps max_workers_simps by simp
qed

lemma shaped_set_submitted: "shaped s \<Longrightarrow> cl_ok q \<Longrightarrow> shaped (set_submitted p q s)"
  using set_update_subset_insert [of "sd_submitted s" p q]
  by (auto simp: shaped_def list_all_iff)

lemma shaped_simps [simp]:
  "shaped (count_task t s) = shaped s" "shaped (s\<lparr>sd_live := l\<rparr>) = shaped s"
  "shaped (s\<lparr>sd_stop := b\<rparr>) = shaped s" "shaped (s\<lparr>sd_pending := n\<rparr>) = shaped s"
  "shaped (s\<lparr>sd_done := d\<rparr>) = shaped s"
  by (simp_all add: shaped_def)

lemma shaped_main: "shaped s \<Longrightarrow> \<forall>t p. m = Counted t p \<longrightarrow> p < priorities s \<Longrightarrow> shaped (s\<lparr>sd_main := m\<rparr>)"
  by (simp add: shaped_def)

text \<open>What every step but the increments and decrements leaves alone.\<close>

definition only_moves :: "'t sched \<Rightarrow> 't sched \<Rightarrow> bool" where
  "only_moves s s' \<longleftrightarrow> shaped s' \<and> tasks s' = tasks s \<and> sd_given s' = sd_given s \<and> sd_done s' = sd_done s \<and>
     sd_pending s' = sd_pending s \<and> priorities s' = priorities s \<and> max_workers s' = max_workers s"

lemma only_moves_refl: "shaped s \<Longrightarrow> only_moves s s"
  by (simp add: only_moves_def)

lemma only_moves_worker:
  assumes "shaped s" and "i < max_workers s" and "in_hand pc = in_hand (sd_workers s ! i)" and "pc_fits (priorities s) pc"
  shows "only_moves s (set_worker i pc s)"
  using in_hands_set_worker [OF assms(2), of pc] shaped_set_worker [OF assms(1,4)] assms(3)
  by (simp add: only_moves_def tasks_def)

lemma only_moves_main:
  assumes "shaped s" and "in_main m = in_main (sd_main s)" and "\<forall>t p. m = Counted t p \<longrightarrow> p < priorities s"
  shows "only_moves s (s\<lparr>sd_main := m\<rparr>)"
  using in_hands_main [where s = s and m = m] shaped_main [OF assms(1,3)] assms(2)
  by (simp add: only_moves_def tasks_def)

lemma next_task_moves:
  assumes "shaped s" and "i < max_workers s"
  shows "only_moves s (next_task lost i s)"
proof -
  note S = shapedD [OF assms(1)]
  note fit = S(6) [OF assms(2)]
  show ?thesis
  proof (cases "sd_workers s ! i")
    case (TakesOwn p)
    show ?thesis
    proof (cases "p < priorities s")
      case True
      obtain r q where t: "take_or_lose lost (own_queue i p s) = (r, q)" by fastforce
      note ok = take_or_lose_ok [OF S(4) [OF assms(2) True] t]
      have "shaped (set_worker i (got_or (StealsFrom p 0) p r) (set_own_queue i p q s))"
        using assms(1) ok True by (intro shaped_set_worker shaped_set_own_queue pc_fits_got_or) simp_all
      moreover have "tasks (set_worker i (got_or (StealsFrom p 0) p r) (set_own_queue i p q s)) = tasks s"
        by (rule tasks_acquired [OF queued_set_own_queue conjunct2 [OF ok]])
          (use S assms True TakesOwn in simp_all)
      ultimately show ?thesis using TakesOwn True t by (simp add: next_task_def only_moves_def)
    next
      case False
      with TakesOwn assms show ?thesis by (simp add: next_task_def only_moves_worker)
    qed
  next
    case (StealsFrom p v)
    show ?thesis
    proof (cases "v < length (sd_queues s) \<and> v \<noteq> i")
      case True
      from StealsFrom fit have p: "p < priorities s" by simp
      from True S have v: "v < max_workers s" by simp
      obtain r q where t: "steal_or_lose lost (own_queue v p s) = (r, q)" by fastforce
      note ok = steal_or_lose_ok [OF S(4) [OF v p] t]
      have "shaped (set_worker i (got_or (StealsFrom p (v + 1)) p r) (set_own_queue v p q s))"
        using assms(1) ok p by (intro shaped_set_worker shaped_set_own_queue pc_fits_got_or) simp_all
      moreover have "tasks (set_worker i (got_or (StealsFrom p (v + 1)) p r) (set_own_queue v p q s)) = tasks s"
        by (rule tasks_acquired [OF queued_set_own_queue conjunct2 [OF ok]])
          (use S assms True p v StealsFrom in simp_all)
      ultimately show ?thesis using StealsFrom True t by (simp add: next_task_def only_moves_def)
    next
      case False
      with StealsFrom assms fit show ?thesis by (auto simp: next_task_def intro!: only_moves_worker)
    qed
  next
    case (TakesSubmitted p)
    with fit have p: "p < priorities s" by simp
    obtain r q where t: "steal_or_lose lost (sd_submitted s ! p) = (r, q)" by fastforce
    note ok = steal_or_lose_ok [OF S(5) [OF p] t]
    have "shaped (set_worker i (got_or (TakesOwn (p + 1)) p r) (set_submitted p q s))"
      using assms(1) ok p by (intro shaped_set_worker shaped_set_submitted pc_fits_got_or) simp_all
    moreover have "tasks (set_worker i (got_or (TakesOwn (p + 1)) p r) (set_submitted p q s)) = tasks s"
      by (rule tasks_acquired [OF queued_set_submitted [OF p] conjunct2 [OF ok]])
        (use assms TakesSubmitted in simp_all)
    ultimately show ?thesis using TakesSubmitted t by (simp add: next_task_def only_moves_def)
  qed (use assms(1) in \<open>simp_all add: next_task_def only_moves_refl\<close>)
qed

lemma submit_insert_moves:
  assumes "shaped s"
  shows "only_moves s (submit_insert blank s)"
proof (cases "sd_main s")
  case (Counted t p)
  note S = shapedD [OF assms]
  note p = S(7) [OF Counted]
  let ?q = "cl_insert blank t (sd_submitted s ! p)"
  note ok = cl.insert_mset [OF S(5) [OF p], of blank t]
  let ?s = "set_submitted p ?q s"
  have "shaped (?s\<lparr>sd_main := Growing GrowLoad\<rparr>)"
    using assms ok by (intro shaped_main shaped_set_submitted) simp_all
  moreover have "queued ?s = add_mset t (queued s)"
    using queued_set_submitted [OF p, of ?q] ok by simp
  moreover have "in_hands (?s\<lparr>sd_main := Growing GrowLoad\<rparr>) + {#t#} = in_hands s"
    using in_hands_main [where s = ?s and m = "Growing GrowLoad"] Counted by simp
  ultimately show ?thesis using Counted by (auto simp: submit_insert_def only_moves_def tasks_def)
qed (use assms in \<open>simp_all add: submit_insert_def only_moves_refl\<close>)

lemma ctx_insert_moves:
  assumes "shaped s" and "i < max_workers s"
  shows "only_moves s (ctx_insert blank i s)"
proof (cases "sd_workers s ! i")
  case (SubCounted t p t' p')
  note S = shapedD [OF assms(1)]
  have p: "p' < priorities s" using S(6) [OF assms(2)] SubCounted by simp
  let ?q = "cl_insert blank t' (own_queue i p' s)"
  note ok = cl.insert_mset [OF S(4) [OF assms(2) p], of blank t']
  let ?s = "set_own_queue i p' ?q s"
  have "shaped (set_worker i (SubGrowing t p GrowLoad) ?s)"
    using assms ok by (intro shaped_set_worker shaped_set_own_queue) simp_all
  moreover have "queued ?s = add_mset t' (queued s)"
    using queued_set_own_queue [of i s p' ?q] S(2,3) assms(2) p ok by simp
  moreover have "in_hands (set_worker i (SubGrowing t p GrowLoad) ?s) + {#t, t'#} = in_hands s + {#t#}"
    using in_hands_set_worker [of i ?s "SubGrowing t p GrowLoad"] assms(2) SubCounted by simp
  ultimately show ?thesis using SubCounted by (auto simp: ctx_insert_def only_moves_def tasks_def)
qed (use assms in \<open>simp_all add: ctx_insert_def only_moves_refl\<close>)

lemma conserved_tasks:
  "conserved s \<longleftrightarrow> sd_given s = sd_done s + tasks s \<and> sd_pending s = size (tasks s)"
  by (simp add: conserved_def tasks_def add.assoc)

lemma conserved_done:
  "conserved s \<Longrightarrow> tasks s = add_mset t (tasks s') \<Longrightarrow> sd_given s' = sd_given s \<Longrightarrow>
     sd_done s' = add_mset t (sd_done s) \<Longrightarrow> sd_pending s' = sd_pending s - 1 \<Longrightarrow> conserved s'"
  by (simp add: conserved_tasks)

lemma only_moves_conserved: "only_moves s s' \<Longrightarrow> conserved s \<Longrightarrow> conserved s'"
  by (simp add: only_moves_def conserved_tasks)

subsection \<open>Which threads run\<close>

fun worker_starts :: "'t worker_pc \<Rightarrow> nat option" where
  "worker_starts (SubGrowing t p (GrowStart j)) = Some j"
| "worker_starts _ = None"

fun main_starts :: "'t main_pc \<Rightarrow> nat option" where
  "main_starts (Growing (GrowStart j)) = Some j"
| "main_starts _ = None"

text \<open>A slot below \<open>live_threads_\<close> has its thread, or exactly one thread is about to start it.\<close>

definition starters :: "nat \<Rightarrow> 't sched \<Rightarrow> nat" where
  "starters j s = of_bool (main_starts (sd_main s) = Some j) + cnt (\<lambda>pc. worker_starts pc = Some j) (sd_workers s)"

definition started :: "nat \<Rightarrow> 't sched \<Rightarrow> bool" where
  "started j s \<longleftrightarrow> j < max_workers s \<and> sd_workers s ! j \<noteq> Unstarted"

definition threads_ok :: "'t sched \<Rightarrow> bool" where
  "threads_ok s \<longleftrightarrow> sd_live s \<le> max_workers s \<and>
     (\<forall>j. of_bool (started j s) + starters j s = (of_bool (j < sd_live s) :: nat))"

fun grow_seen :: "grow \<Rightarrow> nat \<Rightarrow> bool" where
  "grow_seen (GrowTest index) l \<longleftrightarrow> index \<le> l"
| "grow_seen _ l \<longleftrightarrow> True"

definition at_rest :: "'t worker_pc \<Rightarrow> bool" where
  "at_rest pc \<longleftrightarrow> pc = Unstarted \<or> pc = Exited"

text \<open>What the waiting thread relies on.\<close>

fun main_ok :: "'t sched \<Rightarrow> 't main_pc \<Rightarrow> bool" where
  "main_ok s Asleep \<longleftrightarrow> 0 < sd_pending s \<or> Notifying \<in> set (sd_workers s)"
| "main_ok s (Joining j) \<longleftrightarrow> sd_stop s \<and> sd_pending s = 0 \<and> list_all at_rest (take j (sd_workers s))"
| "main_ok s Returned \<longleftrightarrow> sd_stop s \<and> sd_pending s = 0 \<and> list_all at_rest (sd_workers s)"
| "main_ok s (Growing g) \<longleftrightarrow> grow_seen g (sd_live s)"
| "main_ok s (WaitLoaded owed) \<longleftrightarrow> 0 < owed"
| "main_ok s WaitStops \<longleftrightarrow> sd_pending s = 0"
| "main_ok s _ \<longleftrightarrow> True"

fun submitting :: "'t main_pc \<Rightarrow> bool" where
  "submitting (Counted t p) \<longleftrightarrow> True"
| "submitting (Growing g) \<longleftrightarrow> True"
| "submitting _ \<longleftrightarrow> False"

fun stopping :: "'t main_pc \<Rightarrow> bool" where
  "stopping (Joining j) \<longleftrightarrow> True"
| "stopping Returned \<longleftrightarrow> True"
| "stopping _ \<longleftrightarrow> False"

definition wound_up :: "'t main_pc \<Rightarrow> bool" where
  "wound_up m \<longleftrightarrow> m = WaitStops \<or> stopping m"

definition waiting_ok :: "'t sched \<Rightarrow> bool" where
  "waiting_ok s \<longleftrightarrow> main_ok s (sd_main s) \<and> sd_stop s = stopping (sd_main s) \<and>
     (0 < sd_pending s \<longrightarrow> 0 < sd_live s \<or> submitting (sd_main s))"

definition sched_core :: "'t sched \<Rightarrow> bool" where
  "sched_core s \<longleftrightarrow> shaped s \<and> conserved s \<and> threads_ok s \<and> waiting_ok s"

text \<open>A thread at the exchange has found a slot to be had at its test.\<close>

fun main_claims :: "'t main_pc \<Rightarrow> nat option" where
  "main_claims (Growing (GrowClaim j)) = Some j"
| "main_claims _ = None"

fun worker_claims :: "'t worker_pc \<Rightarrow> nat option" where
  "worker_claims (SubGrowing t p (GrowClaim j)) = Some j"
| "worker_claims _ = None"

fun claim_fits :: "nat \<Rightarrow> nat option \<Rightarrow> bool" where
  "claim_fits n (Some j) \<longleftrightarrow> j < n"
| "claim_fits n None \<longleftrightarrow> True"

definition claims_ok :: "'t sched \<Rightarrow> bool" where
  "claims_ok s \<longleftrightarrow> claim_fits (max_workers s) (main_claims (sd_main s)) \<and>
     list_all (\<lambda>pc. claim_fits (max_workers s) (worker_claims pc)) (sd_workers s)"

definition sched_inv :: "'t sched \<Rightarrow> bool" where
  "sched_inv s \<longleftrightarrow> sched_core s \<and> claims_ok s"

lemma started_live: "threads_ok s \<Longrightarrow> started j s \<Longrightarrow> j < sd_live s"
  unfolding threads_ok_def by (metis add_is_0 of_bool_eq_0_iff)

lemma starters_set_worker:
  assumes "i < max_workers s"
  shows "starters j (set_worker i pc s) + of_bool (worker_starts (sd_workers s ! i) = Some j) =
    starters j s + of_bool (worker_starts pc = Some j)"
  using cnt_update [of i "sd_workers s" "\<lambda>pc. worker_starts pc = Some j" pc] assms
  by (simp add: starters_def max_workers_def)

lemma started_set_worker:
  "i < max_workers s \<Longrightarrow> started j (set_worker i pc s) \<longleftrightarrow> (if j = i then pc \<noteq> Unstarted else started j s)"
  by (auto simp: started_def max_workers_def)

lemma threads_ok_worker:
  assumes "threads_ok s" and "i < max_workers s" and "sd_workers s ! i \<noteq> Unstarted" and "pc \<noteq> Unstarted"
    and "worker_starts pc = worker_starts (sd_workers s ! i)"
  shows "threads_ok (set_worker i pc s)"
proof -
  have "started j (set_worker i pc s) = started j s" for j
    unfolding started_set_worker [OF assms(2)] using assms(2-4) by (auto simp: started_def)
  moreover have "starters j (set_worker i pc s) = starters j s" for j
    using starters_set_worker [OF assms(2), of j pc] assms(5) by simp
  ultimately show ?thesis using assms(1) by (simp add: threads_ok_def)
qed

lemma threads_ok_cong:
  "threads_ok s \<Longrightarrow> sd_live s' = sd_live s \<Longrightarrow> sd_workers s' = sd_workers s \<Longrightarrow>
     main_starts (sd_main s') = main_starts (sd_main s) \<Longrightarrow> threads_ok s'"
  by (simp add: threads_ok_def started_def starters_def max_workers_def)

lemma wound_up_pending: "waiting_ok s \<Longrightarrow> wound_up (sd_main s) \<longrightarrow> sd_pending s = 0"
  by (cases "sd_main s") (auto simp: waiting_ok_def wound_up_def)

text \<open>
  A worker's step leaves what the waiting thread relies on as it was, when it does not take
  \<open>pending_tasks_\<close> to 0 in silence.
\<close>

lemma waiting_ok_worker:
  assumes "waiting_ok s" and "threads_ok s" and "i < max_workers s" and "\<not> at_rest (sd_workers s ! i)"
    and "sd_workers s' = (sd_workers s)[i := pc]" and "sd_live s' = sd_live s" and "sd_stop s' = sd_stop s"
    and "sd_main s' = sd_main s" and "wound_up (sd_main s) \<longrightarrow> sd_pending s' = 0"
    and "sd_main s = Asleep \<longrightarrow> 0 < sd_pending s' \<or> pc = Notifying \<or>
      (sd_pending s' = sd_pending s \<and> sd_workers s ! i \<noteq> Notifying)"
  shows "waiting_ok s'"
proof -
  have "started i s" using assms(3,4) by (auto simp: started_def at_rest_def)
  with started_live [OF assms(2)] have live: "0 < sd_live s" by force
  have i: "i < length (sd_workers s)" using assms(3) by (simp add: max_workers_def)
  have "main_ok s' (sd_main s)"
  proof (cases "sd_main s")
    case Asleep
    with assms(1) have "0 < sd_pending s \<or> Notifying \<in> set (sd_workers s)" by (simp add: waiting_ok_def)
    moreover have "Notifying \<in> set (sd_workers s) \<Longrightarrow> sd_workers s ! i \<noteq> Notifying \<Longrightarrow>
        Notifying \<in> set ((sd_workers s)[i := pc])"
      by (metis in_set_conv_nth length_list_update nth_list_update_neq)
    ultimately show ?thesis using assms(5,10) Asleep i by (auto intro: set_update_memI)
  next
    case (Joining j)
    with assms(1,4) i have "\<not> i < j"
      by (auto simp: waiting_ok_def list_all_length)
    with Joining assms(1,5,7,9) show ?thesis by (simp add: waiting_ok_def wound_up_def)
  next
    case Returned
    with assms(1,4) i show ?thesis by (auto simp: waiting_ok_def list_all_length)
  qed (use assms(1,6,9) in \<open>simp_all add: waiting_ok_def wound_up_def\<close>)
  with assms(1,6-8) live show ?thesis by (simp add: waiting_ok_def)
qed

subsection \<open>Every step keeps the invariant\<close>

text \<open>A step of a running worker that only moves its own program counter and the queues.\<close>

lemma worker_moves_inv:
  assumes "sched_core s" and "i < max_workers s" and "only_moves s s'" and "\<not> at_rest (sd_workers s ! i)"
    and "sd_workers s' = (sd_workers s)[i := pc]" and "sd_live s' = sd_live s" and "sd_stop s' = sd_stop s"
    and "sd_main s' = sd_main s" and "pc \<noteq> Unstarted" and "worker_starts pc = worker_starts (sd_workers s ! i)"
    and "sd_workers s ! i \<noteq> Notifying"
  shows "sched_core s'"
proof -
  have inv: "conserved s" "threads_ok s" "waiting_ok s" using assms(1) by (simp_all add: sched_core_def)
  have pend: "sd_pending s' = sd_pending s" using assms(3) by (simp add: only_moves_def)
  have "threads_ok (set_worker i pc s)"
    by (rule threads_ok_worker [OF inv(2) assms(2)]) (use assms in \<open>auto simp: at_rest_def\<close>)
  then have "threads_ok s'" by (rule threads_ok_cong) (use assms in simp_all)
  moreover have "wound_up (sd_main s) \<longrightarrow> sd_pending s = 0" by (rule wound_up_pending [OF inv(3)])
  then have "waiting_ok s'"
    by (intro waiting_ok_worker [OF inv(3,2) assms(2,4,5,6,7,8)]) (use pend assms(11) in simp_all)
  ultimately show ?thesis using only_moves_conserved [OF assms(3) inv(1)] assms(3)
    by (simp add: sched_core_def only_moves_def)
qed

lemma got_or_facts:
  assumes "next \<noteq> Unstarted" and "worker_starts next = None"
  shows "got_or next p r \<noteq> Unstarted \<and> worker_starts (got_or next p r) = None"
  using assms by (simp add: got_or_def split: option.splits)

lemma next_task_inv:
  assumes "sched_core s" and "i < max_workers s"
  shows "sched_core (next_task lost i s)"
proof -
  have sh: "shaped s" using assms(1) by (simp add: sched_core_def)
  note moves = next_task_moves [OF sh assms(2), of lost]
  show ?thesis
  proof (cases "sd_workers s ! i")
    case (TakesOwn p)
    show ?thesis
      by (rule worker_moves_inv [OF assms moves, where pc = "sd_workers (next_task lost i s) ! i"])
        (use TakesOwn assms(2) got_or_facts [of "StealsFrom p 0"] in
          \<open>auto simp: next_task_def at_rest_def max_workers_def split: prod.splits\<close>)
  next
    case (StealsFrom p v)
    show ?thesis
      by (rule worker_moves_inv [OF assms moves, where pc = "sd_workers (next_task lost i s) ! i"])
        (use StealsFrom assms(2) got_or_facts [of "StealsFrom p (v + 1)"] in
          \<open>auto simp: next_task_def at_rest_def max_workers_def split: prod.splits\<close>)
  next
    case (TakesSubmitted p)
    show ?thesis
      by (rule worker_moves_inv [OF assms moves, where pc = "sd_workers (next_task lost i s) ! i"])
        (use TakesSubmitted assms(2) got_or_facts [of "TakesOwn (p + 1)"] in
          \<open>auto simp: next_task_def at_rest_def max_workers_def split: prod.splits\<close>)
  qed (use assms(1) in \<open>simp_all add: next_task_def\<close>)
qed

lemma ctx_insert_inv:
  assumes "sched_core s" and "i < max_workers s"
  shows "sched_core (ctx_insert blank i s)"
proof (cases "sd_workers s ! i")
  case (SubCounted t p t' p')
  have sh: "shaped s" using assms(1) by (simp add: sched_core_def)
  show ?thesis
    by (rule worker_moves_inv [OF assms ctx_insert_moves [OF sh assms(2)], where pc = "SubGrowing t p GrowLoad"])
      (use SubCounted in \<open>simp_all add: ctx_insert_def at_rest_def\<close>)
qed (use assms(1) in \<open>simp_all add: ctx_insert_def\<close>)

lemma in_sum_list_mset: "t \<in># (\<Sum>x\<leftarrow>xs. f x) \<longleftrightarrow> (\<exists>x \<in> set xs. t \<in># f x)"
  by (induction xs) auto

text \<open>A worker in the middle of a task holds it, so the count is not 0.\<close>

lemma pending_in_hand:
  assumes "sched_core s" and "i < max_workers s" and "t \<in># in_hand (sd_workers s ! i)"
  shows "t \<in># tasks s" and "0 < sd_pending s"
proof -
  have "sd_workers s ! i \<in> set (sd_workers s)" using assms(2) by (simp add: max_workers_def)
  with assms(3) show "t \<in># tasks s" by (auto simp: tasks_def in_hands_def in_sum_list_mset)
  with assms(1) show "0 < sd_pending s"
    by (auto simp: sched_core_def conserved_tasks nonempty_has_size [symmetric])
qed

lemma worker_loop_inv:
  assumes "sched_core s" and "i < max_workers s"
  shows "sched_core (worker_loop i s)"
proof -
  have inv: "shaped s" "conserved s" "threads_ok s" "waiting_ok s" using assms(1) by (simp_all add: sched_core_def)
  show ?thesis
  proof (cases "sd_workers s ! i")
    case AtLoop
    have "only_moves s (worker_loop i s)"
      using AtLoop inv assms(2) by (simp add: worker_loop_def only_moves_worker)
    from worker_moves_inv [OF assms this, where pc = "if sd_stop s then Exited else TakesOwn 0"] AtLoop
    show ?thesis by (simp add: worker_loop_def at_rest_def)
  next
    case (Processing t p)
    have "only_moves s (worker_loop i s)"
      using Processing inv assms(2) by (simp add: worker_loop_def only_moves_worker)
    from worker_moves_inv [OF assms this, where pc = "Processed t p"] Processing
    show ?thesis by (simp add: worker_loop_def at_rest_def)
  next
    case (Processed t p)
    define pc where "pc = (if sd_pending s = 1 then Notifying else AtLoop :: 'a worker_pc)"
    have pc: "in_hand pc = {#}" "worker_starts pc = None" "pc \<noteq> Unstarted" "pc_fits k pc" for k
      by (simp_all add: pc_def)
    let ?pc = pc
    let ?s = "s\<lparr>sd_pending := sd_pending s - 1, sd_done := add_mset t (sd_done s)\<rparr>"
    have s': "worker_loop i s = set_worker i ?pc ?s" using Processed by (simp add: worker_loop_def Let_def pc_def)
    have pos: "0 < sd_pending s" using pending_in_hand(2) [OF assms, of t] Processed by simp
    have "shaped (set_worker i ?pc ?s)" by (rule shaped_set_worker [OF _ pc(4)]) (use inv in simp)
    moreover have "in_hands (set_worker i ?pc ?s) + {#t#} = in_hands s"
      using in_hands_set_worker [of i ?s ?pc] assms(2) Processed pc(1) by simp
    then have eq: "tasks s = add_mset t (tasks (set_worker i ?pc ?s))" by (auto simp: tasks_def)
    from conserved_done [OF inv(2) eq] have "conserved (set_worker i ?pc ?s)" by simp
    moreover have "threads_ok (set_worker i ?pc s)"
      by (rule threads_ok_worker [OF inv(3) assms(2)]) (use Processed pc in auto)
    then have "threads_ok (set_worker i ?pc ?s)" by (rule threads_ok_cong) simp_all
    moreover have "waiting_ok (set_worker i ?pc ?s)"
    proof (rule waiting_ok_worker [OF inv(4,3) assms(2), where pc = ?pc])
      show "wound_up (sd_main s) \<longrightarrow> sd_pending (set_worker i ?pc ?s) = 0"
        using wound_up_pending [OF inv(4)] pos by simp
    qed (use Processed pos in \<open>auto simp: at_rest_def pc_def\<close>)
    ultimately show ?thesis by (simp add: s' sched_core_def)
  next
    case Notifying
    let ?m = "if sd_main s = Asleep then WaitLoads else sd_main s"
    let ?s = "s\<lparr>sd_main := ?m\<rparr>"
    have s': "worker_loop i s = set_worker i AtLoop ?s" using Notifying by (simp add: worker_loop_def)
    have "only_moves s ?s"
      by (rule only_moves_main [OF inv(1)]) (use shapedD(7) [OF inv(1)] in auto)
    moreover have "threads_ok ?s" by (rule threads_ok_cong [OF inv(3)]) simp_all
    moreover have "waiting_ok ?s" using inv(4) by (cases "sd_main s") (auto simp: waiting_ok_def)
    ultimately have i: "sched_core ?s" using only_moves_conserved [OF _ inv(2)] by (simp add: sched_core_def only_moves_def)
    then have inv1: "shaped ?s" "conserved ?s" "threads_ok ?s" "waiting_ok ?s" by (simp_all add: sched_core_def)
    have m: "only_moves ?s (set_worker i AtLoop ?s)"
      using Notifying inv1 assms(2) by (intro only_moves_worker) simp_all
    have "threads_ok (set_worker i AtLoop ?s)"
      by (rule threads_ok_worker [OF inv1(3)]) (use Notifying assms(2) in auto)
    moreover have "waiting_ok (set_worker i AtLoop ?s)"
    proof (rule waiting_ok_worker [OF inv1(4,3), where pc = AtLoop])
      show "wound_up (sd_main ?s) \<longrightarrow> sd_pending (set_worker i AtLoop ?s) = 0"
        using wound_up_pending [OF inv1(4)] by simp
    qed (use Notifying assms(2) in \<open>auto simp: at_rest_def\<close>)
    ultimately show ?thesis using only_moves_conserved [OF m inv1(2)] m
      by (simp add: s' sched_core_def only_moves_def)
  qed (use assms(1) in \<open>simp_all add: worker_loop_def\<close>)
qed

lemma ctx_submit_inv:
  assumes "sched_core s" and "i < max_workers s" and "p' < priorities s"
  shows "sched_core (ctx_submit i t' p' s)"
proof (cases "sd_workers s ! i")
  case (Processing t p)
  have inv: "shaped s" "conserved s" "threads_ok s" "waiting_ok s" using assms(1) by (simp_all add: sched_core_def)
  let ?pc = "SubCounted t p t' p'"
  let ?s = "set_worker i ?pc (count_task t' s)"
  have s': "ctx_submit i t' p' s = ?s" using Processing by (simp add: ctx_submit_def)
  have pos: "0 < sd_pending s" using pending_in_hand(2) [OF assms(1,2), of t] Processing by simp
  have "shaped ?s" using inv assms(3) by (intro shaped_set_worker) simp_all
  moreover have "in_hands ?s + {#t#} = in_hands s + {#t, t'#}"
    using in_hands_set_worker [of i "count_task t' s" ?pc] assms(2) Processing by simp
  then have "tasks ?s = add_mset t' (tasks s)" by (auto simp: tasks_def)
  then have "conserved ?s" using inv(2) by (simp add: conserved_tasks)
  moreover have "threads_ok (set_worker i ?pc s)"
    by (rule threads_ok_worker [OF inv(3) assms(2)]) (use Processing in auto)
  then have "threads_ok ?s" by (rule threads_ok_cong) simp_all
  moreover have "waiting_ok ?s"
  proof (rule waiting_ok_worker [OF inv(4,3) assms(2), where pc = ?pc])
    show "wound_up (sd_main s) \<longrightarrow> sd_pending ?s = 0"
        using wound_up_pending [OF inv(4)] pos by simp
  qed (use Processing pos in \<open>auto simp: at_rest_def\<close>)
  ultimately show ?thesis by (simp add: s' sched_core_def)
qed (use assms(1) in \<open>simp_all add: ctx_submit_def\<close>)

text \<open>A step of the submitting thread that starts no thread and wakes nobody.\<close>

lemma main_moves_inv:
  assumes "sched_core s" and "only_moves s s'" and "sd_workers s' = sd_workers s" and "sd_live s' = sd_live s"
    and "main_starts (sd_main s') = main_starts (sd_main s)" and "waiting_ok s'"
  shows "sched_core s'"
proof -
  have inv: "conserved s" "threads_ok s" using assms(1) by (simp_all add: sched_core_def)
  have "threads_ok s'" by (rule threads_ok_cong [OF inv(2)]) (use assms in simp_all)
  with only_moves_conserved [OF assms(2) inv(1)] assms(2,6) show ?thesis
    by (simp add: sched_core_def only_moves_def)
qed

lemma submit_inv:
  assumes "sched_core s" and "sd_main s = Outside" and "p < priorities s"
  shows "sched_core (snd (submit t p s))"
proof -
  let ?s = "count_task t s"
  have inv: "shaped s" "conserved s" "threads_ok s" "waiting_ok s" using assms(1) by (simp_all add: sched_core_def)
  have "in_hands (?s\<lparr>sd_main := Counted t p\<rparr>) = add_mset t (in_hands s)"
    using in_hands_main [where s = ?s and m = "Counted t p"] assms(2) by simp
  then have "conserved (?s\<lparr>sd_main := Counted t p\<rparr>)" using inv(2) by (simp add: conserved_tasks tasks_def)
  moreover have "threads_ok (?s\<lparr>sd_main := Counted t p\<rparr>)"
    by (rule threads_ok_cong [OF inv(3)]) (use assms(2) in simp_all)
  moreover have "shaped (?s\<lparr>sd_main := Counted t p\<rparr>)" using inv assms(3) by (intro shaped_main) simp_all
  ultimately show ?thesis using inv(4) assms(1,2) by (simp add: submit_def sched_core_def waiting_ok_def)
qed

lemma submit_insert_inv:
  assumes "sched_core s"
  shows "sched_core (submit_insert blank s)"
proof (cases "sd_main s")
  case (Counted t p)
  have inv: "shaped s" "waiting_ok s" using assms by (simp_all add: sched_core_def)
  show ?thesis
    by (rule main_moves_inv [OF assms submit_insert_moves [OF inv(1)]])
      (use inv(2) Counted in \<open>simp_all add: submit_insert_def waiting_ok_def\<close>)
qed (use assms in \<open>simp_all add: submit_insert_def\<close>)

lemma all_at_rest_take:
  "j < length pcs \<Longrightarrow> at_rest (pcs ! j) \<Longrightarrow> list_all at_rest (take j pcs) \<Longrightarrow> list_all at_rest (take (Suc j) pcs)"
  by (simp add: take_Suc_conv_app_nth)

lemma main_only:
  assumes "sched_core s" and "in_main m = {#}" and "in_main (sd_main s) = {#}"
    and "main_starts m = None" and "main_starts (sd_main s) = None" and "waiting_ok (s\<lparr>sd_stop := b, sd_main := m\<rparr>)"
  shows "sched_core (s\<lparr>sd_stop := b, sd_main := m\<rparr>)"
proof -
  have sh: "shaped s" using assms(1) by (simp add: sched_core_def)
  have "only_moves (s\<lparr>sd_stop := b\<rparr>) (s\<lparr>sd_stop := b, sd_main := m\<rparr>)"
    by (rule only_moves_main) (use sh assms(2,3) in auto)
  then have "only_moves s (s\<lparr>sd_stop := b, sd_main := m\<rparr>)"
    by (simp add: only_moves_def tasks_def)
  from main_moves_inv [OF assms(1) this] assms(4-6) show ?thesis by simp
qed

lemma wait_step_inv:
  assumes "sched_core s"
  shows "sched_core (wait_step s)"
proof -
  have w: "waiting_ok s" using assms by (simp add: sched_core_def)
  have keep: "s\<lparr>sd_main := m\<rparr> = s\<lparr>sd_stop := sd_stop s, sd_main := m\<rparr>" for m by simp
  note stop = main_only [OF assms, of "Joining 0" True]
    and ok = main_only [OF assms, where b = "sd_stop s", folded keep]
  show ?thesis
  proof (cases "sd_main s")
    case WaitLoads
    then show ?thesis
      using ok [of WaitStops] ok [of "WaitLoaded (sd_pending s)"] w
      by (simp add: wait_step_def waiting_ok_def)
  next
    case WaitStops
    then show ?thesis using stop w by (simp add: wait_step_def waiting_ok_def)
  next
    case (WaitLoaded owed)
    then show ?thesis
      using ok [of Asleep] ok [of WaitLoads] w
      by (cases "sd_pending s = owed"; cases "owed") (auto simp: wait_step_def waiting_ok_def)
  next
    case (Joining j)
    show ?thesis
    proof (cases "j < max_workers s")
      case True
      show ?thesis
      proof (cases "at_rest (sd_workers s ! j)")
        case rest: True
        have "waiting_ok (s\<lparr>sd_main := Joining (j + 1)\<rparr>)"
          using w Joining True rest all_at_rest_take [of j "sd_workers s"]
          by (simp add: waiting_ok_def max_workers_def)
        then show ?thesis using ok [of "Joining (j + 1)"] Joining True rest
          by (simp add: wait_step_def at_rest_def)
      next
        case False
        then show ?thesis using assms Joining True by (auto simp: wait_step_def at_rest_def)
      qed
    next
      case False
      have "waiting_ok (s\<lparr>sd_main := Returned\<rparr>)"
        using w Joining False by (simp add: waiting_ok_def max_workers_def)
      then show ?thesis using ok [of Returned] Joining False by (simp add: wait_step_def)
    qed
  qed (use assms in \<open>simp_all add: wait_step_def\<close>)
qed

text \<open>
  The threads after a step inside \<open>MaybeGrowThreads\<close>, whoever makes it: \<open>n\<close> and \<open>n'\<close> are what
  the one that makes it is about to start.
\<close>

lemma threads_ok_claims:
  assumes "threads_ok s" and "sd_live s < max_workers s"
    and "\<And>j. starters j s' = starters j s + of_bool (j = sd_live s)"
    and "sd_workers s' = sd_workers s \<or> (\<exists>i pc. i < max_workers s \<and> sd_workers s ! i \<noteq> Unstarted \<and>
      pc \<noteq> Unstarted \<and> sd_workers s' = (sd_workers s)[i := pc])"
    and "sd_live s' = sd_live s + 1"
  shows "threads_ok s'"
proof -
  have m: "max_workers s' = max_workers s" using assms(4) by (auto simp: max_workers_def)
  have same: "started j s' = started j s" for j
    using assms(4) by (auto simp: started_def m nth_list_update max_workers_def split: if_splits)
  have less: "of_bool (j < sd_live s) + of_bool (j = sd_live s) = (of_bool (j < sd_live s + 1) :: nat)" for j
    by auto
  have before: "of_bool (started j s) + starters j s = (of_bool (j < sd_live s) :: nat)" for j
    using assms(1) by (simp add: threads_ok_def)
  have "of_bool (started j s') + starters j s' = (of_bool (j < sd_live s') :: nat)" for j
    by (simp only: same assms(3,5) add.assoc [symmetric] before less)
  with assms(2,5) show ?thesis by (simp add: threads_ok_def m)
qed

lemma about_to_start:
  assumes "threads_ok s" and "0 < starters j s"
  shows "j < max_workers s \<and> sd_workers s ! j = Unstarted \<and> j < sd_live s \<and> starters j s = 1"
proof -
  have eq: "of_bool (started j s) + starters j s = (of_bool (j < sd_live s) :: nat)"
    and le: "sd_live s \<le> max_workers s" using assms(1) by (simp_all add: threads_ok_def)
  with assms(2) have "j < sd_live s" "\<not> started j s" by (auto simp: of_bool_def split: if_splits)
  with eq le show ?thesis by (auto simp: started_def)
qed

lemma threads_ok_starts:
  assumes "threads_ok s" and "0 < starters j s" and "\<And>k. starters k s' + of_bool (k = j) = starters k s"
    and "max_workers s' = max_workers s" and "\<And>k. started k s' \<longleftrightarrow> started k s \<or> k = j"
    and "sd_live s' = sd_live s"
  shows "threads_ok s'"
proof -
  note j = about_to_start [OF assms(1,2)]
  have "of_bool (started k s') + starters k s' = (of_bool (k < sd_live s) :: nat)" for k
  proof (cases "k = j")
    case True
    with assms(3) [of k] assms(5) [of k] j show ?thesis by simp
  next
    case False
    with assms(3) [of k] assms(5) [of k] assms(1) show ?thesis by (simp add: threads_ok_def)
  qed
  with assms(1,4,6) show ?thesis by (simp add: threads_ok_def)
qed

lemma starters_main:
  "starters j (s\<lparr>sd_main := m\<rparr>) + of_bool (main_starts (sd_main s) = Some j) =
     starters j s + of_bool (main_starts m = Some j)"
  by (simp add: starters_def)

lemma starters_simps [simp]:
  "starters j (s\<lparr>sd_live := l\<rparr>) = starters j s" "started j (s\<lparr>sd_live := l\<rparr>) = started j s"
  "started j (s\<lparr>sd_main := m\<rparr>) = started j s"
  by (simp_all add: starters_def started_def)

lemma main_grows_inv:
  assumes "sched_core s" and "sd_main s = Growing g" and "grow_step g s g' s'" and "claims_ok s"
  shows "sched_core (s'\<lparr>sd_main := (case g' of None \<Rightarrow> Outside | Some g \<Rightarrow> Growing g)\<rparr>)"
proof -
  have inv: "shaped s" "conserved s" "threads_ok s" "waiting_ok s" using assms(1) by (simp_all add: sched_core_def)
  have moves: "only_moves s (s\<lparr>sd_main := m\<rparr>)" if "in_main m = {#}" for m
    by (rule only_moves_main [OF inv(1)]) (use that assms(2) in auto)
  have stop: "\<not> sd_stop s" using inv(4) assms(2) by (simp add: waiting_ok_def)
  have plain: "sched_core (s\<lparr>sd_main := m\<rparr>)" if "in_main m = {#}" "main_starts m = main_starts (sd_main s)"
    "main_ok s m" "\<not> stopping m" "0 < sd_pending s \<longrightarrow> 0 < sd_live s \<or> submitting m" "m = Outside \<or> (\<exists>g. m = Growing g)" for m
    by (rule main_moves_inv [OF assms(1) moves [OF that(1)]])
      (use that assms(2) stop in \<open>auto simp: waiting_ok_def\<close>)
  from assms(3) show ?thesis
  proof cases
    case grow_loads
    with plain [of "Growing (GrowTest (sd_live s))"] assms(2) show ?thesis by simp
  next
    case (grow_enough index)
    have "index \<le> sd_live s" using inv(4) assms(2) grow_enough by (simp add: waiting_ok_def)
    with shapedD(1) [OF inv(1)] grow_enough plain [of Outside] assms(2) show ?thesis by force
  next
    case (grow_again index)
    with plain [of "Growing (GrowTest (sd_live s))"] assms(2) show ?thesis by simp
  next
    case (grow_tests index)
    with plain [of "Growing (GrowClaim index)"] assms(2) show ?thesis by simp
  next
    case (grow_claims index)
    have room: "index < max_workers s" using assms(2,4) grow_claims by (simp add: claims_ok_def)
    let ?m = "Growing (GrowStart index)"
    let ?s = "s\<lparr>sd_live := index + 1\<rparr>"
    have "only_moves s (?s\<lparr>sd_main := ?m\<rparr>)"
      using moves [of ?m] inv(1) by (simp add: only_moves_def tasks_def in_hands_def shaped_def queued_def)
    moreover have "threads_ok (?s\<lparr>sd_main := ?m\<rparr>)"
    proof (rule threads_ok_claims [OF inv(3)])
      show "starters j (?s\<lparr>sd_main := ?m\<rparr>) = starters j s + of_bool (j = sd_live s)" for j
        using starters_main [where j = j and s = ?s and m = ?m] assms(2) grow_claims by auto
    qed (use grow_claims room in simp_all)
    moreover have "waiting_ok (?s\<lparr>sd_main := ?m\<rparr>)" using stop by (simp add: waiting_ok_def)
    ultimately show ?thesis using only_moves_conserved [OF _ inv(2)] grow_claims
      by (simp add: sched_core_def only_moves_def)
  next
    case (grow_starts index)
    have one: "0 < starters index s" using assms(2) grow_starts by (simp add: starters_def)
    note j = about_to_start [OF inv(3) one]
    let ?s = "set_worker index AtLoop s"
    have w: "only_moves s ?s" by (rule only_moves_worker [OF inv(1)]) (use j in auto)
    then have "only_moves ?s (?s\<lparr>sd_main := Outside\<rparr>)"
      using assms(2) by (intro only_moves_main) (auto simp: only_moves_def)
    with w have "only_moves s (?s\<lparr>sd_main := Outside\<rparr>)" by (simp add: only_moves_def)
    moreover have "threads_ok (?s\<lparr>sd_main := Outside\<rparr>)"
    proof (rule threads_ok_starts [OF inv(3) one])
      show "starters k (?s\<lparr>sd_main := Outside\<rparr>) + of_bool (k = index) = starters k s" for k
        using starters_main [where j = k and s = ?s and m = Outside] starters_set_worker [of index s k AtLoop] j assms(2) grow_starts
        by auto
      show "started k (?s\<lparr>sd_main := Outside\<rparr>) \<longleftrightarrow> started k s \<or> k = index" for k
        using j started_set_worker [of index s k AtLoop] by auto
    qed simp_all
    moreover have "waiting_ok (?s\<lparr>sd_main := Outside\<rparr>)" using stop j by (simp add: waiting_ok_def)
    ultimately show ?thesis using only_moves_conserved [OF _ inv(2)] grow_starts
      by (simp add: sched_core_def only_moves_def)
  qed
qed

lemma worker_grows_inv:
  assumes "sched_core s" and i: "i < max_workers s" and pc: "sd_workers s ! i = SubGrowing t p g"
    and "grow_step g s g' s'" and "claims_ok s"
  shows "sched_core (set_worker i (case g' of None \<Rightarrow> Processing t p | Some g \<Rightarrow> SubGrowing t p g) s')"
proof -
  have inv: "shaped s" "conserved s" "threads_ok s" "waiting_ok s" using assms(1) by (simp_all add: sched_core_def)
  have moves: "only_moves s (set_worker i c s)" if "in_hand c = {#t#}" "pc_fits (priorities s) c" for c
    by (rule only_moves_worker [OF inv(1) i]) (use that pc in auto)
  have pos: "0 < sd_pending s" using pending_in_hand(2) [OF assms(1) i, of t] pc by simp
  have run: "\<not> at_rest (sd_workers s ! i)" using pc by (simp add: at_rest_def)
  have go: "\<not> wound_up (sd_main s)" using inv(4) pos by (cases "sd_main s") (auto simp: waiting_ok_def wound_up_def)
  have plain: "sched_core (set_worker i c s)"
    if "in_hand c = {#t#}" "pc_fits (priorities s) c" "c \<noteq> Unstarted" "worker_starts c = worker_starts (sd_workers s ! i)" for c
    by (rule worker_moves_inv [OF assms(1) i moves [OF that(1,2)] run, where pc = c]) (use that(3,4) pc in simp_all)
  from assms(4) show ?thesis
  proof cases
    case grow_loads
    with plain [of "SubGrowing t p (GrowTest (sd_live s))"] pc show ?thesis by simp
  next
    case (grow_enough index)
    with plain [of "Processing t p"] pc show ?thesis by simp
  next
    case (grow_again index)
    with plain [of "SubGrowing t p (GrowTest (sd_live s))"] pc show ?thesis by simp
  next
    case (grow_tests index)
    with plain [of "SubGrowing t p (GrowClaim index)"] pc show ?thesis by simp
  next
    case (grow_claims index)
    have "sd_workers s ! i \<in> set (sd_workers s)" using i by (simp add: max_workers_def)
    then have room: "index < max_workers s"
      using assms(5) pc grow_claims by (auto simp: claims_ok_def list_all_iff)
    let ?c = "SubGrowing t p (GrowStart index)"
    let ?s = "s\<lparr>sd_live := index + 1\<rparr>"
    have "only_moves s (set_worker i ?c ?s)"
      using moves [of ?c] inv(1)
      by (simp add: only_moves_def tasks_def in_hands_def shaped_def queued_def)
    moreover have "threads_ok (set_worker i ?c ?s)"
    proof (rule threads_ok_claims [OF inv(3)])
      show "starters j (set_worker i ?c ?s) = starters j s + of_bool (j = sd_live s)" for j
        using starters_set_worker [of i ?s j ?c] i pc grow_claims by auto
    qed (use grow_claims i pc room in auto)
    moreover have "waiting_ok (set_worker i ?c ?s)"
    proof -
      have w: "waiting_ok ?s" using inv(4) grow_claims go by (cases "sd_main s")
        (auto simp: waiting_ok_def elim: grow_seen.elims)
      have "threads_ok (set_worker i ?c ?s)" by fact
      have "waiting_ok (set_worker i ?c s)"
        by (rule waiting_ok_worker [OF inv(4,3) i run, where pc = ?c]) (use go pc in auto)
      with w show ?thesis using go by (cases "sd_main s") (auto simp: waiting_ok_def)
    qed
    ultimately show ?thesis using only_moves_conserved [OF _ inv(2)] grow_claims
      by (simp add: sched_core_def only_moves_def)
  next
    case (grow_starts index)
    have "0 < cnt (\<lambda>pc. worker_starts pc = Some index) (sd_workers s)"
      by (rule cnt_pos [of i]) (use i pc grow_starts in \<open>auto simp: max_workers_def\<close>)
    then have one: "0 < starters index s" by (simp add: starters_def)
    note j = about_to_start [OF inv(3) one]
    have ij: "i \<noteq> index" using j pc by auto
    let ?s = "set_worker index AtLoop s"
    let ?c = "Processing t p :: 'a worker_pc"
    have w: "only_moves s ?s" by (rule only_moves_worker [OF inv(1)]) (use j in auto)
    then have "only_moves ?s (set_worker i ?c ?s)"
      using i pc ij by (intro only_moves_worker) (auto simp: only_moves_def)
    with w have moved: "only_moves s (set_worker i ?c ?s)" by (simp add: only_moves_def)
    have "threads_ok (set_worker i ?c ?s)"
    proof (rule threads_ok_starts [OF inv(3) one])
      show "starters k (set_worker i ?c ?s) + of_bool (k = index) = starters k s" for k
        using starters_set_worker [of i ?s k ?c] starters_set_worker [of index s k AtLoop] i ij j pc grow_starts
        by auto
      show "started k (set_worker i ?c ?s) \<longleftrightarrow> started k s \<or> k = index" for k
        using j ij i pc started_set_worker [of index s k AtLoop] started_set_worker [of i ?s k ?c]
        by (auto simp: started_def)
    qed simp_all
    moreover have "waiting_ok (set_worker i ?c ?s)"
      using inv(4) go pos by (cases "sd_main s") (auto simp: waiting_ok_def)
    ultimately show ?thesis using only_moves_conserved [OF moved inv(2)] moved grow_starts
      by (simp add: sched_core_def only_moves_def)
  qed
qed

lemma main_waits_inv:
  assumes "sched_core s" and "sd_main s = Outside"
  shows "sched_core (s\<lparr>sd_main := WaitLoads\<rparr>)"
proof -
  have sh: "shaped s" "waiting_ok s" using assms(1) by (simp_all add: sched_core_def)
  have "only_moves s (s\<lparr>sd_main := WaitLoads\<rparr>)" by (rule only_moves_main [OF sh(1)]) (simp_all add: assms(2))
  from main_moves_inv [OF assms(1) this] sh(2) assms(2) show ?thesis by (simp add: waiting_ok_def)
qed

lemma sched_core_step: "sched_step blank s s' \<Longrightarrow> sched_core s \<Longrightarrow> claims_ok s \<Longrightarrow> sched_core s'"
  by (induction rule: sched_step.induct)
    (simp_all only: submit_inv submit_insert_inv main_grows_inv main_waits_inv wait_step_inv next_task_inv
      worker_loop_inv ctx_submit_inv ctx_insert_inv worker_grows_inv)

lemma list_all_update: "list_all P xs \<Longrightarrow> P x \<Longrightarrow> list_all P (xs[i := x])"
  using set_update_subset_insert [of xs i x] by (auto simp: list_all_iff)

lemma claims_ok_worker:
  assumes "claims_ok s" and "sd_workers s' = (sd_workers s)[i := pc]" and "claim_fits (max_workers s) (worker_claims pc)"
    and "sd_main s' = sd_main s \<or> main_claims (sd_main s') = None"
  shows "claims_ok s'"
  using assms by (auto simp: claims_ok_def max_workers_def intro: list_all_update)

lemma claims_ok_main:
  "claims_ok s \<Longrightarrow> sd_workers s' = sd_workers s \<Longrightarrow> claim_fits (max_workers s) (main_claims (sd_main s')) \<Longrightarrow> claims_ok s'"
  by (simp add: claims_ok_def max_workers_def)

lemma worker_claims_growing: "worker_claims (SubGrowing t p g) = main_claims (Growing g :: 'a main_pc)"
  for t :: 'a
  by (cases g) simp_all

lemma claims_ok_grow:
  assumes "grow_step g s g' s'" and "claims_ok s"
  shows "claims_ok s'" and "g' = Some g1 \<Longrightarrow> claim_fits (max_workers s') (main_claims (Growing g1 :: 'a main_pc))"
proof -
  show "claims_ok s'" using assms
    by (induction rule: grow_step.induct) (auto simp: set_worker_def claims_ok_def max_workers_def intro: list_all_update)
  show "g' = Some g1 \<Longrightarrow> claim_fits (max_workers s') (main_claims (Growing g1 :: 'a main_pc))"
    using assms by (induction rule: grow_step.induct) auto
qed

lemma worker_claims_got_or [simp]: "worker_claims next = None \<Longrightarrow> worker_claims (got_or next p task) = None"
  by (simp add: got_or_def split: option.splits)

lemma claims_ok_step: "sched_step blank s s' \<Longrightarrow> claims_ok s \<Longrightarrow> claims_ok s'"
proof (induction rule: sched_step.induct)
  case (main_submits s p t)
  then show ?case by (intro claims_ok_main [OF main_submits(3)]) (simp_all add: submit_def count_task_def)
next
  case (main_inserts s)
  then show ?case
    by (cases "sd_main s") (auto simp: submit_insert_def set_submitted_def intro!: claims_ok_main [OF main_inserts])
next
  case (main_grows s g g' s')
  note g = claims_ok_grow [OF main_grows(2,3)]
  show ?case by (rule claims_ok_main [OF g(1)]) (use g(2) in \<open>auto split: option.splits\<close>)
next
  case (main_waits s)
  then show ?case by (intro claims_ok_main [OF main_waits(2)]) simp_all
next
  case (main_goes_on s)
  then show ?case by (cases "sd_main s") (auto simp: wait_step_def intro!: claims_ok_main [OF main_goes_on])
next
  case (worker_searches i s lost)
  then show ?case
    by (auto simp: next_task_def set_worker_def set_own_queue_def set_submitted_def
        intro!: claims_ok_worker [OF worker_searches(2)] split: worker_pc.splits prod.splits)
next
  case (worker_goes_on i s)
  then show ?case
    by (auto simp: worker_loop_def set_worker_def Let_def intro!: claims_ok_worker [OF worker_goes_on(2)]
        split: worker_pc.splits)
next
  case (worker_submits i s p t)
  then show ?case
    by (auto simp: ctx_submit_def set_worker_def count_task_def intro!: claims_ok_worker [OF worker_submits(3)]
        split: worker_pc.splits)
next
  case (worker_inserts i s)
  then show ?case
    by (auto simp: ctx_insert_def set_worker_def set_own_queue_def intro!: claims_ok_worker [OF worker_inserts(2)]
        split: worker_pc.splits)
next
  case (worker_grows i s t p g g' s')
  note g = claims_ok_grow [OF worker_grows(3,4)]
  show ?case
    by (rule claims_ok_worker [OF g(1)])
      (use g(2) in \<open>auto simp: set_worker_def worker_claims_growing split: option.splits\<close>)
qed

lemma sched_inv_step: "sched_step blank s s' \<Longrightarrow> sched_inv s \<Longrightarrow> sched_inv s'"
  by (simp add: sched_inv_def sched_core_step claims_ok_step)

lemma sched_inv_steps: "(sched_step blank)\<^sup>*\<^sup>* s s' \<Longrightarrow> sched_inv s \<Longrightarrow> sched_inv s'"
  by (induction rule: rtranclp_induct) (simp_all add: sched_inv_step)

lemma sum_list_replicate_empty [simp]: "sum_list (replicate n {#}) = {#}"
  by (induction n) simp_all

lemma sched_inv_make: "sched_inv (sched_make blank k n)"
proof -
  have "shaped (sched_make blank k n)"
    by (auto simp: shaped_def sched_make_def max_workers_def priorities_def Let_def list_all_length)
  moreover have "tasks (sched_make blank k n) = {#}"
    by (simp add: tasks_def queued_def in_hands_def sched_make_def Let_def map_replicate sum_list_replicate)
  then have "conserved (sched_make blank k n)" by (simp add: conserved_tasks) (simp add: sched_make_def Let_def)
  moreover have "threads_ok (sched_make blank k n)"
    by (auto simp: threads_ok_def started_def starters_def sched_make_def Let_def max_workers_def cnt_zero)
  moreover have "waiting_ok (sched_make blank k n)"
    by (simp add: waiting_ok_def sched_make_def Let_def)
  moreover have "claims_ok (sched_make blank k n)"
    by (simp add: claims_ok_def sched_make_def Let_def list_all_iff)
  ultimately show ?thesis by (simp add: sched_inv_def sched_core_def)
qed

lemma sched_reachable: "(sched_step blank)\<^sup>*\<^sup>* (sched_make blank k n) s \<Longrightarrow> sched_inv s"
  by (rule sched_inv_steps [OF _ sched_inv_make])

lemma grow_step_max_workers: "grow_step g s g' s' \<Longrightarrow> max_workers s' = max_workers s"
  by (induction rule: grow_step.induct) simp_all

lemma max_workers_step: "sched_step blank s s' \<Longrightarrow> max_workers s' = max_workers s"
  by (induction rule: sched_step.induct)
    (auto simp: submit_def submit_insert_def wait_step_def next_task_def worker_loop_def ctx_submit_def
      ctx_insert_def Let_def grow_step_max_workers split: main_pc.splits worker_pc.splits prod.splits)

lemma max_workers_steps: "(sched_step blank)\<^sup>*\<^sup>* s s' \<Longrightarrow> max_workers s' = max_workers s"
  by (induction rule: rtranclp_induct) (simp_all add: max_workers_step)

subsection \<open>Properties\<close>

text \<open>
  C12: in every state the scheduler can reach, whatever the workers submit and whoever goes
  first, every task submitted has been processed, is in exactly one queue, or is in exactly
  one thread's hands; \<open>pending_tasks_\<close> counts the ones not processed.
\<close>

theorem no_task_lost:
  assumes "(sched_step blank)\<^sup>*\<^sup>* (sched_make blank k n) s"
  shows "sd_given s = sd_done s + queued s + in_hands s \<and> sd_pending s = size (queued s + in_hands s)"
  using sched_reachable [OF assms] by (simp add: sched_inv_def sched_core_def conserved_def)

text \<open>
  C13: once \<open>Wait\<close> joins the threads, all tasks ever submitted have been processed, no
  thread is about to start another, and when it returns every thread that was started has
  ended.
\<close>

theorem wait_waits_for_everything:
  assumes "(sched_step blank)\<^sup>*\<^sup>* (sched_make blank k n) s" and "stopping (sd_main s)"
  shows "sd_done s = sd_given s \<and> queued s = {#} \<and> in_hands s = {#} \<and> (\<forall>j. starters j s = 0) \<and>
    (sd_main s = Returned \<longrightarrow> list_all at_rest (sd_workers s))"
proof -
  note inv = sched_reachable [OF assms(1), unfolded sched_inv_def sched_core_def waiting_ok_def conserved_tasks]
  from inv assms(2) have p: "sd_pending s = 0" by (cases "sd_main s") auto
  with inv have t: "tasks s = {#}" by simp
  then have h: "queued s = {#}" "in_hands s = {#}" by (simp_all add: tasks_def)
  have "starters j s = 0" for j
  proof (rule ccontr)
    assume "starters j s \<noteq> 0"
    moreover have "main_starts (sd_main s) = None" using assms(2) by (cases "sd_main s") auto
    ultimately obtain pc where "pc \<in> set (sd_workers s)" "worker_starts pc = Some j"
      by (auto simp: starters_def cnt_zero)
    moreover from this(2) obtain t where "t \<in># in_hand pc" by (cases pc) auto
    ultimately have "t \<in># in_hands s" by (auto simp: in_hands_def in_sum_list_mset)
    with h(2) show False by simp
  qed
  with inv t h show ?thesis by auto
qed

text \<open>
  C37: the scheduler never has more threads than it was made for, at least one; each slot
  below \<open>live_threads_\<close> has had its thread started once, or has exactly one thread that is
  about to start it, and no other slot has.
\<close>

theorem threads_bounded:
  assumes "(sched_step blank)\<^sup>*\<^sup>* (sched_make blank k n) s"
  shows "max_workers s = max 1 n \<and> sd_live s \<le> max_workers s \<and>
    (\<forall>j. of_bool (started j s) + starters j s = (of_bool (j < sd_live s) :: nat))"
proof -
  have "max_workers (sched_make blank k n) = max 1 n"
    by (simp add: sched_make_def max_workers_def Let_def)
  with sched_reachable [OF assms] max_workers_steps [OF assms] show ?thesis
    by (simp add: sched_inv_def sched_core_def threads_ok_def)
qed

text \<open>
  No wake-up is lost. While the thread in \<open>Wait\<close> sleeps there is work left or a worker
  about to notify it; and while there is work left there is a thread to do it, unless the
  submitting thread is still inside \<open>Submit\<close>.
\<close>

theorem sleeper_is_woken:
  assumes "(sched_step blank)\<^sup>*\<^sup>* (sched_make blank k n) s"
  shows "(sd_main s = Asleep \<longrightarrow> 0 < sd_pending s \<or> Notifying \<in> set (sd_workers s)) \<and>
    (0 < sd_pending s \<longrightarrow> 0 < sd_live s \<or> submitting (sd_main s))"
  using sched_reachable [OF assms] by (auto simp: sched_inv_def sched_core_def waiting_ok_def)

subsection \<open>A run\<close>

text \<open>One worker, one priority, one task: submitted, found, processed, waited for.\<close>

definition run_state :: "nat chase_lev \<Rightarrow> nat \<Rightarrow> bool \<Rightarrow> nat \<Rightarrow> nat main_pc \<Rightarrow> nat worker_pc \<Rightarrow> nat multiset
    \<Rightarrow> nat multiset \<Rightarrow> nat sched" where
  "run_state q pending stop live m w g d =
     \<lparr>sd_queues = [[cl_make 0]], sd_submitted = [q], sd_pending = pending, sd_stop = stop, sd_live = live,
      sd_main = m, sd_workers = [w], sd_given = g, sd_done = d\<rparr>"

definition full_queue :: "nat chase_lev" where
  "full_queue = cl_insert 0 7 (cl_make 0)"

definition emptied_queue :: "nat chase_lev" where
  "emptied_queue = snd (cl_steal full_queue)"

lemma run_queues: "cl_steal full_queue = (Some 7, emptied_queue)" "cl_take (cl_make (0::nat)) = (None, cl_make 0)"
proof -
  have f: "cl_ok full_queue" "items full_queue = [7]"
    using cl.insert [OF cl_make_ok(1), of "0::nat" 7 0] by (simp_all add: full_queue_def)
  show "cl_steal full_queue = (Some 7, emptied_queue)"
    using cl.steal [OF f(1), of "fst (cl_steal full_queue)"] f(2)
    by (simp add: emptied_queue_def prod_eq_iff)
  show "cl_take (cl_make (0::nat)) = (None, cl_make 0)"
    by (simp add: cl_take_def cl_make_def)
qed

lemmas run_defs = run_state_def submit_def submit_insert_def count_task_def set_submitted_def set_own_queue_def
  set_worker_def wait_step_def next_task_def worker_loop_def max_workers_def priorities_def own_queue_def
  take_or_lose_def steal_or_lose_def got_or_def run_queues full_queue_def [symmetric]

lemma run_submits:
  "(sched_step 0)\<^sup>*\<^sup>* (sched_make 0 1 1) (run_state full_queue 1 False 1 WaitLoads AtLoop {#7#} {#})"
proof -
  note one = rtranclp.rtrancl_into_rtrancl [where r = "sched_step (0::nat)"]
  let ?e = "cl_make (0::nat)" and ?f = full_queue
  have "sched_make 0 1 1 = run_state ?e 0 False 0 Outside Unstarted {#} {#}"
    by (simp add: sched_make_def run_state_def)
  moreover have "sched_step 0 (run_state ?e 0 False 0 Outside Unstarted {#} {#})
      (run_state ?e 1 False 0 (Counted 7 0) Unstarted {#7#} {#})"
    using main_submits [of "run_state ?e 0 False 0 Outside Unstarted {#} {#}" 0 0 7] by (simp add: run_defs)
  moreover have "sched_step 0 (run_state ?e 1 False 0 (Counted 7 0) Unstarted {#7#} {#})
      (run_state ?f 1 False 0 (Growing GrowLoad) Unstarted {#7#} {#})"
    using main_inserts [of 0 "run_state ?e 1 False 0 (Counted 7 0) Unstarted {#7#} {#}"] by (simp add: run_defs)
  moreover have "sched_step 0 (run_state ?f 1 False 0 (Growing GrowLoad) Unstarted {#7#} {#})
      (run_state ?f 1 False 0 (Growing (GrowTest 0)) Unstarted {#7#} {#})"
    using main_grows [OF _ grow_loads, of "run_state ?f 1 False 0 (Growing GrowLoad) Unstarted {#7#} {#}" 0]
    by (simp add: run_defs)
  moreover have "sched_step 0 (run_state ?f 1 False 0 (Growing (GrowTest 0)) Unstarted {#7#} {#})
      (run_state ?f 1 False 0 (Growing (GrowClaim 0)) Unstarted {#7#} {#})"
    using main_grows [OF _ grow_tests, of "run_state ?f 1 False 0 (Growing (GrowTest 0)) Unstarted {#7#} {#}" 0 0]
    by (simp add: run_defs)
  moreover have "sched_step 0 (run_state ?f 1 False 0 (Growing (GrowClaim 0)) Unstarted {#7#} {#})
      (run_state ?f 1 False 1 (Growing (GrowStart 0)) Unstarted {#7#} {#})"
    using main_grows [OF _ grow_claims, of "run_state ?f 1 False 0 (Growing (GrowClaim 0)) Unstarted {#7#} {#}" 0 0]
    by (simp add: run_defs)
  moreover have "sched_step 0 (run_state ?f 1 False 1 (Growing (GrowStart 0)) Unstarted {#7#} {#})
      (run_state ?f 1 False 1 Outside AtLoop {#7#} {#})"
    using main_grows [OF _ grow_starts, of "run_state ?f 1 False 1 (Growing (GrowStart 0)) Unstarted {#7#} {#}" 0 0]
    by (simp add: run_defs)
  moreover have "sched_step 0 (run_state ?f 1 False 1 Outside AtLoop {#7#} {#})
      (run_state ?f 1 False 1 WaitLoads AtLoop {#7#} {#})"
    using main_waits [of "run_state ?f 1 False 1 Outside AtLoop {#7#} {#}" 0] by (simp add: run_defs)
  ultimately show ?thesis by (metis (no_types) one rtranclp.rtrancl_refl)
qed

lemma run_processes:
  "(sched_step 0)\<^sup>*\<^sup>* (run_state full_queue 1 False 1 WaitLoads AtLoop {#7#} {#})
    (run_state emptied_queue 1 False 1 WaitLoads (Processed 7 0) {#7#} {#})"
proof -
  note one = rtranclp.rtrancl_into_rtrancl [where r = "sched_step (0::nat)"]
  let ?e = emptied_queue and ?f = full_queue
  have "sched_step 0 (run_state ?f 1 False 1 WaitLoads AtLoop {#7#} {#})
      (run_state ?f 1 False 1 WaitLoads (TakesOwn 0) {#7#} {#})"
    using worker_goes_on [of 0 "run_state ?f 1 False 1 WaitLoads AtLoop {#7#} {#}" 0] by (simp add: run_defs)
  moreover have "sched_step 0 (run_state ?f 1 False 1 WaitLoads (TakesOwn 0) {#7#} {#})
      (run_state ?f 1 False 1 WaitLoads (StealsFrom 0 0) {#7#} {#})"
    using worker_searches [of 0 "run_state ?f 1 False 1 WaitLoads (TakesOwn 0) {#7#} {#}" 0 False] by (simp add: run_defs)
  moreover have "sched_step 0 (run_state ?f 1 False 1 WaitLoads (StealsFrom 0 0) {#7#} {#})
      (run_state ?f 1 False 1 WaitLoads (StealsFrom 0 1) {#7#} {#})"
    using worker_searches [of 0 "run_state ?f 1 False 1 WaitLoads (StealsFrom 0 0) {#7#} {#}" 0 False] by (simp add: run_defs)
  moreover have "sched_step 0 (run_state ?f 1 False 1 WaitLoads (StealsFrom 0 1) {#7#} {#})
      (run_state ?f 1 False 1 WaitLoads (TakesSubmitted 0) {#7#} {#})"
    using worker_searches [of 0 "run_state ?f 1 False 1 WaitLoads (StealsFrom 0 1) {#7#} {#}" 0 False] by (simp add: run_defs)
  moreover have "sched_step 0 (run_state ?f 1 False 1 WaitLoads (TakesSubmitted 0) {#7#} {#})
      (run_state ?e 1 False 1 WaitLoads (Processing 7 0) {#7#} {#})"
    using worker_searches [of 0 "run_state ?f 1 False 1 WaitLoads (TakesSubmitted 0) {#7#} {#}" 0 False] by (simp add: run_defs)
  moreover have "sched_step 0 (run_state ?e 1 False 1 WaitLoads (Processing 7 0) {#7#} {#})
      (run_state ?e 1 False 1 WaitLoads (Processed 7 0) {#7#} {#})"
    using worker_goes_on [of 0 "run_state ?e 1 False 1 WaitLoads (Processing 7 0) {#7#} {#}" 0] by (simp add: run_defs)
  ultimately show ?thesis by (metis (no_types) one rtranclp.rtrancl_refl)
qed

lemma run_waits:
  "(sched_step 0)\<^sup>*\<^sup>* (run_state emptied_queue 1 False 1 WaitLoads (Processed 7 0) {#7#} {#})
    (run_state emptied_queue 0 True 1 Returned Exited {#7#} {#7#})"
proof -
  note one = rtranclp.rtrancl_into_rtrancl [where r = "sched_step (0::nat)"]
  let ?e = emptied_queue and ?f = full_queue
  have "sched_step 0 (run_state ?e 1 False 1 WaitLoads (Processed 7 0) {#7#} {#})
      (run_state ?e 1 False 1 (WaitLoaded 1) (Processed 7 0) {#7#} {#})"
    using main_goes_on [of 0 "run_state ?e 1 False 1 WaitLoads (Processed 7 0) {#7#} {#}"] by (simp add: run_defs)
  moreover have "sched_step 0 (run_state ?e 1 False 1 (WaitLoaded 1) (Processed 7 0) {#7#} {#})
      (run_state ?e 1 False 1 Asleep (Processed 7 0) {#7#} {#})"
    using main_goes_on [of 0 "run_state ?e 1 False 1 (WaitLoaded 1) (Processed 7 0) {#7#} {#}"] by (simp add: run_defs)
  moreover have "sched_step 0 (run_state ?e 1 False 1 Asleep (Processed 7 0) {#7#} {#})
      (run_state ?e 0 False 1 Asleep Notifying {#7#} {#7#})"
    using worker_goes_on [of 0 "run_state ?e 1 False 1 Asleep (Processed 7 0) {#7#} {#}" 0] by (simp add: run_defs)
  moreover have "sched_step 0 (run_state ?e 0 False 1 Asleep Notifying {#7#} {#7#})
      (run_state ?e 0 False 1 WaitLoads AtLoop {#7#} {#7#})"
    using worker_goes_on [of 0 "run_state ?e 0 False 1 Asleep Notifying {#7#} {#7#}" 0] by (simp add: run_defs)
  moreover have "sched_step 0 (run_state ?e 0 False 1 WaitLoads AtLoop {#7#} {#7#})
      (run_state ?e 0 False 1 WaitStops AtLoop {#7#} {#7#})"
    using main_goes_on [of 0 "run_state ?e 0 False 1 WaitLoads AtLoop {#7#} {#7#}"] by (simp add: run_defs)
  moreover have "sched_step 0 (run_state ?e 0 False 1 WaitStops AtLoop {#7#} {#7#})
      (run_state ?e 0 True 1 (Joining 0) AtLoop {#7#} {#7#})"
    using main_goes_on [of 0 "run_state ?e 0 False 1 WaitStops AtLoop {#7#} {#7#}"] by (simp add: run_defs)
  moreover have "sched_step 0 (run_state ?e 0 True 1 (Joining 0) AtLoop {#7#} {#7#})
      (run_state ?e 0 True 1 (Joining 0) Exited {#7#} {#7#})"
    using worker_goes_on [of 0 "run_state ?e 0 True 1 (Joining 0) AtLoop {#7#} {#7#}" 0] by (simp add: run_defs)
  moreover have "sched_step 0 (run_state ?e 0 True 1 (Joining 0) Exited {#7#} {#7#})
      (run_state ?e 0 True 1 (Joining 1) Exited {#7#} {#7#})"
    using main_goes_on [of 0 "run_state ?e 0 True 1 (Joining 0) Exited {#7#} {#7#}"] by (simp add: run_defs)
  moreover have "sched_step 0 (run_state ?e 0 True 1 (Joining 1) Exited {#7#} {#7#})
      (run_state ?e 0 True 1 Returned Exited {#7#} {#7#})"
    using main_goes_on [of 0 "run_state ?e 0 True 1 (Joining 1) Exited {#7#} {#7#}"] by (simp add: run_defs)
  ultimately show ?thesis by (metis (no_types) one rtranclp.rtrancl_refl)
qed

definition after_run :: "nat sched" where
  "after_run = run_state emptied_queue 0 True 1 Returned Exited {#7#} {#7#}"

lemma run_reaches: "(sched_step 0)\<^sup>*\<^sup>* (sched_make 0 1 1) after_run"
  unfolding after_run_def by (rule rtranclp_trans [OF rtranclp_trans [OF run_submits run_processes] run_waits])

theorem no_task_lost_witness:
  "sd_given after_run = sd_done after_run + queued after_run + in_hands after_run \<and>
     sd_pending after_run = size (queued after_run + in_hands after_run)"
  by (rule no_task_lost [OF run_reaches])

theorem wait_waits_for_everything_witness:
  "sd_main after_run = Returned \<and> sd_done after_run = sd_given after_run \<and> queued after_run = {#} \<and>
    in_hands after_run = {#} \<and> (\<forall>j. starters j after_run = 0) \<and> list_all at_rest (sd_workers after_run)"
proof -
  have r: "sd_main after_run = Returned" by (simp add: after_run_def run_state_def)
  with wait_waits_for_everything [OF run_reaches] show ?thesis by simp
qed

theorem threads_bounded_witness:
  "max_workers after_run = max 1 1 \<and> sd_live after_run \<le> max_workers after_run \<and>
    (\<forall>j. of_bool (started j after_run) + starters j after_run = (of_bool (j < sd_live after_run) :: nat))"
  by (rule threads_bounded [OF run_reaches])

text \<open>The same run, stopped when \<open>Wait\<close> has gone to sleep.\<close>

definition busy_run :: "nat sched" where
  "busy_run = run_state full_queue 1 False 1 Asleep AtLoop {#7#} {#}"

lemma busy_run_reached: "(sched_step 0)\<^sup>*\<^sup>* (sched_make 0 1 1) busy_run"
proof -
  let ?s = "\<lambda>pc. run_state full_queue 1 False 1 pc AtLoop {#7#} {#}"
  have "sched_step 0 (?s WaitLoads) (?s (WaitLoaded 1))" "sched_step 0 (?s (WaitLoaded 1)) (?s Asleep)"
    using main_goes_on [of 0 "?s WaitLoads"] main_goes_on [of 0 "?s (WaitLoaded 1)"]
    by (simp_all add: wait_step_def run_state_def)
  with run_submits show ?thesis unfolding busy_run_def by (metis (no_types) rtranclp.rtrancl_into_rtrancl)
qed

theorem sleeper_is_woken_witness:
  "sd_main busy_run = Asleep \<and> (0 < sd_pending busy_run \<or> Notifying \<in> set (sd_workers busy_run)) \<and>
    (0 < sd_live busy_run \<or> submitting (sd_main busy_run))"
proof -
  have a: "sd_main busy_run = Asleep" and p: "0 < sd_pending busy_run"
    by (simp_all add: busy_run_def run_state_def)
  with sleeper_is_woken [OF busy_run_reached] show ?thesis by simp
qed

end
