(* ===== verification/Scheduler_Progress.thy ===== *)
theory Scheduler_Progress
  imports Scheduler
begin

section \<open>The scheduler can always come to its end\<close>

text \<open>
  From every state the threads can reach, they can go on to the return of \<open>Wait\<close>: nothing
  they wait for stays away for good. The measure counts what is left of each thread's call
  and of the tasks in the queues, when \<open>Process\<close> submits nothing more.
\<close>

subsection \<open>Steps of the scheduler's own\<close>

text \<open>
  The steps that are left when no one submits and no call of \<open>Process\<close> returns: whatever
  runs on top of the scheduler has no part in them.
\<close>

fun inside :: "'t worker_pc \<Rightarrow> bool" where
  "inside (Processing t p) \<longleftrightarrow> True"
| "inside (SubCounted t p t' p') \<longleftrightarrow> True"
| "inside (SubGrowing t p g) \<longleftrightarrow> True"
| "inside _ \<longleftrightarrow> False"

fun searching :: "'t worker_pc \<Rightarrow> bool" where
  "searching (TakesOwn p) \<longleftrightarrow> True"
| "searching (StealsFrom p v) \<longleftrightarrow> True"
| "searching (TakesSubmitted p) \<longleftrightarrow> True"
| "searching _ \<longleftrightarrow> False"

inductive quiet_step :: "'t \<Rightarrow> 't sched \<Rightarrow> 't sched \<Rightarrow> bool" for blank where
  quiet_inserts: "quiet_step blank s (submit_insert blank s)"
| quiet_grows: "sd_main s = Growing g \<Longrightarrow> grow_step g s g' s' \<Longrightarrow>
    quiet_step blank s (s'\<lparr>sd_main := (case g' of None \<Rightarrow> Outside | Some g \<Rightarrow> Growing g)\<rparr>)"
| quiet_waits: "sd_main s = Outside \<Longrightarrow> quiet_step blank s (s\<lparr>sd_main := WaitLoads\<rparr>)"
| quiet_goes_on: "quiet_step blank s (wait_step s)"
| quiet_searches: "i < max_workers s \<Longrightarrow> searching (sd_workers s ! i) \<Longrightarrow> quiet_step blank s (next_task lost i s)"
| quiet_loops: "i < max_workers s \<Longrightarrow> \<not> inside (sd_workers s ! i) \<Longrightarrow> quiet_step blank s (worker_loop i s)"
| quiet_ctx_inserts: "i < max_workers s \<Longrightarrow> quiet_step blank s (ctx_insert blank i s)"
| quiet_ctx_grows: "i < max_workers s \<Longrightarrow> sd_workers s ! i = SubGrowing t p g \<Longrightarrow> grow_step g s g' s' \<Longrightarrow>
    quiet_step blank s (set_worker i (case g' of None \<Rightarrow> Processing t p | Some g \<Rightarrow> SubGrowing t p g) s')"

lemma quiet_sched_step: "quiet_step blank s s' \<Longrightarrow> sched_step blank s s'"
  by (induction rule: quiet_step.induct) (auto intro: sched_step.intros)

lemma quiet_sched_steps: "(quiet_step blank)\<^sup>*\<^sup>* s s' \<Longrightarrow> (sched_step blank)\<^sup>*\<^sup>* s s'"
  by (induction rule: rtranclp_induct) (auto intro: rtranclp.rtrancl_into_rtrancl quiet_sched_step)

subsection \<open>What is left to do\<close>

fun grow_left :: "grow \<Rightarrow> nat" where
  "grow_left (GrowStart index) = 1"
| "grow_left g = 2"

text \<open>\<open>k\<close> priorities, \<open>n\<close> workers. A task in a queue counts for 5.\<close>

fun worker_left :: "nat \<Rightarrow> nat \<Rightarrow> 't worker_pc \<Rightarrow> nat" where
  "worker_left k n Unstarted = 2"
| "worker_left k n AtLoop = 1"
| "worker_left k n (TakesOwn p) = (k - p) * (n + 3) + 2"
| "worker_left k n (StealsFrom p v) = (k - p) * (n + 3) + 1 - min v n"
| "worker_left k n (TakesSubmitted p) = (k - p) * (n + 3) - n"
| "worker_left k n (Processing t p) = 4"
| "worker_left k n (SubCounted t p t' p') = 13"
| "worker_left k n (SubGrowing t p g) = 4 + grow_left g"
| "worker_left k n (Processed t p) = 3"
| "worker_left k n Notifying = 2"
| "worker_left k n Exited = 0"

fun main_left :: "nat \<Rightarrow> 't main_pc \<Rightarrow> nat" where
  "main_left n Outside = n + 6"
| "main_left n (Counted t p) = n + 15"
| "main_left n (Growing g) = n + 6 + grow_left g"
| "main_left n WaitLoads = n + 3"
| "main_left n (WaitLoaded owed) = n + 4"
| "main_left n Asleep = n + 5"
| "main_left n WaitStops = n + 2"
| "main_left n (Joining j) = n - j + 1"
| "main_left n Returned = 0"

definition workers_left :: "'t sched \<Rightarrow> nat" where
  "workers_left s = (\<Sum>pc\<leftarrow>sd_workers s. worker_left (priorities s) (max_workers s) pc)"

definition left_to_do :: "'t sched \<Rightarrow> nat" where
  "left_to_do s = 5 * size (queued s) + workers_left s + main_left (max_workers s) (sd_main s)"

lemma workers_left_set_worker:
  "i < max_workers s \<Longrightarrow> workers_left (set_worker i pc s) + worker_left (priorities s) (max_workers s) (sd_workers s ! i) =
    workers_left s + worker_left (priorities s) (max_workers s) pc"
  using sum_list_update_add [of i "sd_workers s" "worker_left (priorities s) (max_workers s)" pc]
  by (simp add: workers_left_def max_workers_def)

lemma workers_left_cong:
  "sd_workers s' = sd_workers s \<Longrightarrow> priorities s' = priorities s \<Longrightarrow> workers_left s' = workers_left s"
  by (simp add: workers_left_def max_workers_def)

definition advances :: "'t \<Rightarrow> 't sched \<Rightarrow> bool" where
  "advances blank s \<longleftrightarrow> (\<exists>s'. (quiet_step blank)\<^sup>*\<^sup>* s s' \<and> left_to_do s' < left_to_do s)"

lemma advancesI: "(quiet_step blank)\<^sup>*\<^sup>* s s' \<Longrightarrow> left_to_do s' < left_to_do s \<Longrightarrow> advances blank s"
  by (auto simp: advances_def)

text \<open>A worker's own step.\<close>

lemma worker_less:
  assumes "i < max_workers s" and "sd_workers s' = sd_workers s" and "priorities s' = priorities s"
    and "5 * size (queued s') + worker_left (priorities s) (max_workers s) pc + main_left (max_workers s) (sd_main s') <
      5 * size (queued s) + worker_left (priorities s) (max_workers s) (sd_workers s ! i) + main_left (max_workers s) (sd_main s)"
  shows "left_to_do (set_worker i pc s') < left_to_do s"
proof -
  have m: "max_workers s' = max_workers s" using assms(2) by (simp add: max_workers_def)
  have "workers_left (set_worker i pc s') + worker_left (priorities s) (max_workers s) (sd_workers s ! i) =
      workers_left s + worker_left (priorities s) (max_workers s) pc"
    using workers_left_set_worker [of i s' pc] workers_left_cong [OF assms(2,3)] assms(1-3) m by simp
  with assms(4) m show ?thesis by (simp add: left_to_do_def)
qed

lemma worker_advances:
  assumes "(quiet_step blank)\<^sup>*\<^sup>* s (set_worker i pc s')" and "i < max_workers s"
    and "sd_workers s' = sd_workers s" and "priorities s' = priorities s"
    and "5 * size (queued s') + worker_left (priorities s) (max_workers s) pc + main_left (max_workers s) (sd_main s') <
      5 * size (queued s) + worker_left (priorities s) (max_workers s) (sd_workers s ! i) + main_left (max_workers s) (sd_main s)"
  shows "advances blank s"
by (rule advancesI [OF assms(1) worker_less [OF assms(2-5)]])

lemma main_advances:
  assumes "(quiet_step blank)\<^sup>*\<^sup>* s s'" and "sd_workers s' = sd_workers s" and "priorities s' = priorities s"
    and "5 * size (queued s') + main_left (max_workers s) (sd_main s') <
      5 * size (queued s) + main_left (max_workers s) (sd_main s)"
  shows "advances blank s"
  using workers_left_cong [OF assms(2,3)] assms(2,4)
  by (intro advancesI [OF assms(1)]) (simp add: left_to_do_def max_workers_def)

subsection \<open>Growing comes to an end\<close>

text \<open>
  With no other thread in between, a thread in \<open>MaybeGrowThreads\<close> tests twice at most, and
  then has enough threads or claims a slot.
\<close>

fun can_end :: "grow \<Rightarrow> 't sched \<Rightarrow> bool" where
  "can_end (GrowTest index) s \<longleftrightarrow> max_workers s \<le> index \<or> sd_pending s = 0"
| "can_end (GrowClaim index) s \<longleftrightarrow> sd_live s = index"
| "can_end _ s \<longleftrightarrow> False"

lemma can_end_step:
  "can_end g s \<Longrightarrow> grow_step g s None s \<or> grow_step g s (Some (GrowStart (sd_live s))) (s\<lparr>sd_live := sd_live s + 1\<rparr>)"
  using grow_enough grow_claims [OF refl, of s] by (cases g) auto

lemma can_end_simps [simp]:
  "can_end g (set_worker i pc s) = can_end g s" "can_end g (s\<lparr>sd_main := m\<rparr>) = can_end g s"
  by (cases g; simp)+

inductive retries :: "'t sched \<Rightarrow> grow \<Rightarrow> grow \<Rightarrow> bool" for s where
  retry_loads: "retries s GrowLoad (GrowTest (sd_live s))"
| retry_tests: "index < max_workers s \<Longrightarrow> sd_pending s \<noteq> 0 \<Longrightarrow> retries s (GrowTest index) (GrowClaim index)"
| retry_again: "retries s (GrowClaim index) (GrowTest (sd_live s))"

lemma retries_step:
  assumes "retries s g g'" and "max_workers s' = max_workers s" and "sd_pending s' = sd_pending s" and "sd_live s' = sd_live s"
  shows "grow_step g s' (Some g') s'"
  using assms grow_loads [of s'] grow_again [of _ s'] by (induction rule: retries.induct) (auto intro: grow_tests)

lemma retries_end:
  assumes "\<nexists>index. g = GrowStart index"
  obtains g' where "(retries s)\<^sup>*\<^sup>* g g'" and "can_end g' s"
proof -
  have live: "\<exists>g'. (retries s)\<^sup>*\<^sup>* (GrowTest index) g' \<and> can_end g' s" if "index = sd_live s" for index
  proof (cases "can_end (GrowTest index) s")
    case False
    then have "retries s (GrowTest index) (GrowClaim index)" by (auto intro: retry_tests)
    with that show ?thesis by (intro exI [of _ "GrowClaim index"]) auto
  qed auto
  have claim: "\<exists>g'. (retries s)\<^sup>*\<^sup>* (GrowClaim index) g' \<and> can_end g' s" for index
    using live [OF refl] by (meson converse_rtranclp_into_rtranclp retry_again)
  have test: "\<exists>g'. (retries s)\<^sup>*\<^sup>* (GrowTest index) g' \<and> can_end g' s" for index
  proof (cases "can_end (GrowTest index) s")
    case False
    then have "retries s (GrowTest index) (GrowClaim index)" by (auto intro: retry_tests)
    with claim [of index] show ?thesis by (meson converse_rtranclp_into_rtranclp)
  qed auto
  have "\<exists>g'. (retries s)\<^sup>*\<^sup>* g g' \<and> can_end g' s"
  proof (cases g)
    case GrowLoad
    with test [of "sd_live s"] show ?thesis by (metis converse_rtranclp_into_rtranclp retry_loads)
  qed (use test claim assms in auto)
  with that show ?thesis by blast
qed

lemma grow_left_2: "\<nexists>index. g = GrowStart index \<Longrightarrow> grow_left g = 2"
  by (cases g) auto

lemma grow_left_pos [simp]: "0 < grow_left g"
  by (cases g) simp_all

lemma rtranclp_image:
  assumes "\<And>x y. r x y \<Longrightarrow> q (f x) (f y)" and "r\<^sup>*\<^sup>* x y"
  shows "q\<^sup>*\<^sup>* (f x) (f y)"
  using assms(2) by (induction rule: rtranclp_induct) (auto intro: rtranclp.rtrancl_into_rtrancl assms(1))

lemma set_worker_idle: "sd_workers s ! i = pc \<Longrightarrow> set_worker i pc s = s"
  by (auto simp: set_worker_def)

lemma set_worker_twice [simp]: "set_worker i pc (set_worker i pc' s) = set_worker i pc s"
  by (simp add: set_worker_def)

lemma main_grow_advances:
  assumes inv: "sched_inv s" and g: "sd_main s = Growing g"
  shows "advances blank s"
proof -
  have inv': "threads_ok s" using inv by (simp add: sched_inv_def sched_core_def)
  note step = quiet_grows [OF g, of _ _ blank]
  show ?thesis
  proof (cases "\<exists>index. g = GrowStart index")
    case True
    then obtain index where start: "g = GrowStart index" by blast
    have "0 < starters index s" using g start by (simp add: starters_def)
    note u = about_to_start [OF inv' this]
    let ?s = "s\<lparr>sd_main := Outside\<rparr>"
    have eq: "(set_worker index AtLoop s)\<lparr>sd_main := Outside\<rparr> = set_worker index AtLoop ?s" by (simp add: set_worker_def)
    have "quiet_step blank s (set_worker index AtLoop ?s)"
      using step [of None "set_worker index AtLoop s"] start by (simp add: grow_starts eq)
    then show ?thesis
      by (rule worker_advances [OF r_into_rtranclp]) (use u g start in auto)
  next
    case False
    let ?t = "\<lambda>g. s\<lparr>sd_main := Growing g\<rparr>"
    obtain g' where tries: "(retries s)\<^sup>*\<^sup>* g g'" and e: "can_end g' s" using False by (blast intro: retries_end)
    have one: "quiet_step blank (?t a) (?t b)" if "retries s a b" for a b
      using quiet_grows [of "?t a" a, OF _ retries_step [OF that, of "?t a"]] by simp
    have "?t g = s" using g by simp
    with rtranclp_image [of "retries s" "quiet_step blank" ?t, OF one tries] have r: "(quiet_step blank)\<^sup>*\<^sup>* s (?t g')" by simp
    have "can_end g' (?t g')" using e by simp
    note last = can_end_step [OF this] and step2 = quiet_grows [where s = "?t g'", OF _ , of g' _ _ blank]
    show ?thesis
    proof (cases "grow_step g' (?t g') None (?t g')")
      case True
      then have "quiet_step blank (?t g') (s\<lparr>sd_main := Outside\<rparr>)" using step2 [of None "?t g'"] by simp
      from rtranclp.rtrancl_into_rtrancl [OF r this] show ?thesis
        by (rule main_advances) (use g in simp_all)
    next
      case none: False
      let ?s = "s\<lparr>sd_live := sd_live s + 1, sd_main := Growing (GrowStart (sd_live s))\<rparr>"
      from none last have "quiet_step blank (?t g') ?s"
        using step2 [of "Some (GrowStart (sd_live s))" "(?t g')\<lparr>sd_live := sd_live s + 1\<rparr>"] by simp
      from rtranclp.rtrancl_into_rtrancl [OF r this] show ?thesis
        by (rule main_advances) (use g False grow_left_2 [of g] in auto)
    qed
  qed
qed

subsection \<open>Workers\<close>

text \<open>A worker that finds nothing changes nothing but its place in the search.\<close>

lemma own_queue_idle [simp]: "set_own_queue i p (own_queue i p s) s = s"
  by (simp add: set_own_queue_def own_queue_def)

lemma submitted_idle [simp]: "set_submitted p (sd_submitted s ! p) s = s"
  by (simp add: set_submitted_def)

lemma next_task_lost:
  assumes "i < max_workers s" and "length (sd_queues s) = max_workers s"
  shows "sd_workers s ! i = TakesOwn p \<Longrightarrow>
      next_task True i s = set_worker i (if p < priorities s then StealsFrom p 0 else AtLoop) s"
    "sd_workers s ! i = StealsFrom p v \<Longrightarrow>
      next_task True i s = set_worker i (if v < max_workers s then StealsFrom p (v + 1) else TakesSubmitted p) s"
    "sd_workers s ! i = TakesSubmitted p \<Longrightarrow> next_task True i s = set_worker i (TakesOwn (p + 1)) s"
  using assms by (simp_all add: next_task_def take_or_lose_def steal_or_lose_def got_or_def)

lemma search_left:
  assumes "p < k"
  shows "worker_left k n (StealsFrom p 0) < worker_left k n (TakesOwn p)"
    "v < n \<Longrightarrow> worker_left k n (StealsFrom p (v + 1)) < worker_left k n (StealsFrom p v)"
    "n \<le> v \<Longrightarrow> worker_left k n (TakesSubmitted p) < worker_left k n (StealsFrom p v)"
    "worker_left k n (TakesOwn (p + 1)) < worker_left k n (TakesSubmitted p)"
proof -
  obtain j where j: "k - p = Suc j" using assms by (metis Suc_diff_Suc)
  then have "k - (p + 1) = j" by simp
  with j show "worker_left k n (StealsFrom p 0) < worker_left k n (TakesOwn p)"
    "v < n \<Longrightarrow> worker_left k n (StealsFrom p (v + 1)) < worker_left k n (StealsFrom p v)"
    "n \<le> v \<Longrightarrow> worker_left k n (TakesSubmitted p) < worker_left k n (StealsFrom p v)"
    "worker_left k n (TakesOwn (p + 1)) < worker_left k n (TakesSubmitted p)"
    by auto
qed

lemma searching_advances:
  assumes "sched_inv s" and i: "i < max_workers s"
    and at: "searching (sd_workers s ! i)"
  shows "advances blank s"
proof -
  have sh: "shaped s" using assms(1) by (simp add: sched_inv_def sched_core_def)
  note lost = next_task_lost [OF i shapedD(2) [OF sh]] and fits = shapedD(6) [OF sh i]
  have go: "advances blank s" if "next_task True i s = set_worker i pc s"
    "worker_left (priorities s) (max_workers s) pc < worker_left (priorities s) (max_workers s) (sd_workers s ! i)" for pc
    using quiet_searches [OF i, of blank True] that i at
    by (intro worker_advances [where s' = s and pc = pc and i = i] r_into_rtranclp) simp_all
  show ?thesis
  proof (cases "sd_workers s ! i")
    case (TakesOwn p)
    show ?thesis by (rule go [OF lost(1) [OF TakesOwn]]) (use TakesOwn search_left(1) in auto)
  next
    case (StealsFrom p v)
    with fits have "p < priorities s" by simp
    then show ?thesis using search_left(2,3) [of p "priorities s"] StealsFrom by (intro go [OF lost(2) [OF StealsFrom]]) auto
  next
    case (TakesSubmitted p)
    with fits have "p < priorities s" by simp
    then show ?thesis
      using search_left(4) [of p "priorities s"] TakesSubmitted by (intro go [OF lost(3) [OF TakesSubmitted]]) auto
  qed (use at in simp_all)
qed

lemma ctx_insert_advances:
  assumes inv: "sched_inv s" and i: "i < max_workers s" and pc: "sd_workers s ! i = SubCounted t p t' p'"
  shows "advances blank s"
proof -
  have sh: "shaped s" using inv by (simp add: sched_inv_def sched_core_def)
  have p: "p' < priorities s" using shapedD(6) [OF sh i] pc by simp
  let ?q = "cl_insert blank t' (own_queue i p' s)"
  let ?s = "set_own_queue i p' ?q s"
  note ok = cl.insert_mset [OF shapedD(4) [OF sh i p], of blank t']
  have q: "queued ?s = add_mset t' (queued s)"
    using queued_set_own_queue [of i s p' ?q] shapedD(2,3) [OF sh] i p ok by simp
  have "quiet_step blank s (set_worker i (SubGrowing t p GrowLoad) ?s)"
    using quiet_ctx_inserts [OF i, of blank] pc by (simp add: ctx_insert_def)
  then show ?thesis by (rule worker_advances [OF r_into_rtranclp]) (use i pc q in simp_all)
qed

lemma worker_grow_advances:
  assumes inv: "sched_inv s" and i: "i < max_workers s" and pc: "sd_workers s ! i = SubGrowing t p g"
  shows "advances blank s"
proof -
  have th: "threads_ok s" using inv by (simp add: sched_inv_def sched_core_def)
  note step = quiet_ctx_grows [OF i pc, of _ _ blank]
  show ?thesis
  proof (cases "\<exists>index. g = GrowStart index")
    case True
    then obtain index where start: "g = GrowStart index" by blast
    have "0 < starters index s"
      using starters_set_worker [OF i, of index Exited] pc start by simp
    note u = about_to_start [OF th this]
    with pc have ne: "index \<noteq> i" by auto
    let ?s = "set_worker i (Processing t p) s"
    have st: "quiet_step blank s (set_worker index AtLoop ?s)"
      using step [of None "set_worker index AtLoop s"] start ne
      by (simp add: grow_starts) (simp add: set_worker_def list_update_swap)
    have less: "workers_left (set_worker index AtLoop ?s) < workers_left s"
      using workers_left_set_worker [of index ?s AtLoop] workers_left_set_worker [OF i, of "Processing t p"] u pc start ne i
      by simp
    then have lt: "left_to_do (set_worker index AtLoop ?s) < left_to_do s"
      by (simp add: left_to_do_def)
    show ?thesis by (rule advancesI [OF r_into_rtranclp [where r = "quiet_step blank", OF st] lt])
  next
    case False
    let ?t = "\<lambda>g. set_worker i (SubGrowing t p g) s"
    have at: "i < max_workers (?t g)" "sd_workers (?t g) ! i = SubGrowing t p g" for g using i by (simp_all add: max_workers_def)
    obtain g' where tries: "(retries s)\<^sup>*\<^sup>* g g'" and e: "can_end g' s" using False by (blast intro: retries_end)
    have one: "quiet_step blank (?t a) (?t b)" if "retries s a b" for a b
      using quiet_ctx_grows [OF at retries_step [OF that, of "?t a"], of blank] by simp
    have "?t g = s" by (rule set_worker_idle) (rule pc)
    with rtranclp_image [of "retries s" "quiet_step blank" ?t, OF one tries] have r: "(quiet_step blank)\<^sup>*\<^sup>* s (?t g')" by simp
    have "can_end g' (?t g')" using e by simp
    note last = can_end_step [OF this] and step2 = quiet_ctx_grows [OF at, of g' _ _ blank]
    show ?thesis
    proof (cases "grow_step g' (?t g') None (?t g')")
      case True
      then have "quiet_step blank (?t g') (set_worker i (Processing t p) s)" using step2 [of None "?t g'"] by simp
      from rtranclp.rtrancl_into_rtrancl [OF r this] show ?thesis
        by (rule worker_advances) (use i pc in simp_all)
    next
      case none: False
      let ?start = "SubGrowing t p (GrowStart (sd_live s))"
      from none last have "quiet_step blank (?t g') (set_worker i ?start ((?t g')\<lparr>sd_live := sd_live s + 1\<rparr>))"
        using step2 [of "Some (GrowStart (sd_live s))" "(?t g')\<lparr>sd_live := sd_live s + 1\<rparr>"] by simp
      then have "quiet_step blank (?t g') (set_worker i ?start (s\<lparr>sd_live := sd_live s + 1\<rparr>))" by (simp add: set_worker_def)
      from rtranclp.rtrancl_into_rtrancl [OF r this] show ?thesis
        by (rule worker_advances) (use i pc False grow_left_2 [of g] in auto)
    qed
  qed
qed

lemma main_left_woken: "main_left n (if m = Asleep then WaitLoads else m) \<le> main_left n m"
  by simp

lemma loop_advances:
  assumes i: "i < max_workers s"
    and "(\<exists>t p. sd_workers s ! i = Processed t p) \<or>
      sd_workers s ! i = Notifying \<or> sd_workers s ! i = AtLoop \<and> sd_stop s"
  shows "advances blank s"
proof -
  have step: "quiet_step blank s (worker_loop i s)" using quiet_loops [OF i, of blank] assms(2) by auto
  from assms(2) show ?thesis
  proof (elim disjE exE conjE)
    fix t p assume pc: "sd_workers s ! i = Processed t p"
    let ?s = "s\<lparr>sd_pending := sd_pending s - 1, sd_done := add_mset t (sd_done s)\<rparr>"
    have "quiet_step blank s (set_worker i (if sd_pending s = 1 then Notifying else AtLoop) ?s)"
      using step pc by (simp add: worker_loop_def Let_def)
    then show ?thesis by (rule worker_advances [OF r_into_rtranclp]) (use i pc in simp_all)
  next
    assume pc: "sd_workers s ! i = Notifying"
    let ?s = "s\<lparr>sd_main := (if sd_main s = Asleep then WaitLoads else sd_main s)\<rparr>"
    have "quiet_step blank s (set_worker i AtLoop ?s)" using step pc by (simp add: worker_loop_def)
    then show ?thesis by (rule worker_advances [OF r_into_rtranclp]) (use i pc in simp_all)
  next
    assume "sd_workers s ! i = AtLoop" "sd_stop s"
    with step i show ?thesis
      by (intro worker_advances [where s' = s and pc = Exited and i = i] r_into_rtranclp) (simp_all add: worker_loop_def)
  qed
qed

subsection \<open>An idle worker finds a task\<close>

text \<open>Losing every race on its way, a worker reaches any queue in its search.\<close>

lemma search_step:
  assumes "i < max_workers s" and "length (sd_queues s) = max_workers s"
    and "searching pc" and "next_task True i (set_worker i pc s) = set_worker i pc' (set_worker i pc s)"
    and "(quiet_step blank)\<^sup>*\<^sup>* s (set_worker i pc s)"
  shows "(quiet_step blank)\<^sup>*\<^sup>* s (set_worker i pc' s)"
proof -
  have "quiet_step blank (set_worker i pc s) (set_worker i pc' s)"
    using quiet_searches [of i "set_worker i pc s" blank True] assms(1,3,4) by (simp add: max_workers_def)
  with assms(5) show ?thesis by (rule rtranclp.rtrancl_into_rtrancl)
qed

lemma search_reaches:
  assumes i: "i < max_workers s" and q: "length (sd_queues s) = max_workers s"
    and start: "(quiet_step blank)\<^sup>*\<^sup>* s (set_worker i (TakesOwn 0) s)"
  shows "p \<le> priorities s \<Longrightarrow> (quiet_step blank)\<^sup>*\<^sup>* s (set_worker i (TakesOwn p) s)"
    and "p < priorities s \<Longrightarrow> v \<le> max_workers s \<Longrightarrow> (quiet_step blank)\<^sup>*\<^sup>* s (set_worker i (StealsFrom p v) s)"
    and "p < priorities s \<Longrightarrow> (quiet_step blank)\<^sup>*\<^sup>* s (set_worker i (TakesSubmitted p) s)"
proof -
  let ?run = "\<lambda>pc. (quiet_step blank)\<^sup>*\<^sup>* s (set_worker i pc s)"
  have at: "sd_workers (set_worker i pc s) ! i = pc" for pc using i by (simp add: max_workers_def)
  have i': "i < max_workers (set_worker i pc s)" "length (sd_queues (set_worker i pc s)) = max_workers (set_worker i pc s)" for pc
    using i q by simp_all
  note go = search_step [OF i q] and lost = next_task_lost [OF i']
  have steal: "?run (StealsFrom p v)" if "?run (TakesOwn p)" "p < priorities s" "v \<le> max_workers s" for p v
    using that(3)
  proof (induction v)
    case 0
    show ?case by (rule go [OF _ _ that(1)]) (simp_all add: lost(1) [OF at] that(2))
  next
    case (Suc v)
    show ?case by (rule go [OF _ _ Suc.IH]) (use Suc.prems in \<open>simp_all add: lost(2) [OF at]\<close>)
  qed
  have sub: "?run (TakesSubmitted p)" if "?run (TakesOwn p)" "p < priorities s" for p
    by (rule go [OF _ _ steal [OF that order_refl]]) (simp_all add: lost(2) [OF at])
  have own: "?run (TakesOwn p)" if "p \<le> priorities s" for p
    using that
  proof (induction p)
    case 0
    show ?case by (rule start)
  next
    case (Suc p)
    have "?run (TakesSubmitted p)" by (rule sub) (use Suc in simp_all)
    from go [OF _ _ this] show ?case by (simp add: lost(3) [OF at])
  qed
  show "p \<le> priorities s \<Longrightarrow> ?run (TakesOwn p)" by (rule own)
  show "p < priorities s \<Longrightarrow> v \<le> max_workers s \<Longrightarrow> ?run (StealsFrom p v)" by (rule steal [OF own]) simp_all
  show "p < priorities s \<Longrightarrow> ?run (TakesSubmitted p)" by (rule sub [OF own]) simp_all
qed

lemma taken_or_stolen:
  assumes "cl_ok q" and "items q \<noteq> []"
  shows "\<exists>t q'. take_or_lose False q = (Some t, q') \<and> size (mset (items q')) < size (mset (items q))"
    and "\<exists>t q'. steal_or_lose False q = (Some t, q') \<and> size (mset (items q')) < size (mset (items q))"
proof -
  obtain r q' where t: "cl_take q = (r, q')" by fastforce
  with cl.take_mset [OF assms(1) t] assms(2)
  show "\<exists>t q'. take_or_lose False q = (Some t, q') \<and> size (mset (items q')) < size (mset (items q))"
    by (auto simp: take_or_lose_def simp flip: size_mset)
next
  obtain r q' where t: "cl_steal q = (r, q')" by fastforce
  with cl.steal_mset [OF assms(1) t] assms(2)
  show "\<exists>t q'. steal_or_lose False q = (Some t, q') \<and> size (mset (items q')) < size (mset (items q))"
    by (auto simp: steal_or_lose_def simp flip: size_mset)
qed

text \<open>A call on a queue that holds a task, from the place in the search where it is made.\<close>

lemma finds_task:
  assumes i: "i < max_workers s" and pc: "sd_workers s ! i = AtLoop"
    and run: "(quiet_step blank)\<^sup>*\<^sup>* s (set_worker i at s)" and at: "searching at"
    and acquires: "next_task False i (set_worker i at s) = set_worker i (Processing t p) s'"
    and same: "sd_workers s' = sd_workers s" "priorities s' = priorities s" "sd_main s' = sd_main s"
    and less: "size (queued s') < size (queued s)"
  shows "advances blank s"
proof -
  have "quiet_step blank (set_worker i at s) (set_worker i (Processing t p) s')"
    using quiet_searches [of i "set_worker i at s" blank False] i at acquires by (simp add: max_workers_def)
  from rtranclp.rtrancl_into_rtrancl [OF run this] show ?thesis
    by (rule worker_advances [OF _ i same(1,2)]) (use pc same(3) less in simp)
qed

lemma some_queue:
  assumes "shaped s" and "queued s \<noteq> {#}"
  obtains (own) j p where "j < max_workers s" "p < priorities s" "items (own_queue j p s) \<noteq> []"
  | (submitted) p where "p < priorities s" "items (sd_submitted s ! p) \<noteq> []"
proof -
  from assms(2) obtain t where "t \<in># queued s" by auto
  then consider qs q where "qs \<in> set (sd_queues s)" "q \<in> set qs" "t \<in> set (items q)"
    | q where "q \<in> set (sd_submitted s)" "t \<in> set (items q)"
    by (auto simp: queued_def in_sum_list_mset)
  then show ?thesis
  proof cases
    case 1
    then obtain j p where "j < length (sd_queues s)" "sd_queues s ! j = qs" "p < length qs" "qs ! p = q"
      by (metis in_set_conv_nth)
    moreover from 1(3) have "items q \<noteq> []" by auto
    ultimately show ?thesis using own [of j p] shapedD(2,3) [OF assms(1)] by (auto simp: own_queue_def)
  next
    case 2
    then obtain p where "p < priorities s" "sd_submitted s ! p = q" by (metis in_set_conv_nth priorities_def)
    moreover from 2(2) have "items q \<noteq> []" by auto
    ultimately show ?thesis using submitted [of p] by simp
  qed
qed

lemma idle_advances:
  assumes inv: "sched_inv s" and i: "i < max_workers s" and pc: "sd_workers s ! i = AtLoop"
    and go: "\<not> sd_stop s" and q: "queued s \<noteq> {#}"
  shows "advances blank s"
proof -
  have sh: "shaped s" using inv by (simp add: sched_inv_def sched_core_def)
  have start: "(quiet_step blank)\<^sup>*\<^sup>* s (set_worker i (TakesOwn 0) s)"
    using quiet_loops [OF i, of blank] pc go by (simp add: worker_loop_def r_into_rtranclp)
  note reaches = search_reaches [OF i shapedD(2) [OF sh] start] and finds = finds_task [OF i pc]
  have at: "sd_workers (set_worker i pc s) ! i = pc" for pc using i by (simp add: max_workers_def)
  from sh q show ?thesis
  proof (cases rule: some_queue)
    case (own j p)
    note ok = shapedD(4) [OF sh own(1,2)] and there = own(1) [folded shapedD(2) [OF sh]]
    note at_queue = queued_set_own_queue [of j s p, unfolded shapedD(2,3) [OF sh] shapedD(3) [OF sh own(1)], OF own(1,2)]
    show ?thesis
    proof (cases "j = i")
      case True
      from taken_or_stolen(1) [OF ok own(3)] obtain t q'
        where t: "take_or_lose False (own_queue i p s) = (Some t, q')"
          and less: "size (mset (items q')) < size (mset (items (own_queue i p s)))" using True by blast
      have n: "next_task False i (set_worker i (TakesOwn p) s) = set_worker i (Processing t p) (set_own_queue i p q' s)"
        using own(2) t at [of "TakesOwn p"]
        by (simp add: next_task_def own_queue_def got_or_def; simp add: set_worker_def set_own_queue_def)
      have "size (queued (set_own_queue i p q' s)) < size (queued s)"
        using arg_cong [OF at_queue [of q'], of size] less True by simp
      from finds [OF reaches(1) _ n _ _ _ this] own(2) show ?thesis by (simp add: priorities_def)
    next
      case False
      from taken_or_stolen(2) [OF ok own(3)] obtain t q'
        where t: "steal_or_lose False (own_queue j p s) = (Some t, q')"
          and less: "size (mset (items q')) < size (mset (items (own_queue j p s)))" by blast
      have n: "next_task False i (set_worker i (StealsFrom p j) s) = set_worker i (Processing t p) (set_own_queue j p q' s)"
        using there t at [of "StealsFrom p j"] False
        by (simp add: next_task_def own_queue_def got_or_def; simp add: set_worker_def set_own_queue_def)
      have "size (queued (set_own_queue j p q' s)) < size (queued s)"
        using arg_cong [OF at_queue [of q'], of size] less by simp
      from finds [OF reaches(2) _ n _ _ _ this] own(1,2) show ?thesis by (simp add: priorities_def)
    qed
  next
    case (submitted p)
    from taken_or_stolen(2) [OF shapedD(5) [OF sh submitted(1)] submitted(2)] obtain t q'
      where t: "steal_or_lose False (sd_submitted s ! p) = (Some t, q')"
        and less: "size (mset (items q')) < size (mset (items (sd_submitted s ! p)))" by blast
    have n: "next_task False i (set_worker i (TakesSubmitted p) s) = set_worker i (Processing t p) (set_submitted p q' s)"
      using t at [of "TakesSubmitted p"]
      by (simp add: next_task_def got_or_def; simp add: set_worker_def set_submitted_def)
    have "size (queued (set_submitted p q' s)) < size (queued s)"
      using arg_cong [OF queued_set_submitted [OF submitted(1), of q'], of size] less by simp
    from finds [OF reaches(3) _ n _ _ _ this] submitted(1) show ?thesis by (simp add: priorities_def)
  qed
qed

subsection \<open>No thread ends before it is told to\<close>

definition exits_told :: "'t sched \<Rightarrow> bool" where
  "exits_told s \<longleftrightarrow> Exited \<in> set (sd_workers s) \<longrightarrow> sd_stop s"

lemma exits_set_worker:
  "exits_told s \<Longrightarrow> sd_workers s' = sd_workers s \<Longrightarrow> (sd_stop s \<Longrightarrow> sd_stop s') \<Longrightarrow> pc \<noteq> Exited \<or> sd_stop s' \<Longrightarrow>
    exits_told (set_worker i pc s')"
  using set_update_subset_insert [of "sd_workers s" i pc] by (auto simp: exits_told_def)

lemma exits_same:
  "exits_told s \<Longrightarrow> sd_workers s' = sd_workers s \<Longrightarrow> (sd_stop s \<Longrightarrow> sd_stop s') \<Longrightarrow> exits_told s'"
  by (simp add: exits_told_def)

lemma grow_step_exits: "grow_step g s g' s' \<Longrightarrow> exits_told s \<Longrightarrow> exits_told s'"
  by (induction rule: grow_step.induct) (auto simp: exits_told_def dest: set_update_subset_insert [THEN subsetD])

lemma got_or_not_exited: "pc \<noteq> Exited \<Longrightarrow> got_or pc p r \<noteq> Exited"
  by (simp add: got_or_def split: option.splits)

lemma exits_step: "sched_step blank s s' \<Longrightarrow> exits_told s \<Longrightarrow> exits_told s'"
proof (induction rule: sched_step.induct)
  case (main_submits s p t)
  then show ?case by (auto simp: submit_def exits_told_def)
next
  case (main_inserts s)
  then show ?case by (auto simp: submit_insert_def exits_told_def split: main_pc.splits)
next
  case (main_grows s g g' s')
  from grow_step_exits [OF main_grows(2,3)] show ?case by (rule exits_same) simp_all
next
  case (main_waits s)
  then show ?case by (simp add: exits_told_def)
next
  case (main_goes_on s)
  then show ?case by (auto simp: wait_step_def exits_told_def split: main_pc.splits)
next
  case (worker_searches i s lost)
  then show ?case
    by (auto simp: next_task_def intro!: exits_set_worker [OF worker_searches(2)] got_or_not_exited
        split: worker_pc.splits prod.splits)
next
  case (worker_goes_on i s)
  then show ?case
    by (auto simp: worker_loop_def Let_def intro!: exits_set_worker [OF worker_goes_on(2)] split: worker_pc.splits)
next
  case (worker_submits i s p t)
  then show ?case by (auto simp: ctx_submit_def intro!: exits_set_worker [OF worker_submits(3)] split: worker_pc.splits)
next
  case (worker_inserts i s)
  then show ?case by (auto simp: ctx_insert_def intro!: exits_set_worker [OF worker_inserts(2)] split: worker_pc.splits)
next
  case (worker_grows i s t p g g' s')
  show ?case
    by (rule exits_set_worker [OF grow_step_exits [OF worker_grows(3,4)]]) (auto split: option.splits)
qed

lemma exits_make: "exits_told (sched_make blank k n)"
  by (auto simp: exits_told_def sched_make_def Let_def)

lemma exits_reachable:
  assumes "(sched_step blank)\<^sup>*\<^sup>* (sched_make blank k n) s"
  shows "exits_told s"
  using assms by (induction rule: rtranclp_induct) (auto intro: exits_make exits_step)

subsection \<open>Some thread can always go on\<close>

definition idle :: "'t worker_pc \<Rightarrow> bool" where
  "idle pc \<longleftrightarrow> pc = Unstarted \<or> pc = AtLoop \<or> pc = Exited"

lemma busy_advances:
  assumes "sched_inv s" and i: "i < max_workers s" and "\<not> idle (sd_workers s ! i)"
    and "\<nexists>t p. sd_workers s ! i = Processing t p"
  shows "advances blank s"
  using assms(3,4) searching_advances [OF assms(1,2)] ctx_insert_advances [OF assms(1,2)]
    worker_grow_advances [OF assms(1,2)] loop_advances [OF i]
  by (cases "sd_workers s ! i") (auto simp: idle_def)

lemma submit_insert_advances:
  assumes inv: "sched_inv s" and m: "sd_main s = Counted t p"
  shows "advances blank s"
proof -
  have sh: "shaped s" using inv by (simp add: sched_inv_def sched_core_def)
  note p = shapedD(7) [OF sh m]
  let ?q = "cl_insert blank t (sd_submitted s ! p)"
  let ?s = "(set_submitted p ?q s)\<lparr>sd_main := Growing GrowLoad\<rparr>"
  have q: "size (queued ?s) = size (queued s) + 1"
    using arg_cong [OF queued_set_submitted [OF p, of ?q], of size] cl.insert_mset [OF shapedD(5) [OF sh p], of blank t] by simp
  have "quiet_step blank s ?s" using quiet_inserts [of blank s] m by (simp add: submit_insert_def)
  then show ?thesis by (rule main_advances [OF r_into_rtranclp]) (use m q in \<open>simp_all add: priorities_def\<close>)
qed

lemma all_idle:
  assumes "sched_inv s" and "list_all idle (sd_workers s)" and "\<not> submitting (sd_main s)"
  shows "in_hands s = {#}" and "sd_pending s = size (queued s)" and "starters j s = 0"
proof -
  have "in_hand pc = {#}" if "pc \<in> set (sd_workers s)" for pc
    using assms(2) that by (auto simp: list_all_iff idle_def)
  then have "t \<notin># (\<Sum>pc\<leftarrow>sd_workers s. in_hand pc)" for t by (auto simp: in_sum_list_mset)
  then have "(\<Sum>pc\<leftarrow>sd_workers s. in_hand pc) = {#}" by (meson multiset_nonemptyE)
  then show h: "in_hands s = {#}" using assms(3) by (cases "sd_main s") (auto simp: in_hands_def)
  show "sd_pending s = size (queued s)" using assms(1) h by (simp add: sched_inv_def sched_core_def conserved_def)
  have "worker_starts pc = None" if "pc \<in> set (sd_workers s)" for pc
    using assms(2) that by (auto simp: list_all_iff idle_def)
  then have "cnt (\<lambda>pc. worker_starts pc = Some j) (sd_workers s) = 0" by (auto simp: cnt_zero)
  then show "starters j s = 0" using assms(3) by (cases "sd_main s") (auto simp: starters_def)
qed

lemma work_left_advances:
  assumes inv: "sched_inv s" and told: "exits_told s" and all: "list_all idle (sd_workers s)"
    and out: "\<not> submitting (sd_main s)" and q: "queued s \<noteq> {#}"
  shows "advances blank s"
proof -
  have th: "threads_ok s" and w: "waiting_ok s" and n: "0 < max_workers s"
    using inv shapedD(1) by (auto simp: sched_inv_def sched_core_def)
  note idle = all_idle [OF inv all out]
  have pend: "0 < sd_pending s" using idle(2) q by (simp add: nonempty_has_size)
  with w out have "0 < sd_live s" by (simp add: waiting_ok_def)
  moreover from th have "of_bool (started 0 s) + starters 0 s = (of_bool (0 < sd_live s) :: nat)" by (simp add: threads_ok_def)
  ultimately have "started 0 s" using idle(3) [of 0] by (auto simp: of_bool_def split: if_splits)
  then have "sd_workers s ! 0 \<noteq> Unstarted" by (simp add: started_def)
  moreover have stop: "\<not> sd_stop s" using w pend by (cases "sd_main s") (auto simp: waiting_ok_def)
  moreover from stop told n have "sd_workers s ! 0 \<noteq> Exited"
    by (metis exits_told_def max_workers_def nth_mem)
  ultimately have "sd_workers s ! 0 = AtLoop" using all n by (auto simp: list_all_length idle_def max_workers_def)
  from idle_advances [OF inv n this stop q] show ?thesis .
qed

lemma wait_advances:
  assumes inv: "sched_inv s" and all: "list_all idle (sd_workers s)" and q: "queued s = {#}"
    and out: "\<not> submitting (sd_main s)" and m: "sd_main s \<noteq> Outside" "sd_main s \<noteq> Returned"
  shows "advances blank s"
proof -
  have w: "waiting_ok s" using inv by (simp add: sched_inv_def sched_core_def)
  have p: "sd_pending s = 0" using all_idle(2) [OF inv all out] q by simp
  have go: "advances blank s" if "sd_workers (wait_step s) = sd_workers s" "priorities (wait_step s) = priorities s"
    "queued (wait_step s) = {#}" "main_left (max_workers s) (sd_main (wait_step s)) < main_left (max_workers s) (sd_main s)"
    by (rule main_advances [OF r_into_rtranclp [where r = "quiet_step blank", OF quiet_goes_on] that(1,2)])
      (use that(3,4) q in simp)
  show ?thesis
  proof (cases "sd_main s")
    case WaitLoads
    then show ?thesis using p q by (intro go) (simp_all add: wait_step_def)
  next
    case (WaitLoaded owed)
    with w have "0 < owed" by (simp add: waiting_ok_def)
    with WaitLoaded show ?thesis using p q by (intro go) (simp_all add: wait_step_def)
  next
    case WaitStops
    then show ?thesis using q by (intro go) (simp_all add: wait_step_def)
  next
    case Asleep
    with w p all show ?thesis by (auto simp: waiting_ok_def list_all_iff idle_def)
  next
    case (Joining j)
    show ?thesis
    proof (cases "j < max_workers s \<and> sd_workers s ! j = AtLoop")
      case True
      with loop_advances [of j s blank] w Joining show ?thesis by (simp add: waiting_ok_def)
    next
      case False
      then have "j < max_workers s \<Longrightarrow> sd_workers s ! j = Unstarted \<or> sd_workers s ! j = Exited"
        using all by (auto simp: list_all_length idle_def max_workers_def)
      with Joining show ?thesis using q by (intro go) (auto simp: wait_step_def)
    qed
  qed (use m out in auto)
qed

lemma scheduler_advances:
  assumes inv: "sched_inv s" and told: "exits_told s" and m: "sd_main s \<noteq> Returned"
    and none: "\<forall>i < max_workers s. \<nexists>t p. sd_workers s ! i = Processing t p"
  shows "advances blank s"
proof (cases "list_all idle (sd_workers s)")
  case False
  with busy_advances [OF inv] none show ?thesis by (auto simp: list_all_length max_workers_def)
next
  case True
  consider (submitting) "submitting (sd_main s)" | (outside) "sd_main s = Outside"
    | (waiting) "\<not> submitting (sd_main s)" "sd_main s \<noteq> Outside" by blast
  then show ?thesis
  proof cases
    case submitting
    then show ?thesis
      using submit_insert_advances [OF inv] main_grow_advances [OF inv] by (cases "sd_main s") auto
  next
    case outside
    from quiet_waits [OF this, of blank] show ?thesis
      by (rule main_advances [OF r_into_rtranclp]) (use outside in simp_all)
  next
    case waiting
    with wait_advances [OF inv True] work_left_advances [OF inv told True] m show ?thesis by blast
  qed
qed

subsection \<open>The property\<close>

lemma goes_on_return:
  assumes inv: "sched_inv s" and told: "exits_told s" and m: "sd_main s \<noteq> Returned"
  shows "\<exists>s'. (sched_step blank)\<^sup>*\<^sup>* s s' \<and> left_to_do s' < left_to_do s"
proof (cases "\<exists>i < max_workers s. \<exists>t p. sd_workers s ! i = Processing t p")
  case True
  then obtain i t p where i: "i < max_workers s" and pc: "sd_workers s ! i = Processing t p" by blast
  then have "sched_step blank s (set_worker i (Processed t p) s)"
    using worker_goes_on [OF i, of blank] by (simp add: worker_loop_def)
  moreover have "left_to_do (set_worker i (Processed t p) s) < left_to_do s"
    by (rule worker_less [OF i]) (simp_all add: pc)
  ultimately show ?thesis by blast
next
  case False
  with scheduler_advances [OF assms, of blank] show ?thesis
    using quiet_sched_steps by (fastforce simp: advances_def)
qed

lemma exits_steps: "(sched_step blank)\<^sup>*\<^sup>* s s' \<Longrightarrow> exits_told s \<Longrightarrow> exits_told s'"
  by (induction rule: rtranclp_induct) (auto intro: exits_step)

lemma reaches_return:
  assumes "sched_inv s" and "exits_told s"
  shows "\<exists>s'. (sched_step blank)\<^sup>*\<^sup>* s s' \<and> sd_main s' = Returned"
  using assms
proof (induction s rule: measure_induct_rule [of left_to_do])
  case (less s)
  show ?case
  proof (cases "sd_main s = Returned")
    case False
    from goes_on_return [OF less.prems this, of blank] obtain s'
      where run: "(sched_step blank)\<^sup>*\<^sup>* s s'" and lt: "left_to_do s' < left_to_do s" by blast
    from less.IH [OF lt sched_inv_steps [OF run less.prems(1)] exits_steps [OF run less.prems(2)]] run
    show ?thesis by (meson rtranclp_trans)
  qed auto
qed

text \<open>
  C15: no task, worker or wake-up is ever stuck. From every state the threads can reach, they
  can go on to the return of \<open>Wait\<close>, with every task that was submitted processed: whoever
  sleeps is woken, whoever searches finds the tasks that are left, whoever grows the pool
  comes to an end.
\<close>

theorem wait_can_return:
  assumes "(sched_step blank)\<^sup>*\<^sup>* (sched_make blank k n) s"
  shows "\<exists>s'. (sched_step blank)\<^sup>*\<^sup>* s s' \<and> sd_main s' = Returned \<and> sd_done s' = sd_given s' \<and>
    list_all at_rest (sd_workers s')"
proof -
  from reaches_return [OF sched_reachable [OF assms] exits_reachable [OF assms]] obtain s'
    where run: "(sched_step blank)\<^sup>*\<^sup>* s s'" and r: "sd_main s' = Returned" by blast
  note inv = sched_inv_steps [OF run sched_reachable [OF assms], unfolded sched_inv_def sched_core_def waiting_ok_def conserved_tasks]
  from inv r have p: "sd_pending s' = 0" and e: "list_all at_rest (sd_workers s')" by auto
  from inv p have "tasks s' = {#}" by simp
  with inv have "sd_done s' = sd_given s'" by simp
  with run r e show ?thesis by blast
qed

theorem wait_can_return_witness:
  "\<exists>s'. (sched_step 0)\<^sup>*\<^sup>* busy_run s' \<and> sd_main s' = Returned \<and> sd_done s' = sd_given s' \<and>
    list_all at_rest (sd_workers s')"
  by (rule wait_can_return [OF busy_run_reached])

end
