(* ===== verification/Parallel_Removal.thy ===== *)
theory Parallel_Removal
  imports Walk Scheduler_Progress
begin

section \<open>The workers on the scheduler\<close>

text \<open>
  \<open>TaskScheduler\<close> runs \<open>FileUnlinkWorker\<close>s: the threads of \<open>Scheduler\<close> and the node protocol of
  \<open>Walk_Protocol\<close> as one system. A task is a node; a worker that gets one opens it, submits
  what it finds through its context and returns from \<open>Process\<close> when it has dropped what it
  held. At the end of \<open>Wait\<close> every directory is finished, and that end can always be reached.
\<close>

subsection \<open>The system\<close>

type_synonym removal = "nat sched \<times> walk"

definition removal_start :: "nat \<Rightarrow> nat \<Rightarrow> removal" where
  "removal_start blank threads = (sched_make blank k_ranks threads, initial_walk (max 1 threads))"

definition seeded :: "fd \<Rightarrow> string \<Rightarrow> walk \<Rightarrow> walk" where
  "seeded d path w = alloc_node d None path w\<lparr>w_tasks := add_mset (w_next w) (w_tasks w)\<rparr>"

definition taken_up :: "nat \<Rightarrow> nat \<Rightarrow> walk \<Rightarrow> walk" where
  "taken_up i t w = set_phase i (Opening t) (w\<lparr>w_tasks := w_tasks w - {#t#}\<rparr>)"

definition put_back :: "nat \<Rightarrow> nat \<Rightarrow> walk \<Rightarrow> walk" where
  "put_back i n w = set_phase i phase.Idle (w\<lparr>w_tasks := add_mset n (w_tasks w)\<rparr>)"

definition acquired :: "nat \<Rightarrow> nat sched \<Rightarrow> nat option" where
  "acquired i s = (case sd_workers s ! i of Processing t p \<Rightarrow> Some t | _ \<Rightarrow> None)"

definition tier :: "nat \<Rightarrow> walk \<Rightarrow> nat" where
  "tier c w =
     (case w_heap w c of
        Some nd \<Rightarrow> if fd_is_open (dn_fd nd) then k_runnable else k_awaiting_descriptor
      | None \<Rightarrow> k_awaiting_descriptor)"

text \<open>
  \<open>Process\<close> runs while its worker is at \<open>Processing\<close> and returns when the worker holds no
  node; its two calls of \<open>Submit\<close> are steps of both sides.
\<close>

inductive removal_step :: "nat \<Rightarrow> removal \<Rightarrow> removal \<Rightarrow> bool" for blank where
  root_submitted: "sd_main s = Outside \<Longrightarrow>
    removal_step blank (s, w) (snd (submit (w_next w) k_runnable s), seeded d path w)"
| root_inserted: "removal_step blank (s, w) (submit_insert blank s, w)"
| main_grows_pool: "sd_main s = Growing g \<Longrightarrow> grow_step g s g' s' \<Longrightarrow>
    removal_step blank (s, w) (s'\<lparr>sd_main := (case g' of None \<Rightarrow> Outside | Some g \<Rightarrow> Growing g)\<rparr>, w)"
| wait_called: "sd_main s = Outside \<Longrightarrow> removal_step blank (s, w) (s\<lparr>sd_main := WaitLoads\<rparr>, w)"
| wait_runs: "removal_step blank (s, w) (wait_step s, w)"
| worker_acquires: "i < max_workers s \<Longrightarrow> searching (sd_workers s ! i) \<Longrightarrow> s' = next_task lost i s \<Longrightarrow>
    removal_step blank (s, w) (s', case acquired i s' of None \<Rightarrow> w | Some t \<Rightarrow> taken_up i t w)"
| worker_loops: "i < max_workers s \<Longrightarrow> w_phases w ! i = phase.Idle \<Longrightarrow> removal_step blank (s, w) (worker_loop i s, w)"
| process_runs: "i < max_workers s \<Longrightarrow> sd_workers s ! i = Processing t p \<Longrightarrow> w_phases w ! i \<noteq> phase.Idle \<Longrightarrow>
    walk_step w w' \<Longrightarrow> w_phases w' = (w_phases w)[i := ph] \<Longrightarrow> w_tasks w' = w_tasks w \<Longrightarrow>
    removal_step blank (s, w) (s, w')"
| process_retries: "i < max_workers s \<Longrightarrow> sd_workers s ! i = Processing t p \<Longrightarrow> w_phases w ! i = Opening n \<Longrightarrow>
    removal_step blank (s, w) (ctx_submit i n k_awaiting_descriptor s, put_back i n w)"
| child_submitted: "i < max_workers s \<Longrightarrow> sd_workers s ! i = Processing t p \<Longrightarrow> w_phases w ! i = Publishing n c \<Longrightarrow>
    removal_step blank (s, w) (ctx_submit i c (tier c w) s, published i n c w)"
| child_inserted: "i < max_workers s \<Longrightarrow> removal_step blank (s, w) (ctx_insert blank i s, w)"
| worker_grows_pool: "i < max_workers s \<Longrightarrow> sd_workers s ! i = SubGrowing t p g \<Longrightarrow> grow_step g s g' s' \<Longrightarrow>
    removal_step blank (s, w)
      (set_worker i (case g' of None \<Rightarrow> Processing t p | Some g \<Rightarrow> SubGrowing t p g) s', w)"

subsection \<open>What the two sides share\<close>

text \<open>The tasks a worker is at, and the ones it is about to insert.\<close>

fun working :: "'t worker_pc \<Rightarrow> 't multiset" where
  "working (Processing t p) = {#t#}"
| "working (SubCounted t p t' p') = {#t#}"
| "working (SubGrowing t p g) = {#t#}"
| "working (Processed t p) = {#t#}"
| "working _ = {#}"

fun sending :: "'t worker_pc \<Rightarrow> 't multiset" where
  "sending (SubCounted t p t' p') = {#t'#}"
| "sending _ = {#}"

definition workings :: "'t sched \<Rightarrow> 't multiset" where
  "workings s = (\<Sum>pc\<leftarrow>sd_workers s. working pc)"

definition handed :: "'t sched \<Rightarrow> 't multiset" where
  "handed s = queued s + in_main (sd_main s) + (\<Sum>pc\<leftarrow>sd_workers s. sending pc)"

text \<open>
  The tasks of the walk are the tasks the scheduler has and no worker is at; a worker that
  holds a node is inside \<open>Process\<close>.
\<close>

definition linked :: "removal \<Rightarrow> bool" where
  "linked r \<longleftrightarrow> (case r of (s, w) \<Rightarrow>
     sched_inv s \<and> priorities s = k_ranks \<and> length (w_phases w) = max_workers s \<and> w_tasks w = handed s \<and>
     (\<forall>i < max_workers s. w_phases w ! i \<noteq> phase.Idle \<longrightarrow> inside (sd_workers s ! i)))"

lemma tasks_handed: "tasks s = handed s + workings s"
proof -
  have "in_hand pc = sending pc + working pc" for pc :: "'a worker_pc" by (cases pc) simp_all
  then have "(\<Sum>pc\<leftarrow>sd_workers s. in_hand pc) = (\<Sum>pc\<leftarrow>sd_workers s. sending pc) + (\<Sum>pc\<leftarrow>sd_workers s. working pc)"
    by (simp add: sum_list_addf)
  then show ?thesis by (simp add: tasks_def in_hands_def handed_def workings_def ac_simps)
qed

lemma workings_set_worker:
  "i < max_workers s \<Longrightarrow> workings (set_worker i pc s) + working (sd_workers s ! i) = workings s + working pc"
  using sum_list_update_add [of i "sd_workers s" working pc] by (simp add: workings_def max_workers_def)

lemma workings_cong: "sd_workers s' = sd_workers s \<Longrightarrow> workings s' = workings s"
  by (simp add: workings_def)

lemma workings_move:
  assumes "i < length (sd_workers s)" and "sd_workers s' = sd_workers s" and "working pc = working (sd_workers s ! i)"
  shows "workings (set_worker i pc s') = workings s"
  using workings_set_worker [of i s' pc] workings_cong [OF assms(2)] assms by (simp add: max_workers_def)

text \<open>What was given and done, and what the workers are at, tell what was handed over.\<close>

lemma handed_changes:
  assumes "sched_inv s" and "sched_inv s'" and "sd_given s' = sd_given s + g" and "sd_done s' = sd_done s + d"
    and "workings s' + d = workings s + a"
  shows "handed s' + a = handed s + g"
proof -
  have "sd_given s = sd_done s + (handed s + workings s)" "sd_given s' = sd_done s' + (handed s' + workings s')"
    using assms(1,2) by (simp_all add: sched_inv_def sched_core_def conserved_tasks tasks_handed)
  with assms(3,4) have "sd_done s + (handed s + workings s + g) = sd_done s + (handed s' + (workings s' + d))"
    by (simp add: ac_simps)
  with assms(5) have "handed s + workings s + g = handed s' + (workings s + a)" by simp
  then have "workings s + (handed s + g) = workings s + (handed s' + a)" by (simp add: ac_simps)
  then show ?thesis by simp
qed

lemma handed_same:
  assumes "sched_inv s" and "sched_inv s'" and "sd_given s' = sd_given s" and "sd_done s' = sd_done s"
    and "workings s' = workings s"
  shows "handed s' = handed s"
  using handed_changes [OF assms(1,2), of "{#}" "{#}" "{#}"] assms(3-5) by simp

subsection \<open>The steps keep them linked\<close>

text \<open>A thread is only ever started in a slot that has none.\<close>

lemma grow_keeps:
  assumes "grow_step g s g' s'" and "threads_ok s" and "\<And>j. g = GrowStart j \<Longrightarrow> 0 < starters j s"
  shows "workings s' = workings s" "sd_given s' = sd_given s" "sd_done s' = sd_done s"
    "i < max_workers s \<Longrightarrow> inside (sd_workers s' ! i) = inside (sd_workers s ! i)"
    "sd_workers s ! i \<noteq> Unstarted \<Longrightarrow> sd_workers s' ! i = sd_workers s ! i"
proof -
  show "sd_given s' = sd_given s" "sd_done s' = sd_done s" using assms(1) by (auto elim: grow_step.cases)
  have "workings s' = workings s \<and> (\<forall>i < max_workers s. inside (sd_workers s' ! i) = inside (sd_workers s ! i)) \<and>
      (\<forall>i. sd_workers s ! i \<noteq> Unstarted \<longrightarrow> sd_workers s' ! i = sd_workers s ! i)"
    using assms(1)
  proof (cases rule: grow_step.cases)
    case (grow_starts index)
    from about_to_start [OF assms(2) assms(3) [OF grow_starts(1)]]
    have u: "index < max_workers s" "sd_workers s ! index = Unstarted" by auto
    have "inside (sd_workers s' ! i) = inside (sd_workers s ! i)" if "i < max_workers s" for i
      using u that grow_starts(3) by (cases "i = index") (simp_all add: max_workers_def)
    moreover have "sd_workers s' ! i = sd_workers s ! i" if "sd_workers s ! i \<noteq> Unstarted" for i
      using u that grow_starts(3) by (cases "i = index") simp_all
    ultimately show ?thesis using workings_set_worker [OF u(1), of AtLoop] u(2) grow_starts(3) by simp
  qed (simp_all add: workings_def)
  then show "workings s' = workings s" "i < max_workers s \<Longrightarrow> inside (sd_workers s' ! i) = inside (sd_workers s ! i)"
    "sd_workers s ! i \<noteq> Unstarted \<Longrightarrow> sd_workers s' ! i = sd_workers s ! i" by blast+
qed

text \<open>What a search does to its worker.\<close>

lemma next_task_at:
  assumes "searching (sd_workers s ! i)"
  obtains nx p r where "sd_workers (next_task lost i s) = (sd_workers s)[i := got_or nx p r]"
    "working nx = {#} \<and> \<not> inside nx" "sd_given (next_task lost i s) = sd_given s \<and> sd_done (next_task lost i s) = sd_done s"
proof (cases "sd_workers s ! i")
  case (TakesOwn p)
  obtain r q where "take_or_lose lost (own_queue i p s) = (r, q)" by fastforce
  with TakesOwn that [of "StealsFrom p 0" p r] that [of AtLoop p None] show ?thesis
    by (cases "p < priorities s") (simp_all add: next_task_def got_or_def)
next
  case (StealsFrom p v)
  obtain r q where "steal_or_lose lost (own_queue v p s) = (r, q)" by fastforce
  with StealsFrom that [of "StealsFrom p (v + 1)" p r] that [of "StealsFrom p (v + 1)" p None] that [of "TakesSubmitted p" p None]
  show ?thesis by (cases "v < length (sd_queues s)"; cases "v = i") (simp_all add: next_task_def got_or_def)
next
  case (TakesSubmitted p)
  obtain r q where "steal_or_lose lost (sd_submitted s ! p) = (r, q)" by fastforce
  with TakesSubmitted that [of "TakesOwn (p + 1)" p r] show ?thesis by (simp add: next_task_def)
qed (use assms in simp_all)

lemma next_task_worker:
  assumes i: "i < max_workers s" and "searching (sd_workers s ! i)" and s': "s' = next_task lost i s"
  shows "\<exists>pc. sd_workers s' = (sd_workers s)[i := pc] \<and> working pc = (case acquired i s' of None \<Rightarrow> {#} | Some t \<Rightarrow> {#t#}) \<and>
    (inside pc \<longleftrightarrow> acquired i s' \<noteq> None)"
    and "sd_given s' = sd_given s" "sd_done s' = sd_done s"
proof -
  have got: "\<exists>pc'. pc = pc' \<and> working pc' = (case acquired i s' of None \<Rightarrow> {#} | Some t \<Rightarrow> {#t#}) \<and>
      (inside pc' \<longleftrightarrow> acquired i s' \<noteq> None)"
    if "sd_workers s' ! i = pc" "pc = got_or nx p r \<and> working nx = {#} \<and> \<not> inside nx" for pc nx p r
    using that by (cases nx) (auto simp: got_or_def acquired_def split: option.splits)
  obtain nx p r where pc: "sd_workers s' = (sd_workers s)[i := got_or nx p r]"
    and nx: "got_or nx p r = got_or nx p r \<and> working nx = {#} \<and> \<not> inside nx"
    and k: "sd_given s' = sd_given s \<and> sd_done s' = sd_done s"
    using next_task_at [OF assms(2), of lost] unfolding s' by blast
  from pc i have "sd_workers s' ! i = got_or nx p r" by (simp add: max_workers_def)
  from got [OF this nx] pc show "\<exists>pc. sd_workers s' = (sd_workers s)[i := pc] \<and>
      working pc = (case acquired i s' of None \<Rightarrow> {#} | Some t \<Rightarrow> {#t#}) \<and> (inside pc \<longleftrightarrow> acquired i s' \<noteq> None)" by blast
  from k show "sd_given s' = sd_given s" "sd_done s' = sd_done s" by auto
qed

lemma grow_step_priorities: "grow_step g s g' s' \<Longrightarrow> priorities s' = priorities s"
  by (induction rule: grow_step.induct) simp_all

lemma priorities_step: "sched_step blank s s' \<Longrightarrow> priorities s' = priorities s"
  by (induction rule: sched_step.induct)
    (auto simp: submit_def submit_insert_def wait_step_def next_task_def worker_loop_def ctx_submit_def
      ctx_insert_def Let_def grow_step_priorities split: main_pc.splits worker_pc.splits prod.splits)

lemma linkedD:
  assumes "linked (s, w)"
  shows "sched_inv s" "priorities s = k_ranks" "length (w_phases w) = max_workers s" "w_tasks w = handed s"
    "i < max_workers s \<Longrightarrow> w_phases w ! i \<noteq> phase.Idle \<Longrightarrow> inside (sd_workers s ! i)"
  using assms by (auto simp: linked_def)

lemma linked_next:
  assumes "linked (s, w)" and "sched_step blank s s'" and "length (w_phases w') = length (w_phases w)"
    and "w_tasks w' = handed s'"
    and "\<And>i. i < max_workers s \<Longrightarrow> w_phases w' ! i \<noteq> phase.Idle \<Longrightarrow> inside (sd_workers s' ! i)"
  shows "linked (s', w')"
  using linkedD [OF assms(1)] sched_inv_step [OF assms(2)] priorities_step [OF assms(2)] max_workers_step [OF assms(2)]
    assms(3-5) by (simp add: linked_def)

text \<open>Steps in which no task changes hands.\<close>

lemma linked_quiet:
  assumes link: "linked (s, w)" and step: "sched_step blank s s'" and "sd_given s' = sd_given s" "sd_done s' = sd_done s"
    and "workings s' = workings s"
    and "\<And>i. i < max_workers s \<Longrightarrow> inside (sd_workers s ! i) \<Longrightarrow> inside (sd_workers s' ! i)"
  shows "linked (s', w)"
proof (rule linked_next [OF link step refl])
  show "w_tasks w = handed s'"
    using handed_same [OF linkedD(1) [OF link] sched_inv_step [OF step linkedD(1) [OF link]] assms(3-5)] linkedD(4) [OF link]
    by simp
qed (use assms(6) linkedD(5) [OF link] in blast)

lemma wait_step_same: "sd_given (wait_step s) = sd_given s" "sd_done (wait_step s) = sd_done s"
    "sd_workers (wait_step s) = sd_workers s"
  by (auto simp: wait_step_def split: main_pc.splits)

lemma submit_insert_same: "sd_given (submit_insert blank s) = sd_given s" "sd_done (submit_insert blank s) = sd_done s"
    "sd_workers (submit_insert blank s) = sd_workers s"
  by (auto simp: submit_insert_def split: main_pc.splits)

lemma ctx_insert_same: "sd_given (ctx_insert blank i s) = sd_given s" "sd_done (ctx_insert blank i s) = sd_done s"
    "i < max_workers s \<Longrightarrow> workings (ctx_insert blank i s) = workings s"
    "j < max_workers s \<Longrightarrow> inside (sd_workers s ! j) \<Longrightarrow> inside (sd_workers (ctx_insert blank i s) ! j)"
  by (auto simp: ctx_insert_def nth_list_update max_workers_def intro!: workings_move split: worker_pc.splits)
    (metis inside.simps(3) nth_list_update_eq nth_list_update_neq)

lemma linked_grows:
  assumes link: "linked (s, w)" and "grow_step g s g' s'" and "\<And>j. g = GrowStart j \<Longrightarrow> 0 < starters j s"
    and step: "sched_step blank s t" and "sd_given t = sd_given s'" "sd_done t = sd_done s'" "workings t = workings s'"
    and "\<And>i. i < max_workers s \<Longrightarrow> inside (sd_workers s' ! i) \<Longrightarrow> inside (sd_workers t ! i)"
  shows "linked (t, w)"
proof -
  have "threads_ok s" using linkedD(1) [OF link] by (simp add: sched_inv_def sched_core_def)
  note keeps = grow_keeps [OF assms(2) this assms(3)]
  show ?thesis by (rule linked_quiet [OF link step]) (use assms(5-8) keeps in auto)
qed

text \<open>One step, on both sides.\<close>

definition both :: "nat \<Rightarrow> removal \<Rightarrow> removal \<Rightarrow> bool" where
  "both blank r r' \<longleftrightarrow> linked r' \<and> (sched_step blank)\<^sup>=\<^sup>= (fst r) (fst r') \<and> walk_step\<^sup>=\<^sup>= (snd r) (snd r')"

lemma both_sched: "linked (s', w) \<Longrightarrow> sched_step blank s s' \<Longrightarrow> both blank (s, w) (s', w)"
  by (simp add: both_def)

lemma root_submitted_both:
  assumes link: "linked (s, w)" and out: "sd_main s = Outside"
  shows "both blank (s, w) (snd (submit (w_next w) k_runnable s), seeded d path w)"
proof -
  let ?s = "snd (submit (w_next w) k_runnable s)"
  note L = linkedD [OF link]
  have step: "sched_step blank s ?s" by (rule main_submits [OF out]) (simp add: L(2) k_ranks_def k_runnable_def)
  have "\<not> sd_stop s" using L(1) out by (simp add: sched_inv_def sched_core_def waiting_ok_def)
  then have s: "?s = (count_task (w_next w) s)\<lparr>sd_main := Counted (w_next w) k_runnable\<rparr>" by (simp add: submit_def)
  have "handed ?s + {#} = handed s + {#w_next w#}"
    by (rule handed_changes [OF L(1) sched_inv_step [OF step L(1)], of _ "{#}"]) (simp_all add: s workings_def)
  then have "linked (?s, seeded d path w)" by (intro linked_next [OF link step]) (use L in \<open>simp_all add: seeded_def s\<close>)
  with step seed [of w d path] show ?thesis by (simp add: both_def seeded_def)
qed

lemma acquired_handed:
  assumes link: "linked (s, w)" and i: "i < max_workers s" and at: "searching (sd_workers s ! i)"
    and s': "s' = next_task lost i s"
  shows "handed s' + (case acquired i s' of None \<Rightarrow> {#} | Some t \<Rightarrow> {#t#}) = handed s"
    and "w_phases w ! i = phase.Idle" and "acquired i s' = Some t \<Longrightarrow> t \<in># w_tasks w"
proof -
  note L = linkedD [OF link]
  have step: "sched_step blank s s'" for blank unfolding s' by (rule worker_searches [OF i])
  from next_task_worker [OF i at s'] obtain pc where pc: "sd_workers s' = (sd_workers s)[i := pc]"
    "working pc = (case acquired i s' of None \<Rightarrow> {#} | Some t \<Rightarrow> {#t#})"
    and same: "sd_given s' = sd_given s" "sd_done s' = sd_done s" by blast
  have none: "working (sd_workers s ! i) = {#}" "\<not> inside (sd_workers s ! i)" using at by (cases "sd_workers s ! i"; simp)+
  with L(5) [OF i] show "w_phases w ! i = phase.Idle" by blast
  have "workings s' + working (sd_workers s ! i) = workings s + working pc"
    unfolding workings_def pc(1) by (rule sum_list_update_add) (use i in \<open>simp add: max_workers_def\<close>)
  then have w: "workings s' + {#} = workings s + working pc" by (simp add: none)
  show h: "handed s' + (case acquired i s' of None \<Rightarrow> {#} | Some t \<Rightarrow> {#t#}) = handed s"
    using handed_changes [OF L(1) sched_inv_step [OF step L(1)], of "{#}" "{#}", OF _ _ w] same pc(2) by simp
  assume "acquired i s' = Some t"
  with h L(4) show "t \<in># w_tasks w" by (metis add_mset_add_single option.simps(5) union_single_eq_member)
qed

lemma acquires_both:
  assumes link: "linked (s, w)" and i: "i < max_workers s" and at: "searching (sd_workers s ! i)"
    and s': "s' = next_task lost i s"
  shows "both blank (s, w) (s', case acquired i s' of None \<Rightarrow> w | Some t \<Rightarrow> taken_up i t w)"
proof -
  note L = linkedD [OF link] and H = acquired_handed [OF assms]
  have step: "sched_step blank s s'" unfolding s' by (rule worker_searches [OF i])
  from next_task_worker(1) [OF i at s'] obtain pc where pc: "sd_workers s' = (sd_workers s)[i := pc]"
    "inside pc \<longleftrightarrow> acquired i s' \<noteq> None" by blast
  have i': "i < length (sd_workers s)" using i by (simp add: max_workers_def)
  have others: "inside (sd_workers s' ! j)" if "j < max_workers s" "w_phases w ! j \<noteq> phase.Idle" for j
    using L(5) [OF that] that H(2) pc(1) by (cases "j = i") simp_all
  show ?thesis
  proof (cases "acquired i s'")
    case None
    with H(1) have "linked (s', w)" by (intro linked_next [OF link step]) (use L others in simp_all)
    with None step show ?thesis by (simp add: both_sched)
  next
    case (Some t)
    with H(1,3) L(4) have t: "t \<in># w_tasks w" "handed s' = w_tasks w - {#t#}"
      by (auto, metis add_diff_cancel_right' add_mset_add_single)
    have "linked (s', taken_up i t w)"
    proof (rule linked_next [OF link step])
      fix j assume "j < max_workers s" "w_phases (taken_up i t w) ! j \<noteq> phase.Idle"
      with others [of j] pc Some i' L(3) show "inside (sd_workers s' ! j)" by (cases "j = i") (simp_all add: taken_up_def)
    qed (simp_all add: taken_up_def t)
    moreover have "walk_step w (taken_up i t w)"
      unfolding taken_up_def by (rule take_task [OF _ H(2) t(1)]) (simp add: L(3) i)
    ultimately show ?thesis using Some step by (simp add: both_def)
  qed
qed

lemma loops_both:
  assumes link: "linked (s, w)" and i: "i < max_workers s" and idle: "w_phases w ! i = phase.Idle"
  shows "both blank (s, w) (worker_loop i s, w)"
proof (rule both_sched)
  note L = linkedD [OF link]
  show step: "sched_step blank s (worker_loop i s)" by (rule worker_goes_on [OF i])
  let ?d = "case sd_workers s ! i of Processed t p \<Rightarrow> {#t#} | _ \<Rightarrow> {#}"
  obtain pc s' where s': "worker_loop i s = set_worker i pc s' \<or> worker_loop i s = s \<and> s' = s \<and> pc = sd_workers s ! i"
    "sd_workers s' = sd_workers s" "sd_given s' = sd_given s" "sd_done s' = sd_done s + ?d"
    "working pc + ?d = working (sd_workers s ! i)"
  proof (cases "sd_workers s ! i")
    case (Processed t p)
    with that [of "if sd_pending s = 1 then Notifying else AtLoop"
        "s\<lparr>sd_pending := sd_pending s - 1, sd_done := add_mset t (sd_done s)\<rparr>"]
    show ?thesis by (simp add: worker_loop_def Let_def)
  next
    case Notifying
    with that [of AtLoop "s\<lparr>sd_main := (if sd_main s = Asleep then WaitLoads else sd_main s)\<rparr>"]
    show ?thesis by (simp add: worker_loop_def)
  next
    case AtLoop
    with that [of "if sd_stop s then Exited else TakesOwn 0" s] show ?thesis by (simp add: worker_loop_def)
  next
    case (Processing t p)
    with that [of "Processed t p" s] show ?thesis by (simp add: worker_loop_def)
  qed (use that [of "sd_workers s ! i" s] in \<open>simp_all add: worker_loop_def\<close>)
  then have same: "worker_loop i s = set_worker i pc s'" by (metis set_worker_idle)
  have "workings (worker_loop i s) + working (sd_workers s ! i) = workings s + working pc"
    using workings_set_worker [of i s' pc] workings_cong [OF s'(2)] i s'(2) by (simp add: same max_workers_def)
  then have "(workings (worker_loop i s) + ?d) + working pc = workings s + working pc"
    unfolding s'(5) [symmetric] by (simp only: ac_simps)
  then have "workings (worker_loop i s) + ?d = workings s + {#}" by simp
  then have "handed (worker_loop i s) + {#} = handed s + {#}"
    by (intro handed_changes [OF L(1) sched_inv_step [OF step L(1)], of _ ?d]) (simp_all add: same s'(3,4))
  then show "linked (worker_loop i s, w)"
  proof (intro linked_next [OF link step])
    fix j assume j: "j < max_workers s" "w_phases w ! j \<noteq> phase.Idle"
    with idle have "j \<noteq> i" by auto
    with L(5) [OF j] show "inside (sd_workers (worker_loop i s) ! j)" by (simp add: same s'(2))
  qed (simp_all add: L(4))
qed

text \<open>A call of \<open>Submit\<close> inside \<open>Process\<close>, with the step of the walk that makes it.\<close>

lemma ctx_submit_both:
  assumes link: "linked (s, w)" and i: "i < max_workers s" and pc: "sd_workers s ! i = Processing t p"
    and p': "p' < k_ranks" and walk: "walk_step w w'" and ph: "w_phases w' = (w_phases w)[i := ph]"
    and tasks: "w_tasks w' = add_mset c (w_tasks w)"
  shows "both blank (s, w) (ctx_submit i c p' s, w')"
proof -
  note L = linkedD [OF link]
  let ?s = "ctx_submit i c p' s"
  have step: "sched_step blank s ?s" by (rule worker_submits [OF i]) (use p' L(2) in simp)
  have s: "?s = set_worker i (SubCounted t p c p') (count_task c s)" by (simp add: ctx_submit_def pc)
  have "workings ?s = workings s" unfolding s by (rule workings_move) (use i pc in \<open>simp_all add: max_workers_def\<close>)
  then have "handed ?s + {#} = handed s + {#c#}"
    by (intro handed_changes [OF L(1) sched_inv_step [OF step L(1)], of _ "{#}"]) (simp_all add: s)
  then have "linked (?s, w')"
  proof (intro linked_next [OF link step])
    fix j assume j: "j < max_workers s" "w_phases w' ! j \<noteq> phase.Idle"
    with L(5) [OF j(1)] L(3) ph show "inside (sd_workers ?s ! j)" by (cases "j = i") (simp_all add: s max_workers_def)
  qed (use L(4) ph tasks in simp_all)
  with step walk show ?thesis by (simp add: both_def)
qed

lemma process_runs_both:
  assumes link: "linked (s, w)" and i: "i < max_workers s" and pc: "sd_workers s ! i = Processing t p"
    and walk: "walk_step w w'" and ph: "w_phases w' = (w_phases w)[i := ph]" and tasks: "w_tasks w' = w_tasks w"
  shows "both blank (s, w) (s, w')"
proof -
  note L = linkedD [OF link]
  have "inside (sd_workers s ! j)" if j: "j < max_workers s" "w_phases w' ! j \<noteq> phase.Idle" for j
    using L(5) [OF j(1)] j ph pc by (cases "j = i") simp_all
  with L ph tasks have "linked (s, w')" by (simp add: linked_def)
  with walk show ?thesis by (simp add: both_def)
qed

lemma main_grows_both:
  assumes link: "linked (s, w)" and g: "sd_main s = Growing g" and grow: "grow_step g s g' s'"
  shows "both blank (s, w) (s'\<lparr>sd_main := (case g' of None \<Rightarrow> Outside | Some g \<Rightarrow> Growing g)\<rparr>, w)"
proof (rule both_sched)
  show step: "sched_step blank s (s'\<lparr>sd_main := (case g' of None \<Rightarrow> Outside | Some g \<Rightarrow> Growing g)\<rparr>)"
    by (rule main_grows [OF g grow])
  show "linked (s'\<lparr>sd_main := (case g' of None \<Rightarrow> Outside | Some g \<Rightarrow> Growing g)\<rparr>, w)"
    by (rule linked_grows [OF link grow _ step]) (simp_all add: g starters_def workings_def)
qed

lemma worker_grows_both:
  assumes link: "linked (s, w)" and i: "i < max_workers s" and pc: "sd_workers s ! i = SubGrowing t p g"
    and grow: "grow_step g s g' s'"
  shows "both blank (s, w) (set_worker i (case g' of None \<Rightarrow> Processing t p | Some g \<Rightarrow> SubGrowing t p g) s', w)"
proof (rule both_sched)
  let ?s = "set_worker i (case g' of None \<Rightarrow> Processing t p | Some g \<Rightarrow> SubGrowing t p g) s'"
  show step: "sched_step blank s ?s" by (rule worker_grows [OF i pc grow])
  have th: "threads_ok s" using linkedD(1) [OF link] by (simp add: sched_inv_def sched_core_def)
  have starts: "0 < starters j s" if "g = GrowStart j" for j
    using starters_set_worker [OF i, of j Exited] pc that by simp
  have pc': "sd_workers s' ! i = SubGrowing t p g" using grow_keeps(5) [OF grow th starts, of i] pc by simp
  have i': "i < max_workers s'" using i grow_step_max_workers [OF grow] by simp
  show "linked (?s, w)"
  proof (rule linked_grows [OF link grow starts step])
    show "workings ?s = workings s'"
      by (rule workings_move) (use i' pc' in \<open>simp_all add: max_workers_def split: option.split\<close>)
    fix j assume "j < max_workers s" "inside (sd_workers s' ! j)"
    then show "inside (sd_workers ?s ! j)" using i' by (cases "j = i") (simp_all add: max_workers_def split: option.split)
  qed simp_all
qed

lemma removal_step_both: "removal_step blank r r' \<Longrightarrow> linked r \<Longrightarrow> both blank r r'"
proof (induction rule: removal_step.induct)
  case (root_submitted s w d path)
  then show ?case by (intro root_submitted_both)
next
  case (root_inserted s w)
  then show ?case
    by (intro both_sched linked_quiet [OF root_inserted main_inserts] main_inserts)
      (simp_all add: submit_insert_same workings_def)
next
  case (main_grows_pool s g g' s' w)
  then show ?case by (intro main_grows_both)
next
  case (wait_called s w)
  have "sched_step blank s (s\<lparr>sd_main := WaitLoads\<rparr>)" by (rule main_waits [OF wait_called(1)])
  with linked_quiet [OF wait_called(2) this] show ?case by (intro both_sched) (simp_all add: workings_def)
next
  case (wait_runs s w)
  then show ?case
    by (intro both_sched linked_quiet [OF wait_runs main_goes_on] main_goes_on) (simp_all add: wait_step_same workings_def)
next
  case (worker_acquires i s s' lost w)
  then show ?case by (intro acquires_both)
next
  case (worker_loops i s w)
  then show ?case by (intro loops_both)
next
  case (process_runs i s t p w w' ph)
  then show ?case by (intro process_runs_both)
next
  case (process_retries i s t p w n)
  have walk: "walk_step w (put_back i n w)"
    unfolding put_back_def by (rule open_retry) (use process_retries linkedD(3) in auto)
  show ?case
    by (rule ctx_submit_both [OF process_retries(4,1,2) _ walk])
      (simp_all add: put_back_def k_ranks_def k_awaiting_descriptor_def)
next
  case (child_submitted i s t p w n c)
  have walk: "walk_step w (published i n c w)"
    unfolding published_def by (rule publish) (use child_submitted linkedD(3) in auto)
  have "tier c w < k_ranks"
    by (simp add: tier_def k_ranks_def k_runnable_def k_awaiting_descriptor_def split: option.split)
  then show ?case by (rule ctx_submit_both [OF child_submitted(4,1,2) _ walk]) (simp_all add: published_def)
next
  case (child_inserted i s w)
  have "sched_step blank s (ctx_insert blank i s)" by (rule worker_inserts [OF child_inserted(1)])
  with linked_quiet [OF child_inserted(2) this] child_inserted(1) show ?case
    by (intro both_sched) (simp_all add: ctx_insert_same)
next
  case (worker_grows_pool i s t p g g' s' w)
  then show ?case by (intro worker_grows_both)
qed

subsection \<open>Reachable states\<close>

definition removal_reachable :: "nat \<Rightarrow> nat \<Rightarrow> removal \<Rightarrow> bool" where
  "removal_reachable blank threads r \<longleftrightarrow> (removal_step blank)\<^sup>*\<^sup>* (removal_start blank threads) r"

lemma linked_start: "linked (removal_start blank threads)"
proof -
  have "handed (sched_make blank k_ranks threads) = {#}"
    using tasks_handed [of "sched_make blank k_ranks threads"] sched_inv_make [of blank k_ranks threads]
    by (simp add: sched_inv_def sched_core_def conserved_tasks sched_make_def Let_def)
  then show ?thesis
    using sched_inv_make [of blank k_ranks threads]
    by (simp add: linked_def removal_start_def initial_walk_def max_workers_def priorities_def sched_make_def Let_def)
qed

lemma reachable_both:
  assumes "removal_reachable blank threads (s, w)"
  shows "linked (s, w)" "(sched_step blank)\<^sup>*\<^sup>* (sched_make blank k_ranks threads) s" "walk_reachable (max 1 threads) w"
proof -
  have "linked r \<and> (sched_step blank)\<^sup>*\<^sup>* (sched_make blank k_ranks threads) (fst r) \<and> walk_reachable (max 1 threads) (snd r)"
    if "(removal_step blank)\<^sup>*\<^sup>* (removal_start blank threads) r" for r
    using that
  proof (induction rule: rtranclp_induct)
    case base
    show ?case using linked_start walk_start by (simp add: removal_start_def)
  next
    case (step r r')
    from removal_step_both [OF step.hyps(2)] step.IH have "both blank r r'" by blast
    with step.IH show ?case by (auto simp: both_def intro: rtranclp.rtrancl_into_rtrancl walk_next)
  qed
  with assms show "linked (s, w)" "(sched_step blank)\<^sup>*\<^sup>* (sched_make blank k_ranks threads) s" "walk_reachable (max 1 threads) w"
    by (fastforce simp: removal_reachable_def)+
qed

lemma linked_quiescent:
  assumes link: "linked (s, w)" and empty: "queued s = {#}" "in_hands s = {#}"
  shows "quiescent w"
proof -
  note L = linkedD [OF link]
  have "handed s + workings s = {#}" using empty tasks_handed [of s] by (simp add: tasks_def)
  then have none: "handed s = {#}" "workings s = {#}" by simp_all
  have "w_phases w ! i = phase.Idle" if i: "i < max_workers s" for i
  proof (rule ccontr)
    assume "w_phases w ! i \<noteq> phase.Idle"
    from L(5) [OF i this] obtain t where "t \<in># working (sd_workers s ! i)" by (cases "sd_workers s ! i") auto
    with i have "t \<in># workings s" by (auto simp: workings_def in_sum_list_mset max_workers_def)
    with none(2) show False by simp
  qed
  with L(3,4) none(1) show ?thesis by (auto simp: quiescent_def in_set_conv_nth)
qed

subsection \<open>The end can be reached\<close>

lemma acquired_weight:
  assumes link: "linked (s, w)" and i: "i < max_workers s" and "searching (sd_workers s ! i)"
    and "s' = next_task lost i s" and "acquired i s' = Some t"
  shows "walk_weight (taken_up i t w) < walk_weight w"
  using take_weight [OF acquired_handed(3) [OF assms] _ acquired_handed(2) [OF assms(1-4)]] linkedD(3) [OF link] i
  by (simp add: taken_up_def)

text \<open>What a run may do to the walk on the way: nothing, or bring it nearer to its end.\<close>

definition no_worse :: "walk \<Rightarrow> walk \<Rightarrow> bool" where
  "no_worse w w' \<longleftrightarrow> w_next w' = w_next w \<and> (w' = w \<or> walk_weight w' < walk_weight w)"

lemma no_worse_trans: "no_worse w w' \<Longrightarrow> no_worse w' w'' \<Longrightarrow> no_worse w w''"
  by (auto simp: no_worse_def)

lemma quiet_lift:
  assumes "quiet_step blank s s'" and link: "linked (s, w)"
  shows "\<exists>w'. removal_step blank (s, w) (s', w') \<and> no_worse w w'"
  using assms(1)
proof (cases rule: quiet_step.cases)
  case quiet_inserts
  with root_inserted [of blank s w] show ?thesis by (auto simp: no_worse_def)
next
  case (quiet_grows g s1 g')
  with main_grows_pool [OF quiet_grows(2,3), of blank w] show ?thesis by (auto simp: no_worse_def)
next
  case quiet_waits
  with wait_called [OF quiet_waits(2), of blank w] show ?thesis by (auto simp: no_worse_def)
next
  case quiet_goes_on
  with wait_runs [of blank s w] show ?thesis by (auto simp: no_worse_def)
next
  case (quiet_searches i lost)
  have "no_worse w (case acquired i s' of None \<Rightarrow> w | Some t \<Rightarrow> taken_up i t w)"
    using acquired_weight [OF link quiet_searches(2,3,1)]
    by (simp add: no_worse_def taken_up_def split: option.split)
  with worker_acquires [OF quiet_searches(2,3,1), of blank w] show ?thesis by blast
next
  case (quiet_loops i)
  with linkedD(5) [OF link] have "w_phases w ! i = phase.Idle" by blast
  with worker_loops [OF quiet_loops(2) this, of blank] quiet_loops(1) show ?thesis by (auto simp: no_worse_def)
next
  case (quiet_ctx_inserts i)
  with child_inserted [OF quiet_ctx_inserts(2), of blank w] show ?thesis by (auto simp: no_worse_def)
next
  case (quiet_ctx_grows i t p g s1 g')
  with worker_grows_pool [OF quiet_ctx_grows(2-4), of blank w] show ?thesis by (auto simp: no_worse_def)
qed

lemma quiet_lifts:
  assumes "(quiet_step blank)\<^sup>*\<^sup>* s s'" and "linked (s, w)"
  shows "\<exists>w'. (removal_step blank)\<^sup>*\<^sup>* (s, w) (s', w') \<and> no_worse w w' \<and> linked (s', w')"
  using assms
proof (induction rule: rtranclp_induct)
  case base
  then show ?case by (auto simp: no_worse_def)
next
  case (step s1 s2)
  then obtain w1 where w1: "(removal_step blank)\<^sup>*\<^sup>* (s, w) (s1, w1)" "no_worse w w1" "linked (s1, w1)" by blast
  from quiet_lift [OF step.hyps(2) w1(3)] obtain w2 where w2: "removal_step blank (s1, w1) (s2, w2)" "no_worse w1 w2" by blast
  from removal_step_both [OF w2(1) w1(3)] have "linked (s2, w2)" by (simp add: both_def)
  with rtranclp.rtrancl_into_rtrancl [OF w1(1) w2(1)] no_worse_trans [OF w1(2) w2(2)] show ?case by blast
qed

definition gets_on :: "nat \<Rightarrow> removal \<Rightarrow> bool" where
  "gets_on blank r \<longleftrightarrow> (\<exists>s' w'. (removal_step blank)\<^sup>*\<^sup>* r (s', w') \<and> w_next w' = w_next (snd r) \<and>
     (walk_weight w' < walk_weight (snd r) \<or> w' = snd r \<and> left_to_do s' < left_to_do (fst r)))"

lemma process_gets_on:
  assumes link: "linked (s, w)" and inv: "counts_ok w" "tree_ok w"
    and i: "i < max_workers s" and pc: "sd_workers s ! i = Processing t p"
  shows "gets_on blank (s, w)"
proof (cases "w_phases w ! i = phase.Idle")
  case True
  have "removal_step blank (s, w) (set_worker i (Processed t p) s, w)"
    using worker_loops [OF i True, of blank] pc by (simp add: worker_loop_def)
  moreover have "left_to_do (set_worker i (Processed t p) s) < left_to_do s" by (rule worker_less [OF i]) (simp_all add: pc)
  ultimately show ?thesis unfolding gets_on_def by (metis fst_conv snd_conv r_into_rtranclp)
next
  case False
  have "i < length (w_phases w)" using i linkedD(3) [OF link] by simp
  from worker_gets_nearer [OF inv this False] obtain w' where w': "nearer i w w'" by blast
  have "\<exists>s'. removal_step blank (s, w) (s', w')"
  proof (cases "\<exists>n c. w_phases w ! i = Publishing n c")
    case True
    with w' obtain n c where "w_phases w ! i = Publishing n c" "w' = published i n c w" by (auto simp: nearer_def)
    with child_submitted [OF i pc, of w n c blank] show ?thesis by blast
  next
    case other: False
    with w' process_runs [OF i pc False, of w'] show ?thesis by (auto simp: nearer_def)
  qed
  with w' show ?thesis unfolding gets_on_def nearer_def by (metis snd_conv r_into_rtranclp)
qed

lemma removal_gets_on:
  assumes link: "linked (s, w)" and inv: "counts_ok w" "tree_ok w" and told: "exits_told s" and m: "sd_main s \<noteq> Returned"
  shows "gets_on blank (s, w)"
proof (cases "\<exists>i < max_workers s. \<exists>t p. sd_workers s ! i = Processing t p")
  case True
  with process_gets_on [OF link inv] show ?thesis by blast
next
  case False
  with scheduler_advances [OF linkedD(1) [OF link] told m, of blank] obtain s'
    where run: "(quiet_step blank)\<^sup>*\<^sup>* s s'" and lt: "left_to_do s' < left_to_do s" by (auto simp: advances_def)
  from quiet_lifts [OF run link] lt show ?thesis unfolding gets_on_def no_worse_def by (metis fst_conv snd_conv)
qed

lemma removal_finishes:
  assumes "removal_reachable blank threads (s, w)" and "1 + max 1 threads + w_next w < 2 ^ 32"
  shows "\<exists>s' w'. (removal_step blank)\<^sup>*\<^sup>* (s, w) (s', w') \<and> sd_main s' = Returned \<and> w_next w' = w_next w"
proof -
  have "\<exists>s' w'. (removal_step blank)\<^sup>*\<^sup>* r (s', w') \<and> sd_main s' = Returned \<and> w_next w' = w_next (snd r)"
    if "removal_reachable blank threads r" "1 + max 1 threads + w_next (snd r) < 2 ^ 32" for r
    using that
  proof (induction r rule: wf_induct_rule [OF wf_inv_image [OF wf_lex_prod [OF wf_less_than wf_less_than]],
        of "\<lambda>r. (walk_weight (snd r), left_to_do (fst r))"])
    case (1 r)
    obtain s w where r: "r = (s, w)" by fastforce
    note B = reachable_both [OF 1(2) [unfolded r]]
    have inv: "counts_ok w" "tree_ok w" using reachable_inv [OF B(3)] 1(3) r by auto
    show ?case
    proof (cases "sd_main s = Returned")
      case True
      then show ?thesis unfolding r by auto
    next
      case False
      from removal_gets_on [OF B(1) inv exits_reachable [OF B(2)] False, of blank] obtain s1 w1
        where run: "(removal_step blank)\<^sup>*\<^sup>* (s, w) (s1, w1)" and same: "w_next w1 = w_next w"
          and less: "walk_weight w1 < walk_weight w \<or> w1 = w \<and> left_to_do s1 < left_to_do s" by (auto simp: gets_on_def)
      have "removal_reachable blank threads (s1, w1)" using 1(2) run unfolding removal_reachable_def r by (rule rtranclp_trans)
      with 1(1) [of "(s1, w1)"] 1(3) same less obtain s' w'
        where "(removal_step blank)\<^sup>*\<^sup>* (s1, w1) (s', w')" "sd_main s' = Returned" "w_next w' = w_next w1" by (auto simp: r)
      with run same show ?thesis unfolding r by (metis rtranclp_trans snd_conv)
    qed
  qed
  from this [OF assms(1)] assms(2) show ?thesis by simp
qed

subsection \<open>Properties\<close>

text \<open>
  C3: the scheduler, with its queues and counters, is the bag of tasks the node protocol is
  written over: whatever the threads do, the nodes go through a run of that protocol, its
  tasks are the nodes in a queue or on their way into one, and only a worker inside
  \<open>Process\<close> holds a node.
\<close>

theorem scheduler_carries_walk:
  assumes "removal_reachable blank threads (s, w)"
  shows "walk_reachable (max 1 threads) w \<and> w_tasks w = handed s \<and>
    (\<forall>i < max_workers s. w_phases w ! i \<noteq> phase.Idle \<longrightarrow> inside (sd_workers s ! i))"
  using reachable_both [OF assms] linkedD by blast

text \<open>
  C2: when \<open>Wait\<close> returns, every directory that was ever found is finished: no node is left,
  each was deleted exactly once and after everything found below it, and no thread runs.
\<close>

theorem all_finished_when_wait_returns:
  assumes "removal_reachable blank threads (s, w)" and "sd_main s = Returned"
    and "1 + max 1 threads + w_next w < 2 ^ 32"
  shows "(\<forall>n. w_heap w n = None) \<and> set (w_done w) = {..<w_next w} \<and> distinct (w_done w) \<and>
    (\<forall>i < length (w_done w). \<forall>c < w_next w. w_tree w c = Some (w_done w ! i) \<longrightarrow> c \<in> set (take i (w_done w))) \<and>
    list_all at_rest (sd_workers s)"
proof -
  note B = reachable_both [OF assms(1)]
  from reachable_inv [OF B(3) assms(3)] have inv: "counts_ok w" "tree_ok w" "done_ok w" by auto
  note S = linkedD(1) [OF B(1), unfolded sched_inv_def sched_core_def waiting_ok_def conserved_tasks]
  from S assms(2) have rest: "list_all at_rest (sd_workers s)" and "tasks s = {#}" by auto
  then have "quiescent w" using linked_quiescent [OF B(1)] by (simp add: tasks_def)
  from quiescent_empty [OF inv(1,2) this] done_okD [OF inv(3)] rest show ?thesis by auto
qed

text \<open>
  C4: the whole removal can always be brought to its end: from every state the threads can
  reach they can go on, finding nothing more, until \<open>Wait\<close> returns and every directory found
  so far is finished.
\<close>

theorem removal_can_return:
  assumes "removal_reachable blank threads (s, w)" and "1 + max 1 threads + w_next w < 2 ^ 32"
  shows "\<exists>s' w'. (removal_step blank)\<^sup>*\<^sup>* (s, w) (s', w') \<and> sd_main s' = Returned \<and> w_next w' = w_next w \<and>
    set (w_done w') = {..<w_next w}"
proof -
  from removal_finishes [OF assms] obtain s' w' where run: "(removal_step blank)\<^sup>*\<^sup>* (s, w) (s', w')"
    "sd_main s' = Returned" "w_next w' = w_next w" by blast
  have "removal_reachable blank threads (s', w')"
    using assms(1) run(1) unfolding removal_reachable_def by (rule rtranclp_trans)
  note B = reachable_both [OF this]
  from reachable_inv [OF B(3)] run(3) assms(2) have inv: "counts_ok w'" "tree_ok w'" "done_ok w'" by auto
  from linkedD(1) [OF B(1)] run(2) have "tasks s' = {#}" by (auto simp: sched_inv_def sched_core_def waiting_ok_def conserved_tasks)
  then have "quiescent w'" using linked_quiescent [OF B(1)] by (simp add: tasks_def)
  from quiescent_empty [OF inv(1,2) this] done_okD [OF inv(3)] have "set (w_done w') = {..<w_next w'}" by auto
  with run show ?thesis by auto
qed

subsection \<open>An example\<close>

text \<open>One root, handed to the scheduler.\<close>

definition one_root :: removal where
  "one_root = (snd (submit 0 k_runnable (sched_make 0 k_ranks 1)), seeded 3 ''top'' (initial_walk 1))"

lemma one_root_reachable: "removal_reachable 0 1 one_root"
proof -
  have "removal_step 0 (removal_start 0 1) one_root"
    using root_submitted [of "sched_make 0 k_ranks 1" 0 "initial_walk 1" 3 "''top''"]
    by (simp add: removal_start_def one_root_def sched_make_def initial_walk_def Let_def)
  then show ?thesis by (simp add: removal_reachable_def r_into_rtranclp)
qed

lemma one_root_next: "w_next (snd one_root) = 1"
  by (simp add: one_root_def seeded_def initial_walk_def)

theorem scheduler_carries_walk_witness:
  "w_tasks (snd one_root) = {#0#} \<and> handed (fst one_root) = {#0#} \<and> walk_reachable 1 (snd one_root)"
proof -
  have "removal_reachable 0 1 (fst one_root, snd one_root)" using one_root_reachable by simp
  note walk = scheduler_carries_walk [OF this]
  have "w_tasks (snd one_root) = {#0#}" by (simp add: one_root_def seeded_def initial_walk_def)
  with walk show ?thesis by simp
qed

theorem all_finished_when_wait_returns_witness:
  "\<exists>s w. removal_reachable 0 1 (s, w) \<and> sd_main s = Returned \<and> w_next w = 1 \<and> w_heap w 0 = None \<and> set (w_done w) = {0}"
proof -
  have r: "removal_reachable 0 1 (fst one_root, snd one_root)" using one_root_reachable by simp
  from removal_finishes [OF r] one_root_next obtain s w
    where run: "(removal_step 0)\<^sup>*\<^sup>* one_root (s, w)" and s: "sd_main s = Returned" and n: "w_next w = 1" by auto
  have sw: "removal_reachable 0 1 (s, w)"
    using one_root_reachable run unfolding removal_reachable_def by (rule rtranclp_trans)
  from all_finished_when_wait_returns [OF sw s] n have "w_heap w 0 = None" "set (w_done w) = {..<1}" by auto
  with sw s n show ?thesis by auto
qed

theorem removal_can_return_witness:
  "\<exists>s w. (removal_step 0)\<^sup>*\<^sup>* one_root (s, w) \<and> sd_main s = Returned \<and> set (w_done w) = {0}"
proof -
  have r: "removal_reachable 0 1 (fst one_root, snd one_root)" using one_root_reachable by simp
  from removal_can_return [OF r] one_root_next obtain s w
    where "(removal_step 0)\<^sup>*\<^sup>* one_root (s, w)" "sd_main s = Returned" "set (w_done w) = {..<1}" by auto
  then show ?thesis by auto
qed

end
