(* ===== verification/Heap_Array.thy ===== *)
theory Heap_Array
  imports Prelude
begin

section \<open>The fixed-size heap array\<close>

text \<open>
  \<open>HeapArray\<close> and its iterator, \<open>cutils/collections\<close>. Storage is explicit: a block is what an
  allocator handed out, and each of its cells is raw memory or holds an object. Touching a
  cell that holds none, freeing a block twice or with another allocator has no result
  (\<^const>\<open>None\<close>). An exception is a value; what it leaves behind in storage is in the state.
  Allocators are numbers, equal when the numbers are.
\<close>

subsection \<open>Storage\<close>

record 'a block =
  bl_alloc :: nat
  bl_cells :: "'a option list"

record 'a mem =
  mem_blocks :: "nat \<Rightarrow> 'a block option"
  mem_next :: nat

datatype ha_error = OutOfRange | LengthError | BadAlloc | ElementThrew

type_synonym ('r, 'a) ha_result = "(('r, ha_error) expected \<times> 'a mem) option"

definition on_ok :: "('r, 'a) ha_result \<Rightarrow> ('r \<Rightarrow> 'a mem \<Rightarrow> ('s, 'a) ha_result) \<Rightarrow> ('s, 'a) ha_result" where
  "on_ok r f =
     (case r of
        None \<Rightarrow> None
      | Some (Inl e, m) \<Rightarrow> Some (Inl e, m)
      | Some (Inr x, m) \<Rightarrow> f x m)"

lemma on_ok_simps [simp]:
  "on_ok None f = None" "on_ok (Some (Inl e, m)) f = Some (Inl e, m)" "on_ok (Some (Inr x, m)) f = f x m"
  by (simp_all add: on_ok_def)

text \<open>
  What the traits of the allocator fix: which assignments and swaps carry it along, the
  allocator of a copy, the largest size, and the requests it refuses. And how elements are
  made: a default, a copy and a move, each of which may throw; a move also says what it leaves
  in its source, when it throws too.
\<close>

record traits =
  tr_pocca :: bool
  tr_pocma :: bool
  tr_pocs :: bool
  tr_select :: "nat \<Rightarrow> nat"
  tr_max_size :: "nat \<Rightarrow> nat"
  tr_refuses :: "nat \<Rightarrow> nat \<Rightarrow> bool"

record 'a element =
  el_default :: "('a, ha_error) expected"
  el_copy :: "'a \<Rightarrow> ('a, ha_error) expected"
  el_move :: "'a \<Rightarrow> ('a, ha_error) expected \<times> 'a"

definition allocate :: "traits \<Rightarrow> nat \<Rightarrow> nat \<Rightarrow> 'a mem \<Rightarrow> (nat option, 'a) ha_result" where
  "allocate tr al n m =
     (if tr_refuses tr al n then Some (Inl BadAlloc, m)
      else Some (Inr (Some (mem_next m)),
        \<lparr>mem_blocks = (mem_blocks m)(mem_next m \<mapsto> \<lparr>bl_alloc = al, bl_cells = replicate n None\<rparr>),
         mem_next = Suc (mem_next m)\<rparr>))"

definition read_cell :: "nat option \<Rightarrow> nat \<Rightarrow> 'a mem \<Rightarrow> 'a option" where
  "read_cell p i m =
     (case p of
        None \<Rightarrow> None
      | Some q \<Rightarrow>
          (case mem_blocks m q of
             None \<Rightarrow> None
           | Some b \<Rightarrow> if i < length (bl_cells b) then bl_cells b ! i else None))"

definition write_cell :: "nat option \<Rightarrow> nat \<Rightarrow> 'a option \<Rightarrow> 'a mem \<Rightarrow> 'a mem option" where
  "write_cell p i c m =
     (case p of
        None \<Rightarrow> None
      | Some q \<Rightarrow>
          (case mem_blocks m q of
             None \<Rightarrow> None
           | Some b \<Rightarrow>
               if i < length (bl_cells b)
               then Some (m\<lparr>mem_blocks := (mem_blocks m)(q \<mapsto> b\<lparr>bl_cells := (bl_cells b)[i := c]\<rparr>)\<rparr>)
               else None))"

definition construct :: "nat option \<Rightarrow> nat \<Rightarrow> 'a \<Rightarrow> 'a mem \<Rightarrow> 'a mem option" where
  "construct p i v m = write_cell p i (Some v) m"

definition destroy_at :: "nat option \<Rightarrow> nat \<Rightarrow> 'a mem \<Rightarrow> 'a mem option" where
  "destroy_at p i m = (if read_cell p i m = None then None else write_cell p i None m)"

definition deallocate :: "nat \<Rightarrow> nat option \<Rightarrow> nat \<Rightarrow> 'a mem \<Rightarrow> 'a mem option" where
  "deallocate al p n m =
     (case p of
        None \<Rightarrow> None
      | Some q \<Rightarrow>
          (case mem_blocks m q of
             None \<Rightarrow> None
           | Some b \<Rightarrow>
               if bl_alloc b = al \<and> length (bl_cells b) = n
               then Some (m\<lparr>mem_blocks := (mem_blocks m)(q := None)\<rparr>) else None))"

subsection \<open>Building and releasing a block\<close>

record heap_array =
  ha_data :: "nat option"
  ha_size :: nat
  ha_alloc :: nat

definition ha_max_size :: "traits \<Rightarrow> nat \<Rightarrow> nat" where
  "ha_max_size tr al = min (tr_max_size tr al) (2 ^ 63 - 1)"

definition allocate_block :: "traits \<Rightarrow> nat \<Rightarrow> nat \<Rightarrow> 'a mem \<Rightarrow> (nat option, 'a) ha_result" where
  "allocate_block tr al n m = (if n = 0 then Some (Inr None, m) else allocate tr al n m)"

text \<open>The loop of \<open>BuildBlock\<close> at index \<open>i\<close>, with \<open>k\<close> elements to go.\<close>

fun build_elems :: "(nat \<Rightarrow> 'a mem \<Rightarrow> ('a, 'a) ha_result) \<Rightarrow> nat option \<Rightarrow> nat \<Rightarrow> nat \<Rightarrow> 'a mem
    \<Rightarrow> (unit, 'a) ha_result" where
  "build_elems init p i 0 m = Some (Inr (), m)"
| "build_elems init p i (Suc k) m =
     on_ok (init i m) (\<lambda>v m. Option.bind (construct p i v m) (\<lambda>m. build_elems init p (Suc i) k m))"

definition build_block :: "traits \<Rightarrow> nat \<Rightarrow> nat \<Rightarrow> (nat \<Rightarrow> 'a mem \<Rightarrow> ('a, 'a) ha_result) \<Rightarrow> 'a mem
    \<Rightarrow> (nat option, 'a) ha_result" where
  "build_block tr al n init m =
     (if n = 0 then Some (Inr None, m)
      else if n > ha_max_size tr al then Some (Inl LengthError, m)
      else on_ok (allocate_block tr al n m) (\<lambda>p m.
        on_ok (build_elems init p 0 n m) (\<lambda>_ m. Some (Inr p, m))))"

text \<open>Destruction goes from the last element to the first.\<close>

fun destroy_elems :: "nat option \<Rightarrow> nat \<Rightarrow> 'a mem \<Rightarrow> 'a mem option" where
  "destroy_elems p 0 m = Some m"
| "destroy_elems p (Suc i) m = Option.bind (destroy_at p i m) (destroy_elems p i)"

definition destroy_and_deallocate :: "heap_array \<Rightarrow> 'a mem \<Rightarrow> 'a mem option" where
  "destroy_and_deallocate a m =
     (if ha_size a = 0 then Some m
      else Option.bind (destroy_elems (ha_data a) (ha_size a) m)
        (\<lambda>m. deallocate (ha_alloc a) (ha_data a) (ha_size a) m))"

subsection \<open>How elements are initialised\<close>

definition init_value :: "('a, ha_error) expected \<Rightarrow> nat \<Rightarrow> 'a mem \<Rightarrow> ('a, 'a) ha_result" where
  "init_value v i m = Some (v, m)"

definition init_garbage :: "(nat \<Rightarrow> 'a) \<Rightarrow> nat \<Rightarrow> 'a mem \<Rightarrow> ('a, 'a) ha_result" where
  "init_garbage garbage i m = Some (Inr (garbage i), m)"

text \<open>From an iterator over a range, which has moved \<open>i\<close> steps; \<open>conv\<close> makes the element.\<close>

definition init_range :: "('b \<Rightarrow> ('a, ha_error) expected) \<Rightarrow> 'b list \<Rightarrow> nat \<Rightarrow> 'a mem \<Rightarrow> ('a, 'a) ha_result" where
  "init_range conv xs i m = (if i < length xs then Some (conv (xs ! i), m) else None)"

definition init_copy :: "'a element \<Rightarrow> nat option \<Rightarrow> nat \<Rightarrow> 'a mem \<Rightarrow> ('a, 'a) ha_result" where
  "init_copy el src i m =
     (case read_cell src i m of None \<Rightarrow> None | Some v \<Rightarrow> Some (el_copy el v, m))"

definition init_move :: "'a element \<Rightarrow> nat option \<Rightarrow> nat \<Rightarrow> 'a mem \<Rightarrow> ('a, 'a) ha_result" where
  "init_move el src i m =
     (case read_cell src i m of
        None \<Rightarrow> None
      | Some v \<Rightarrow>
          (case el_move el v of (taken, rest) \<Rightarrow>
             map_option (\<lambda>m. (taken, m)) (write_cell src i (Some rest) m)))"

subsection \<open>Constructors and destructor\<close>

definition ha_empty :: "nat \<Rightarrow> heap_array" where
  "ha_empty al = \<lparr>ha_data = None, ha_size = 0, ha_alloc = al\<rparr>"

definition ha_built :: "traits \<Rightarrow> nat \<Rightarrow> nat \<Rightarrow> (nat \<Rightarrow> 'a mem \<Rightarrow> ('a, 'a) ha_result) \<Rightarrow> 'a mem
    \<Rightarrow> (heap_array, 'a) ha_result" where
  "ha_built tr al n init m =
     on_ok (build_block tr al n init m) (\<lambda>p m. Some (Inr \<lparr>ha_data = p, ha_size = n, ha_alloc = al\<rparr>, m))"

definition ha_count :: "traits \<Rightarrow> 'a element \<Rightarrow> nat \<Rightarrow> nat \<Rightarrow> 'a mem \<Rightarrow> (heap_array, 'a) ha_result" where
  "ha_count tr el n al = ha_built tr al n (init_value (el_default el))"

definition ha_for_overwrite :: "traits \<Rightarrow> (nat \<Rightarrow> 'a) \<Rightarrow> nat \<Rightarrow> nat \<Rightarrow> 'a mem \<Rightarrow> (heap_array, 'a) ha_result" where
  "ha_for_overwrite tr garbage n al = ha_built tr al n (init_garbage garbage)"

definition ha_fill :: "traits \<Rightarrow> 'a element \<Rightarrow> nat \<Rightarrow> 'a \<Rightarrow> nat \<Rightarrow> 'a mem \<Rightarrow> (heap_array, 'a) ha_result" where
  "ha_fill tr el n v al = ha_built tr al n (init_value (el_copy el v))"

definition ha_range :: "traits \<Rightarrow> ('b \<Rightarrow> ('a, ha_error) expected) \<Rightarrow> 'b list \<Rightarrow> nat \<Rightarrow> 'a mem
    \<Rightarrow> (heap_array, 'a) ha_result" where
  "ha_range tr conv xs al = ha_built tr al (length xs) (init_range conv xs)"

text \<open>
  The tag-dispatched constructor asks a sized range for its size and measures any other:
  here both are the length.
\<close>

definition ha_from_range :: "traits \<Rightarrow> ('b \<Rightarrow> ('a, ha_error) expected) \<Rightarrow> 'b list \<Rightarrow> nat \<Rightarrow> 'a mem
    \<Rightarrow> (heap_array, 'a) ha_result" where
  "ha_from_range tr conv xs al =
     (let n = length xs in ha_built tr al n (init_range conv xs))"

definition ha_list :: "traits \<Rightarrow> 'a element \<Rightarrow> 'a list \<Rightarrow> nat \<Rightarrow> 'a mem \<Rightarrow> (heap_array, 'a) ha_result" where
  "ha_list tr el xs al = ha_built tr al (length xs) (init_range (el_copy el) xs)"

definition ha_copy_with :: "traits \<Rightarrow> 'a element \<Rightarrow> heap_array \<Rightarrow> nat \<Rightarrow> 'a mem \<Rightarrow> (heap_array, 'a) ha_result" where
  "ha_copy_with tr el other al = ha_built tr al (ha_size other) (init_copy el (ha_data other))"

definition ha_copy :: "traits \<Rightarrow> 'a element \<Rightarrow> heap_array \<Rightarrow> 'a mem \<Rightarrow> (heap_array, 'a) ha_result" where
  "ha_copy tr el other =
     ha_built tr (tr_select tr (ha_alloc other)) (ha_size other) (init_copy el (ha_data other))"

definition emptied :: "heap_array \<Rightarrow> heap_array" where
  "emptied other = other\<lparr>ha_data := None, ha_size := 0\<rparr>"

text \<open>The new array and the one moved from.\<close>

definition ha_move :: "heap_array \<Rightarrow> heap_array \<times> heap_array" where
  "ha_move other = (\<lparr>ha_data = ha_data other, ha_size = ha_size other, ha_alloc = ha_alloc other\<rparr>, emptied other)"

definition ha_move_with :: "traits \<Rightarrow> 'a element \<Rightarrow> heap_array \<Rightarrow> nat \<Rightarrow> 'a mem
    \<Rightarrow> (heap_array \<times> heap_array, 'a) ha_result" where
  "ha_move_with tr el other al m =
     (if al = ha_alloc other
      then Some (Inr (\<lparr>ha_data = ha_data other, ha_size = ha_size other, ha_alloc = al\<rparr>, emptied other), m)
      else on_ok (ha_built tr al (ha_size other) (init_move el (ha_data other)) m) (\<lambda>a m. Some (Inr (a, other), m)))"

subsection \<open>Assignment and swap\<close>

text \<open>\<open>same\<close>: whether the two sides are one object.\<close>

definition ha_assign :: "traits \<Rightarrow> 'a element \<Rightarrow> bool \<Rightarrow> heap_array \<Rightarrow> heap_array \<Rightarrow> 'a mem
    \<Rightarrow> (heap_array, 'a) ha_result" where
  "ha_assign tr el same self other m =
     (if same then Some (Inr self, m)
      else if tr_pocca tr \<and> ha_alloc self \<noteq> ha_alloc other then
        on_ok (build_block tr (ha_alloc other) (ha_size other) (init_copy el (ha_data other)) m) (\<lambda>p m.
          Option.bind (destroy_and_deallocate self m) (\<lambda>m.
            Some (Inr \<lparr>ha_data = p, ha_size = ha_size other, ha_alloc = ha_alloc other\<rparr>, m)))
      else
        on_ok (build_block tr (ha_alloc self) (ha_size other) (init_copy el (ha_data other)) m) (\<lambda>p m.
          Option.bind (destroy_and_deallocate self m) (\<lambda>m.
            Some (Inr \<lparr>ha_data = p, ha_size = ha_size other,
              ha_alloc = (if tr_pocca tr then ha_alloc other else ha_alloc self)\<rparr>, m))))"

definition ha_move_assign :: "traits \<Rightarrow> 'a element \<Rightarrow> bool \<Rightarrow> heap_array \<Rightarrow> heap_array \<Rightarrow> 'a mem
    \<Rightarrow> (heap_array \<times> heap_array, 'a) ha_result" where
  "ha_move_assign tr el same self other m =
     (if same then Some (Inr (self, other), m)
      else if tr_pocma tr then
        Option.bind (destroy_and_deallocate self m) (\<lambda>m.
          Some (Inr (\<lparr>ha_data = ha_data other, ha_size = ha_size other, ha_alloc = ha_alloc other\<rparr>, emptied other), m))
      else if ha_alloc self = ha_alloc other then
        Option.bind (destroy_and_deallocate self m) (\<lambda>m.
          Some (Inr (self\<lparr>ha_data := ha_data other, ha_size := ha_size other\<rparr>, emptied other), m))
      else
        on_ok (build_block tr (ha_alloc self) (ha_size other) (init_move el (ha_data other)) m) (\<lambda>p m.
          Option.bind (destroy_and_deallocate self m) (\<lambda>m.
            Option.bind (destroy_and_deallocate other m) (\<lambda>m.
              Some (Inr (self\<lparr>ha_data := p, ha_size := ha_size other\<rparr>, emptied other), m)))))"

definition ha_assign_list :: "traits \<Rightarrow> 'a element \<Rightarrow> heap_array \<Rightarrow> 'a list \<Rightarrow> 'a mem
    \<Rightarrow> (heap_array, 'a) ha_result" where
  "ha_assign_list tr el self xs m =
     on_ok (build_block tr (ha_alloc self) (length xs) (init_range (el_copy el) xs) m) (\<lambda>p m.
       Option.bind (destroy_and_deallocate self m) (\<lambda>m.
         Some (Inr (self\<lparr>ha_data := p, ha_size := length xs\<rparr>), m)))"

definition ha_swap :: "traits \<Rightarrow> heap_array \<Rightarrow> heap_array \<Rightarrow> heap_array \<times> heap_array" where
  "ha_swap tr a b =
     (let (al, al') = (if tr_pocs tr then (ha_alloc b, ha_alloc a) else (ha_alloc a, ha_alloc b))
      in (\<lparr>ha_data = ha_data b, ha_size = ha_size b, ha_alloc = al\<rparr>,
          \<lparr>ha_data = ha_data a, ha_size = ha_size a, ha_alloc = al'\<rparr>))"

subsection \<open>Programs over several arrays\<close>

text \<open>
  One call after another on a row of arrays, by position: a constructor adds an array at the
  end, the destructor takes one out. A call that throws leaves the row as it is.
\<close>

datatype 'a ha_op =
    HaEmpty nat
  | HaCount nat nat
  | HaOverwrite nat nat
  | HaFill nat 'a nat
  | HaList "'a list" nat
  | HaCopy nat
  | HaCopyWith nat nat
  | HaMove nat
  | HaMoveWith nat nat
  | HaDestroy nat
  | HaAssign nat nat
  | HaMoveAssign nat nat
  | HaAssignList nat "'a list"
  | HaSwap nat nat

definition added :: "heap_array list \<Rightarrow> (heap_array, 'a) ha_result \<Rightarrow> (heap_array list, 'a) ha_result" where
  "added as r = on_ok r (\<lambda>a m. Some (Inr (as @ [a]), m))"

fun do_op :: "traits \<Rightarrow> 'a element \<Rightarrow> (nat \<Rightarrow> 'a) \<Rightarrow> 'a ha_op \<Rightarrow> heap_array list \<Rightarrow> 'a mem
    \<Rightarrow> (heap_array list, 'a) ha_result" where
  "do_op tr el garbage (HaEmpty al) as m = Some (Inr (as @ [ha_empty al]), m)"
| "do_op tr el garbage (HaCount n al) as m = added as (ha_count tr el n al m)"
| "do_op tr el garbage (HaOverwrite n al) as m = added as (ha_for_overwrite tr garbage n al m)"
| "do_op tr el garbage (HaFill n v al) as m = added as (ha_fill tr el n v al m)"
| "do_op tr el garbage (HaList xs al) as m = added as (ha_list tr el xs al m)"
| "do_op tr el garbage (HaCopy i) as m = added as (ha_copy tr el (as ! i) m)"
| "do_op tr el garbage (HaCopyWith i al) as m = added as (ha_copy_with tr el (as ! i) al m)"
| "do_op tr el garbage (HaMove i) as m =
     (case ha_move (as ! i) of (a, other) \<Rightarrow> Some (Inr (as[i := other] @ [a]), m))"
| "do_op tr el garbage (HaMoveWith i al) as m =
     on_ok (ha_move_with tr el (as ! i) al m) (\<lambda>(a, other) m. Some (Inr (as[i := other] @ [a]), m))"
| "do_op tr el garbage (HaDestroy i) as m =
     Option.bind (destroy_and_deallocate (as ! i) m) (\<lambda>m. Some (Inr (take i as @ drop (Suc i) as), m))"
| "do_op tr el garbage (HaAssign i j) as m =
     on_ok (ha_assign tr el (i = j) (as ! i) (as ! j) m) (\<lambda>a m. Some (Inr (as[i := a]), m))"
| "do_op tr el garbage (HaMoveAssign i j) as m =
     on_ok (ha_move_assign tr el (i = j) (as ! i) (as ! j) m) (\<lambda>(a, other) m.
       Some (Inr ((as[j := other])[i := a]), m))"
| "do_op tr el garbage (HaAssignList i xs) as m =
     on_ok (ha_assign_list tr el (as ! i) xs m) (\<lambda>a m. Some (Inr (as[i := a]), m))"
| "do_op tr el garbage (HaSwap i j) as m =
     (case ha_swap tr (as ! i) (as ! j) of (a, b) \<Rightarrow> Some (Inr ((as[j := b])[i := a]), m))"

text \<open>A program that catches what a call throws and goes on.\<close>

fun try_ops :: "traits \<Rightarrow> 'a element \<Rightarrow> (nat \<Rightarrow> 'a) \<Rightarrow> 'a ha_op list \<Rightarrow> heap_array list \<Rightarrow> 'a mem
    \<Rightarrow> (heap_array list \<times> 'a mem) option" where
  "try_ops tr el garbage [] as m = Some (as, m)"
| "try_ops tr el garbage (c # cs) as m =
     (case do_op tr el garbage c as m of
        None \<Rightarrow> None
      | Some (Inl e, m) \<Rightarrow> try_ops tr el garbage cs as m
      | Some (Inr as, m) \<Rightarrow> try_ops tr el garbage cs as m)"

subsection \<open>What the calls mean\<close>

text \<open>
  The specification: an array is a list with an allocator. \<open>moved\<close> moves the elements out of a
  list one by one, until one throws: the elements obtained or the exception, and what is
  left in the list.
\<close>

type_synonym 'a row = "(nat \<times> 'a list) list"

fun moved :: "'a element \<Rightarrow> 'a list \<Rightarrow> ('a list, ha_error) expected \<times> 'a list" where
  "moved el [] = (Inr [], [])"
| "moved el (x # xs) =
     (case el_move el x of
        (Inl e, y) \<Rightarrow> (Inl e, y # xs)
      | (Inr v, y) \<Rightarrow>
          (case moved el xs of
             (Inl e, ys) \<Rightarrow> (Inl e, y # ys)
           | (Inr vs, ys) \<Rightarrow> (Inr (v # vs), y # ys)))"

definition taken :: "'a element \<Rightarrow> 'a list \<Rightarrow> 'a list" where
  "taken el xs = projr (fst (moved el xs))"

definition left :: "'a element \<Rightarrow> 'a list \<Rightarrow> 'a list" where
  "left el xs = snd (moved el xs)"

fun row_op :: "traits \<Rightarrow> 'a element \<Rightarrow> (nat \<Rightarrow> 'a) \<Rightarrow> 'a ha_op \<Rightarrow> 'a row \<Rightarrow> 'a row" where
  "row_op tr el garbage (HaEmpty al) st = st @ [(al, [])]"
| "row_op tr el garbage (HaCount n al) st = st @ [(al, replicate n (projr (el_default el)))]"
| "row_op tr el garbage (HaOverwrite n al) st = st @ [(al, map garbage [0..<n])]"
| "row_op tr el garbage (HaFill n v al) st = st @ [(al, replicate n v)]"
| "row_op tr el garbage (HaList xs al) st = st @ [(al, xs)]"
| "row_op tr el garbage (HaCopy i) st = st @ [(tr_select tr (fst (st ! i)), snd (st ! i))]"
| "row_op tr el garbage (HaCopyWith i al) st = st @ [(al, snd (st ! i))]"
| "row_op tr el garbage (HaMove i) st = st[i := (fst (st ! i), [])] @ [st ! i]"
| "row_op tr el garbage (HaMoveWith i al) st =
     (if al = fst (st ! i) then st[i := (al, [])] @ [st ! i]
      else st[i := (fst (st ! i), left el (snd (st ! i)))] @ [(al, taken el (snd (st ! i)))])"
| "row_op tr el garbage (HaDestroy i) st = take i st @ drop (Suc i) st"
| "row_op tr el garbage (HaAssign i j) st =
     (if i = j then st else st[i := (if tr_pocca tr then fst (st ! j) else fst (st ! i), snd (st ! j))])"
| "row_op tr el garbage (HaMoveAssign i j) st =
     (if i = j then st
      else if tr_pocma tr \<or> fst (st ! i) = fst (st ! j) then (st[j := (fst (st ! j), [])])[i := st ! j]
      else (st[j := (fst (st ! j), [])])[i := (fst (st ! i), taken el (snd (st ! j)))])"
| "row_op tr el garbage (HaAssignList i xs) st = st[i := (fst (st ! i), xs)]"
| "row_op tr el garbage (HaSwap i j) st = (st[j := st ! i])[i := st ! j]"

text \<open>
  The preconditions of a call: its arrays exist, and two arrays whose allocators differ are
  swapped only when the allocators are swapped too.
\<close>

fun op_valid :: "traits \<Rightarrow> 'a ha_op \<Rightarrow> 'a row \<Rightarrow> bool" where
  "op_valid tr (HaCopy i) st = (i < length st)"
| "op_valid tr (HaCopyWith i al) st = (i < length st)"
| "op_valid tr (HaMove i) st = (i < length st)"
| "op_valid tr (HaMoveWith i al) st = (i < length st)"
| "op_valid tr (HaDestroy i) st = (i < length st)"
| "op_valid tr (HaAssign i j) st = (i < length st \<and> j < length st)"
| "op_valid tr (HaMoveAssign i j) st = (i < length st \<and> j < length st)"
| "op_valid tr (HaAssignList i xs) st = (i < length st)"
| "op_valid tr (HaSwap i j) st =
     (i < length st \<and> j < length st \<and> (tr_pocs tr \<or> fst (st ! i) = fst (st ! j)))"
| "op_valid tr c st = True"

text \<open>What a call may ask of an allocator without being refused.\<close>

definition room :: "traits \<Rightarrow> nat \<Rightarrow> nat \<Rightarrow> bool" where
  "room tr al n \<longleftrightarrow> n = 0 \<or> n \<le> ha_max_size tr al \<and> \<not> tr_refuses tr al n"

fun op_fits :: "traits \<Rightarrow> 'a ha_op \<Rightarrow> 'a row \<Rightarrow> bool" where
  "op_fits tr (HaCount n al) st = room tr al n"
| "op_fits tr (HaOverwrite n al) st = room tr al n"
| "op_fits tr (HaFill n v al) st = room tr al n"
| "op_fits tr (HaList xs al) st = room tr al (length xs)"
| "op_fits tr (HaCopy i) st = room tr (tr_select tr (fst (st ! i))) (length (snd (st ! i)))"
| "op_fits tr (HaCopyWith i al) st = room tr al (length (snd (st ! i)))"
| "op_fits tr (HaMoveWith i al) st = (al = fst (st ! i) \<or> room tr al (length (snd (st ! i))))"
| "op_fits tr (HaAssign i j) st =
     (i = j \<or> room tr (if tr_pocca tr then fst (st ! j) else fst (st ! i)) (length (snd (st ! j))))"
| "op_fits tr (HaMoveAssign i j) st =
     (i = j \<or> tr_pocma tr \<or> fst (st ! i) = fst (st ! j) \<or> room tr (fst (st ! i)) (length (snd (st ! j))))"
| "op_fits tr (HaAssignList i xs) st = room tr (fst (st ! i)) (length xs)"
| "op_fits tr c st = True"

text \<open>
  A series of calls of which an allocator may refuse some: those have no effect.
\<close>

definition row_try :: "traits \<Rightarrow> 'a element \<Rightarrow> (nat \<Rightarrow> 'a) \<Rightarrow> 'a ha_op \<Rightarrow> 'a row \<Rightarrow> 'a row" where
  "row_try tr el garbage c st = (if op_fits tr c st then row_op tr el garbage c st else st)"

fun row_tries :: "traits \<Rightarrow> 'a element \<Rightarrow> (nat \<Rightarrow> 'a) \<Rightarrow> 'a ha_op list \<Rightarrow> 'a row \<Rightarrow> 'a row" where
  "row_tries tr el garbage [] st = st"
| "row_tries tr el garbage (c # cs) st = row_tries tr el garbage cs (row_try tr el garbage c st)"

fun tries_valid :: "traits \<Rightarrow> 'a element \<Rightarrow> (nat \<Rightarrow> 'a) \<Rightarrow> 'a ha_op list \<Rightarrow> 'a row \<Rightarrow> bool" where
  "tries_valid tr el garbage [] st = True"
| "tries_valid tr el garbage (c # cs) st =
     (op_valid tr c st \<and> tries_valid tr el garbage cs (row_try tr el garbage c st))"

text \<open>
  What a call that throws leaves: the arrays as they were, but that the source of a move between
  different allocators has lost the elements moved before the one that threw.
\<close>

fun row_thrown :: "traits \<Rightarrow> 'a element \<Rightarrow> 'a ha_op \<Rightarrow> 'a row \<Rightarrow> 'a row" where
  "row_thrown tr el (HaMoveWith i al) st =
     (if al \<noteq> fst (st ! i) \<and> room tr al (length (snd (st ! i)))
      then st[i := (fst (st ! i), left el (snd (st ! i)))] else st)"
| "row_thrown tr el (HaMoveAssign i j) st =
     (if i \<noteq> j \<and> \<not> tr_pocma tr \<and> fst (st ! i) \<noteq> fst (st ! j) \<and> room tr (fst (st ! i)) (length (snd (st ! j)))
      then st[j := (fst (st ! j), left el (snd (st ! j)))] else st)"
| "row_thrown tr el c st = st"

text \<open>A copy, when it is made, equals the original.\<close>

definition copies_equal :: "'a element \<Rightarrow> bool" where
  "copies_equal el \<longleftrightarrow> (\<forall>x y. el_copy el x = Inr y \<longrightarrow> y = x)"

definition never_throws :: "'a element \<Rightarrow> bool" where
  "never_throws el \<longleftrightarrow> (\<forall>x. el_copy el x = Inr x) \<and> (\<exists>d. el_default el = Inr d) \<and>
     (\<forall>x. \<not> isl (fst (el_move el x)))"

subsection \<open>The invariant\<close>

text \<open>The storage of an array holds its elements, all of them constructed, and nothing else.\<close>

definition holds :: "'a mem \<Rightarrow> heap_array \<Rightarrow> 'a list \<Rightarrow> bool" where
  "holds m a xs \<longleftrightarrow> ha_size a = length xs \<and>
     (case ha_data a of
        None \<Rightarrow> xs = []
      | Some p \<Rightarrow> xs \<noteq> [] \<and> mem_blocks m p = Some \<lparr>bl_alloc = ha_alloc a, bl_cells = map Some xs\<rparr>)"

definition stored :: "'a mem \<Rightarrow> heap_array list \<Rightarrow> 'a row \<Rightarrow> bool" where
  "stored m as st \<longleftrightarrow> list_all2 (\<lambda>a s. ha_alloc a = fst s \<and> holds m a (snd s)) as st"

definition own :: "heap_array \<Rightarrow> nat multiset" where
  "own a = (case ha_data a of None \<Rightarrow> {#} | Some p \<Rightarrow> {#p#})"

definition owners :: "heap_array list \<Rightarrow> nat multiset" where
  "owners as = (\<Sum>a\<leftarrow>as. own a)"

text \<open>Every block has exactly one owner: nothing is shared and nothing is leaked.\<close>

definition arrays_ok :: "'a mem \<Rightarrow> heap_array list \<Rightarrow> 'a row \<Rightarrow> bool" where
  "arrays_ok m as st \<longleftrightarrow> stored m as st \<and> finite (dom (mem_blocks m)) \<and>
     owners as = mset_set (dom (mem_blocks m)) \<and> (\<forall>p\<in>dom (mem_blocks m). p < mem_next m)"

subsection \<open>Building and releasing, in one step\<close>

text \<open>Storage that agrees outside the blocks in \<open>P\<close>.\<close>

definition same_but :: "nat set \<Rightarrow> 'a mem \<Rightarrow> 'a mem \<Rightarrow> bool" where
  "same_but P m m' \<longleftrightarrow> (\<forall>q. q \<notin> P \<longrightarrow> mem_blocks m' q = mem_blocks m q)"

lemma same_but_refl [simp]: "same_but P m m"
  by (simp add: same_but_def)

lemma same_but_trans: "same_but P m m1 \<Longrightarrow> same_but P m1 m2 \<Longrightarrow> same_but P m m2"
  by (simp add: same_but_def)

lemma same_but_upd [simp]: "p \<in> P \<Longrightarrow> same_but P m (m\<lparr>mem_blocks := (mem_blocks m)(p := b)\<rparr>)"
  by (simp add: same_but_def)

lemma construct_at:
  "mem_blocks m p = Some b \<Longrightarrow> i < length (bl_cells b) \<Longrightarrow>
    construct (Some p) i v m = Some (m\<lparr>mem_blocks := (mem_blocks m)(p \<mapsto> b\<lparr>bl_cells := (bl_cells b)[i := Some v]\<rparr>)\<rparr>)"
  by (simp add: construct_def write_cell_def)

text \<open>
  The loop when an element's initialisation does not touch storage: it writes the values, or
  stops at the first that throws; only its own block is changed.
\<close>

lemma build_elems_pure:
  assumes "mem_blocks m p = Some b" and "length (bl_cells b) = i + k"
    and "\<And>j m'. j < i + k \<Longrightarrow> same_but {p} m m' \<Longrightarrow> init j m' = Some (r j, m')"
  shows "(if \<exists>j. i \<le> j \<and> j < i + k \<and> isl (r j)
     then \<exists>e m'. build_elems init (Some p) i k m = Some (Inl e, m') \<and> same_but {p} m m'
     else build_elems init (Some p) i k m = Some (Inr (), m\<lparr>mem_blocks := (mem_blocks m)
       (p \<mapsto> b\<lparr>bl_cells := take i (bl_cells b) @ map (\<lambda>j. Some (projr (r j))) [i..<i + k]\<rparr>)\<rparr>))"
  using assms
proof (induction k arbitrary: i m b)
  case 0
  then show ?case by (auto simp: map_upd_triv)
next
  case (Suc k)
  have run: "init i m = Some (r i, m)" using Suc.prems(3) [of i m] by simp
  show ?case
  proof (cases "r i")
    case (Inl e)
    then have "\<exists>j. i \<le> j \<and> j < i + Suc k \<and> isl (r j)" by (intro exI [of _ i]) simp
    with run Inl show ?thesis by (auto intro!: exI [of _ m])
  next
    case (Inr v)
    let ?b = "b\<lparr>bl_cells := (bl_cells b)[i := Some v]\<rparr>"
    let ?m = "m\<lparr>mem_blocks := (mem_blocks m)(p \<mapsto> ?b)\<rparr>"
    have step: "build_elems init (Some p) i (Suc k) m = build_elems init (Some p) (Suc i) k ?m"
      using run Inr construct_at [OF Suc.prems(1), of i v] Suc.prems(2) by simp
    have init: "init j m' = Some (r j, m')" if "j < Suc i + k" "same_but {p} ?m m'" for j m'
      using that Suc.prems(3) [of j m'] same_but_trans [of "{p}" m ?m m'] by simp
    have ex: "(\<exists>j. i \<le> j \<and> j < i + Suc k \<and> isl (r j)) \<longleftrightarrow> (\<exists>j. Suc i \<le> j \<and> j < Suc i + k \<and> isl (r j))"
    proof
      assume "\<exists>j. i \<le> j \<and> j < i + Suc k \<and> isl (r j)"
      then obtain j where j: "i \<le> j" "j < i + Suc k" "isl (r j)" by blast
      with Inr have "j \<noteq> i" by auto
      with j show "\<exists>j. Suc i \<le> j \<and> j < Suc i + k \<and> isl (r j)" by (intro exI [of _ j]) simp
    next
      assume "\<exists>j. Suc i \<le> j \<and> j < Suc i + k \<and> isl (r j)"
      then obtain j where "Suc i \<le> j" "j < Suc i + k" "isl (r j)" by blast
      then show "\<exists>j. i \<le> j \<and> j < i + Suc k \<and> isl (r j)" by (intro exI [of _ j]) simp
    qed
    have cells: "take (Suc i) (bl_cells ?b) @ map (\<lambda>j. Some (projr (r j))) [Suc i..<Suc i + k] =
        take i (bl_cells b) @ map (\<lambda>j. Some (projr (r j))) [i..<i + Suc k]"
      using Inr Suc.prems(2) by (simp add: take_Suc_conv_app_nth upt_conv_Cons del: upt_Suc)
    have IH: "if \<exists>j. Suc i \<le> j \<and> j < Suc i + k \<and> isl (r j)
     then \<exists>e m'. build_elems init (Some p) (Suc i) k ?m = Some (Inl e, m') \<and> same_but {p} ?m m'
     else build_elems init (Some p) (Suc i) k ?m = Some (Inr (), ?m\<lparr>mem_blocks := (mem_blocks ?m)
       (p \<mapsto> ?b\<lparr>bl_cells := take (Suc i) (bl_cells ?b) @ map (\<lambda>j. Some (projr (r j))) [Suc i..<Suc i + k]\<rparr>)\<rparr>)"
      by (rule Suc.IH) (use Suc.prems(2) init in simp_all)
    show ?thesis
    proof (cases "\<exists>j. Suc i \<le> j \<and> j < Suc i + k \<and> isl (r j)")
      case True
      with IH obtain e m' where
        "build_elems init (Some p) (Suc i) k ?m = Some (Inl e, m')" "same_but {p} ?m m'" by auto
      with True ex step same_but_trans [of "{p}" m ?m m'] show ?thesis by auto
    next
      case False
      with IH have "build_elems init (Some p) (Suc i) k ?m = Some (Inr (), ?m\<lparr>mem_blocks := (mem_blocks ?m)
          (p \<mapsto> ?b\<lparr>bl_cells := take (Suc i) (bl_cells ?b) @ map (\<lambda>j. Some (projr (r j))) [Suc i..<Suc i + k]\<rparr>)\<rparr>)"
        by simp
      with False ex step show ?thesis unfolding cells by (simp add: fun_upd_def cong: if_cong)
    qed
  qed
qed

text \<open>A new block with the elements \<open>vs\<close>; none for no elements.\<close>

definition with_block :: "nat \<Rightarrow> 'a list \<Rightarrow> 'a mem \<Rightarrow> nat option \<times> 'a mem" where
  "with_block al vs m =
     (if vs = [] then (None, m)
      else (Some (mem_next m),
        \<lparr>mem_blocks = (mem_blocks m)(mem_next m \<mapsto> \<lparr>bl_alloc = al, bl_cells = map Some vs\<rparr>),
         mem_next = Suc (mem_next m)\<rparr>))"

lemma build_block_pure:
  assumes "\<And>j m'. j < n \<Longrightarrow> same_but {mem_next m} m m' \<Longrightarrow> init j m' = Some (r j, m')"
  shows "(if room tr al n \<and> (\<forall>j<n. \<not> isl (r j))
     then build_block tr al n init m =
       (case with_block al (map (\<lambda>j. projr (r j)) [0..<n]) m of (p, m) \<Rightarrow> Some (Inr p, m))
     else \<exists>e m'. build_block tr al n init m = Some (Inl e, m') \<and> same_but {mem_next m} m m' \<and>
       (\<not> room tr al n \<longrightarrow> m' = m))"
proof (cases "n = 0 \<or> \<not> room tr al n")
  case True
  then show ?thesis
    by (auto simp: build_block_def room_def with_block_def allocate_block_def allocate_def not_le)
next
  case False
  then have n: "0 < n" and fits: "n \<le> ha_max_size tr al" "\<not> tr_refuses tr al n" by (auto simp: room_def)
  let ?p = "mem_next m"
  let ?b = "\<lparr>bl_alloc = al, bl_cells = replicate n None\<rparr>"
  let ?m = "\<lparr>mem_blocks = (mem_blocks m)(?p \<mapsto> ?b), mem_next = Suc ?p\<rparr>"
  have same: "same_but {?p} m ?m" by (simp add: same_but_def)
  have run: "build_block tr al n init m = on_ok (build_elems init (Some ?p) 0 n ?m) (\<lambda>_ m. Some (Inr (Some ?p), m))"
    using n fits by (simp add: build_block_def allocate_block_def allocate_def)
  have init: "init j m' = Some (r j, m')" if "j < 0 + n" "same_but {?p} ?m m'" for j m'
    using that assms [of j m'] same_but_trans [OF same, of m'] by simp
  have loop: "if \<exists>j. 0 \<le> j \<and> j < 0 + n \<and> isl (r j)
     then \<exists>e m'. build_elems init (Some ?p) 0 n ?m = Some (Inl e, m') \<and> same_but {?p} ?m m'
     else build_elems init (Some ?p) 0 n ?m = Some (Inr (), ?m\<lparr>mem_blocks := (mem_blocks ?m)
       (?p \<mapsto> ?b\<lparr>bl_cells := take 0 (bl_cells ?b) @ map (\<lambda>j. Some (projr (r j))) [0..<0 + n]\<rparr>)\<rparr>)"
    by (rule build_elems_pure) (simp_all add: init)
  show ?thesis
  proof (cases "\<exists>j<n. isl (r j)")
    case True
    with loop obtain e m' where "build_elems init (Some ?p) 0 n ?m = Some (Inl e, m')" "same_but {?p} ?m m'" by auto
    with True run same_but_trans [OF same, of m'] n fits show ?thesis by (auto simp: room_def)
  next
    case False
    with loop have "build_elems init (Some ?p) 0 n ?m = Some (Inr (), ?m\<lparr>mem_blocks := (mem_blocks ?m)
        (?p \<mapsto> ?b\<lparr>bl_cells := map (\<lambda>j. Some (projr (r j))) [0..<n]\<rparr>)\<rparr>)" by auto
    with False run n fits show ?thesis by (auto simp: with_block_def room_def o_def)
  qed
qed

text \<open>Giving up the storage of an array, and overwriting its elements.\<close>

definition without :: "heap_array \<Rightarrow> 'a mem \<Rightarrow> 'a mem" where
  "without a m = m\<lparr>mem_blocks :=
     (case ha_data a of None \<Rightarrow> mem_blocks m | Some p \<Rightarrow> (mem_blocks m)(p := None))\<rparr>"

definition rewritten :: "heap_array \<Rightarrow> 'a list \<Rightarrow> 'a mem \<Rightarrow> 'a mem" where
  "rewritten a ys m = m\<lparr>mem_blocks :=
     (case ha_data a of
        None \<Rightarrow> mem_blocks m
      | Some p \<Rightarrow> (mem_blocks m)(p \<mapsto> \<lparr>bl_alloc = ha_alloc a, bl_cells = map Some ys\<rparr>))\<rparr>"

lemma destroy_elems_all:
  assumes "mem_blocks m p = Some b" and "k \<le> length (bl_cells b)" and "\<And>i. i < k \<Longrightarrow> bl_cells b ! i \<noteq> None"
  shows "destroy_elems (Some p) k m =
    Some (m\<lparr>mem_blocks := (mem_blocks m)(p \<mapsto> b\<lparr>bl_cells := replicate k None @ drop k (bl_cells b)\<rparr>)\<rparr>)"
  using assms
proof (induction k arbitrary: m b)
  case 0
  then show ?case by (simp add: map_upd_triv)
next
  case (Suc k)
  let ?b = "b\<lparr>bl_cells := (bl_cells b)[k := None]\<rparr>"
  let ?m = "m\<lparr>mem_blocks := (mem_blocks m)(p \<mapsto> ?b)\<rparr>"
  have "destroy_at (Some p) k m = Some ?m"
    using Suc.prems(1,2) Suc.prems(3) [of k] by (simp add: destroy_at_def read_cell_def write_cell_def)
  moreover have "destroy_elems (Some p) k ?m =
      Some (?m\<lparr>mem_blocks := (mem_blocks ?m)(p \<mapsto> ?b\<lparr>bl_cells := replicate k None @ drop k (bl_cells ?b)\<rparr>)\<rparr>)"
    by (rule Suc.IH) (use Suc.prems in \<open>simp_all add: nth_list_update\<close>)
  moreover have "replicate k None @ drop k (bl_cells ?b) = replicate (Suc k) None @ drop (Suc k) (bl_cells b)"
    using Suc.prems(2) by (simp add: drop_update_swap Cons_nth_drop_Suc [symmetric] replicate_append_same [symmetric])
  ultimately show ?case by (simp add: fun_upd_def cong: if_cong)
qed

lemma destroy_holds:
  assumes "holds m a xs"
  shows "destroy_and_deallocate a m = Some (without a m)"
proof (cases "ha_data a")
  case None
  with assms show ?thesis by (simp add: holds_def destroy_and_deallocate_def without_def)
next
  case (Some p)
  let ?b = "\<lparr>bl_alloc = ha_alloc a, bl_cells = map Some xs\<rparr>"
  from Some assms have s: "ha_size a = length xs" "xs \<noteq> []" and b: "mem_blocks m p = Some ?b"
    by (simp_all add: holds_def)
  have "destroy_elems (Some p) (length xs) m = Some (m\<lparr>mem_blocks := (mem_blocks m)
      (p \<mapsto> ?b\<lparr>bl_cells := replicate (length xs) None @ drop (length xs) (bl_cells ?b)\<rparr>)\<rparr>)"
    by (rule destroy_elems_all [OF b]) simp_all
  with Some s show ?thesis
    by (simp add: destroy_and_deallocate_def deallocate_def without_def)
qed

lemma length_left [simp]: "length (left el xs) = length xs"
  unfolding left_def by (induction xs) (auto split: prod.split sum.split)

lemma moved_cases:
  "el_move el x = (Inl e, y) \<Longrightarrow> fst (moved el (x # xs)) = Inl e \<and> left el (x # xs) = y # xs"
  "el_move el x = (Inr v, y) \<Longrightarrow> fst (moved el (x # xs)) = map_sum id ((#) v) (fst (moved el xs)) \<and>
     left el (x # xs) = y # left el xs"
  by (auto simp: left_def split: prod.split sum.split)

lemma moved_length: "fst (moved el xs) = Inr vs \<Longrightarrow> length vs = length xs"
proof (induction xs arbitrary: vs)
  case (Cons x xs)
  then show ?case by (auto split: prod.splits sum.splits)
qed simp

text \<open>The loop that moves: it throws where \<^const>\<open>moved\<close> does, and leaves the source as that says.\<close>

lemma build_elems_moves:
  assumes "mem_blocks m p = Some b" and "length (bl_cells b) = i + length xs" and "q \<noteq> p"
    and "mem_blocks m q = Some c" and "bl_cells c = map Some (ys @ xs)" and "length ys = i"
  shows "\<exists>cells. build_elems (init_move el (Some q)) (Some p) i (length xs) m =
      Some (map_sum id (\<lambda>_. ()) (fst (moved el xs)), m\<lparr>mem_blocks := (mem_blocks m)
        (p \<mapsto> b\<lparr>bl_cells := cells\<rparr>, q \<mapsto> c\<lparr>bl_cells := map Some (ys @ left el xs)\<rparr>)\<rparr>) \<and>
    (\<forall>vs. fst (moved el xs) = Inr vs \<longrightarrow> cells = take i (bl_cells b) @ map Some vs)"
  using assms
proof (induction xs arbitrary: i m b c ys)
  case Nil
  then show ?case by (intro exI [of _ "bl_cells b"]) (simp add: left_def map_upd_triv fun_upd_twist)
next
  case (Cons x xs)
  obtain r w where mv: "el_move el x = (r, w)" by fastforce
  let ?c = "c\<lparr>bl_cells := map Some ((ys @ [w]) @ xs)\<rparr>"
  let ?m1 = "m\<lparr>mem_blocks := (mem_blocks m)(q \<mapsto> ?c)\<rparr>"
  have "bl_cells c ! i = Some x" "i < length (bl_cells c)" "(bl_cells c)[i := Some w] = bl_cells ?c"
    using Cons.prems(5,6) by (simp_all add: nth_append list_update_append)
  then have init: "init_move el (Some q) i m = Some (r, ?m1)"
    using Cons.prems(4) mv by (simp add: init_move_def read_cell_def write_cell_def)
  show ?case
  proof (cases r)
    case (Inl e)
    have mvd: "fst (moved el (x # xs)) = Inl e" "left el (x # xs) = w # xs"
      using moved_cases(1) [of el x e w xs] mv Inl by auto
    have eq: "m\<lparr>mem_blocks := (mem_blocks m)(p \<mapsto> b\<lparr>bl_cells := bl_cells b\<rparr>,
        q \<mapsto> c\<lparr>bl_cells := map Some (ys @ left el (x # xs))\<rparr>)\<rparr> = ?m1"
      using Cons.prems(1) mvd(2) by (simp add: map_upd_triv)
    show ?thesis
      by (rule exI [of _ "bl_cells b"], unfold eq mvd(1)) (use init Inl in simp)
  next
    case (Inr v)
    let ?b = "b\<lparr>bl_cells := (bl_cells b)[i := Some v]\<rparr>"
    let ?m = "?m1\<lparr>mem_blocks := (mem_blocks ?m1)(p \<mapsto> ?b)\<rparr>"
    have "construct (Some p) i v ?m1 = Some ?m"
      by (rule construct_at) (use Cons.prems(1,2,3) in simp_all)
    with init Inr have step: "build_elems (init_move el (Some q)) (Some p) i (length (x # xs)) m =
        build_elems (init_move el (Some q)) (Some p) (Suc i) (length xs) ?m" by simp
    have "\<exists>cells. build_elems (init_move el (Some q)) (Some p) (Suc i) (length xs) ?m =
        Some (map_sum id (\<lambda>_. ()) (fst (moved el xs)), ?m\<lparr>mem_blocks := (mem_blocks ?m)
          (p \<mapsto> ?b\<lparr>bl_cells := cells\<rparr>, q \<mapsto> ?c\<lparr>bl_cells := map Some ((ys @ [w]) @ left el xs)\<rparr>)\<rparr>) \<and>
      (\<forall>vs. fst (moved el xs) = Inr vs \<longrightarrow> cells = take (Suc i) (bl_cells ?b) @ map Some vs)"
      by (rule Cons.IH) (use Cons.prems in simp_all)
    then obtain cells where rest: "build_elems (init_move el (Some q)) (Some p) (Suc i) (length xs) ?m =
        Some (map_sum id (\<lambda>_. ()) (fst (moved el xs)), ?m\<lparr>mem_blocks := (mem_blocks ?m)
          (p \<mapsto> ?b\<lparr>bl_cells := cells\<rparr>, q \<mapsto> ?c\<lparr>bl_cells := map Some ((ys @ [w]) @ left el xs)\<rparr>)\<rparr>)"
      and cells: "\<forall>vs. fst (moved el xs) = Inr vs \<longrightarrow> cells = take (Suc i) (bl_cells ?b) @ map Some vs" by blast
    have mvd: "fst (moved el (x # xs)) = map_sum id ((#) v) (fst (moved el xs))" "left el (x # xs) = w # left el xs"
      using moved_cases(2) [of el x v w xs] mv Inr by auto
    have same: "?m\<lparr>mem_blocks := (mem_blocks ?m)(p \<mapsto> ?b\<lparr>bl_cells := cells\<rparr>, q \<mapsto> ?c\<lparr>bl_cells := map Some ((ys @ [w]) @ left el xs)\<rparr>)\<rparr> =
        m\<lparr>mem_blocks := (mem_blocks m)(p \<mapsto> b\<lparr>bl_cells := cells\<rparr>, q \<mapsto> c\<lparr>bl_cells := map Some (ys @ left el (x # xs))\<rparr>)\<rparr>"
      using Cons.prems(3) mvd(2) by (simp add: fun_eq_iff)
    have res: "map_sum id (\<lambda>_. ()) (fst (moved el (x # xs))) = map_sum id (\<lambda>_. ()) (fst (moved el xs))"
      unfolding mvd(1) by (cases "fst (moved el xs)") simp_all
    have "cells = take i (bl_cells b) @ map Some vs" if "fst (moved el (x # xs)) = Inr vs" for vs
      using that cells Cons.prems(2) unfolding mvd(1)
      by (cases "fst (moved el xs)") (auto simp: take_Suc_conv_app_nth)
    then show ?thesis unfolding step rest same res by blast
  qed
qed

text \<open>A block left behind.\<close>

definition spilled :: "nat \<Rightarrow> 'a option list \<Rightarrow> 'a mem \<Rightarrow> 'a mem" where
  "spilled al cells m =
     \<lparr>mem_blocks = (mem_blocks m)(mem_next m \<mapsto> \<lparr>bl_alloc = al, bl_cells = cells\<rparr>), mem_next = Suc (mem_next m)\<rparr>"

lemma build_block_moves:
  assumes "holds m a xs" and "\<And>p. ha_data a = Some p \<Longrightarrow> p < mem_next m"
  shows "if room tr al (length xs)
    then (case fst (moved el xs) of
        Inr vs \<Rightarrow> build_block tr al (ha_size a) (init_move el (ha_data a)) m =
          (case with_block al vs (rewritten a (left el xs) m) of (p, m) \<Rightarrow> Some (Inr p, m))
      | Inl e \<Rightarrow> \<exists>cells. build_block tr al (ha_size a) (init_move el (ha_data a)) m =
          Some (Inl e, spilled al cells (rewritten a (left el xs) m)))
    else \<exists>e. build_block tr al (ha_size a) (init_move el (ha_data a)) m = Some (Inl e, m)"
proof (cases "ha_data a")
  case None
  with assms(1) show ?thesis
    by (simp add: holds_def build_block_def room_def with_block_def rewritten_def)
next
  case (Some q)
  let ?c = "\<lparr>bl_alloc = ha_alloc a, bl_cells = map Some xs\<rparr>"
  from Some assms have s: "ha_size a = length xs" "xs \<noteq> []" and c: "mem_blocks m q = Some ?c" and q: "q < mem_next m"
    by (simp_all add: holds_def)
  let ?b = "\<lparr>bl_alloc = al, bl_cells = replicate (length xs) None\<rparr>"
  let ?m = "\<lparr>mem_blocks = (mem_blocks m)(mem_next m \<mapsto> ?b), mem_next = Suc (mem_next m)\<rparr>"
  have "\<exists>cells. build_elems (init_move el (Some q)) (Some (mem_next m)) 0 (length xs) ?m =
      Some (map_sum id (\<lambda>_. ()) (fst (moved el xs)), ?m\<lparr>mem_blocks := (mem_blocks ?m)
        (mem_next m \<mapsto> ?b\<lparr>bl_cells := cells\<rparr>, q \<mapsto> ?c\<lparr>bl_cells := map Some ([] @ left el xs)\<rparr>)\<rparr>) \<and>
    (\<forall>vs. fst (moved el xs) = Inr vs \<longrightarrow> cells = take 0 (bl_cells ?b) @ map Some vs)"
    by (rule build_elems_moves) (use c q in simp_all)
  then obtain cells where loop: "build_elems (init_move el (Some q)) (Some (mem_next m)) 0 (length xs) ?m =
      Some (map_sum id (\<lambda>_. ()) (fst (moved el xs)), spilled al cells (rewritten a (left el xs) m))"
    and cells: "\<And>vs. fst (moved el xs) = Inr vs \<Longrightarrow> cells = map Some vs"
    using q Some by (auto simp: spilled_def rewritten_def fun_upd_twist)
  show ?thesis
  proof (cases "room tr al (length xs)")
    case False
    with Some s show ?thesis
      by (auto simp: room_def build_block_def allocate_block_def allocate_def not_le)
  next
    case True
    with Some s have run: "build_block tr al (ha_size a) (init_move el (ha_data a)) m =
        on_ok (build_elems (init_move el (Some q)) (Some (mem_next m)) 0 (length xs) ?m) (\<lambda>_ m'. Some (Inr (Some (mem_next m)), m'))"
      by (simp add: room_def build_block_def allocate_block_def allocate_def)
    show ?thesis
    proof (cases "fst (moved el xs)")
      case (Inl e)
      with True run loop show ?thesis by auto
    next
      case (Inr vs)
      with moved_length [OF Inr] s have "vs \<noteq> []" by auto
      with True run loop Inr cells [OF Inr] show ?thesis by (simp add: with_block_def spilled_def rewritten_def)
    qed
  qed
qed

subsection \<open>Ownership\<close>

lemma own_simps [simp]:
  "own \<lparr>ha_data = None, ha_size = n, ha_alloc = al\<rparr> = {#}"
  "own \<lparr>ha_data = Some p, ha_size = n, ha_alloc = al\<rparr> = {#p#}"
  "own (ha_empty al) = {#}" "own (emptied a) = {#}"
  by (simp_all add: own_def ha_empty_def emptied_def)

lemma owners_simps [simp]:
  "owners [] = {#}" "owners (a # as) = own a + owners as" "owners (as @ bs) = owners as + owners bs"
  by (simp_all add: owners_def)

lemma owners_update: "i < length as \<Longrightarrow> owners (as[i := a]) + own (as ! i) = owners as + own a"
  by (induction as arbitrary: i) (auto split: nat.split simp: union_ac)

lemma owners_split: "i < length as \<Longrightarrow> owners as = own (as ! i) + owners (take i as @ drop (Suc i) as)"
  by (subst id_take_nth_drop [of i as]) (simp_all add: union_ac)

lemma own_le_owners: "a \<in> set as \<Longrightarrow> own a \<subseteq># owners as"
  by (induction as) (auto intro: subset_mset.order_trans)

lemma own_le_others:
  assumes "i < length as" and "j < length as" and "i \<noteq> j"
  shows "own (as ! j) \<subseteq># owners (take i as @ drop (Suc i) as)"
proof -
  have "as ! j \<in> set (take i as @ drop (Suc i) as)"
  proof (cases "j < i")
    case True
    then have "take i as ! j = as ! j" "j < length (take i as)" using assms(1) by simp_all
    then show ?thesis by (metis nth_mem Un_iff set_append)
  next
    case False
    with assms have "drop (Suc i) as ! (j - Suc i) = as ! j" "j - Suc i < length (drop (Suc i) as)" by simp_all
    then show ?thesis by (metis nth_mem Un_iff set_append)
  qed
  then show ?thesis by (rule own_le_owners)
qed

lemma holds_empty [simp]: "holds m (ha_empty al) []" "holds m (emptied a) []"
  by (simp_all add: holds_def ha_empty_def emptied_def)

lemma ha_fields [simp]: "ha_alloc (ha_empty al) = al" "ha_alloc (emptied a) = ha_alloc a"
  by (simp_all add: ha_empty_def emptied_def)

text \<open>What an array holds depends on its own block alone.\<close>

lemma holds_cong:
  assumes "holds m a xs" and "\<And>p. p \<in># own a \<Longrightarrow> mem_blocks m' p = mem_blocks m p"
  shows "holds m' a xs"
  using assms by (cases "ha_data a") (auto simp: holds_def own_def)

lemma holds_rewritten: "holds m a xs \<Longrightarrow> length ys = length xs \<Longrightarrow> holds (rewritten a ys m) a ys"
  by (cases "ha_data a") (auto simp: holds_def rewritten_def)

lemma holds_own: "holds m a xs \<Longrightarrow> p \<in># own a \<Longrightarrow> p \<in> dom (mem_blocks m)"
  by (cases "ha_data a") (auto simp: holds_def own_def)

lemma stored_length: "stored m as st \<Longrightarrow> length as = length st"
  by (simp add: stored_def list_all2_lengthD)

lemma stored_nth:
  assumes "stored m as st" and "i < length st"
  shows "ha_alloc (as ! i) = fst (st ! i)" "holds m (as ! i) (snd (st ! i))"
  using assms by (auto simp: stored_def list_all2_conv_all_nth)

lemma stored_update:
  assumes "stored m as st" and "ha_alloc a = fst s" and "holds m a (snd s)"
  shows "stored m (as[i := a]) (st[i := s])"
  using assms by (auto simp: stored_def intro: list_all2_update_cong)

lemma stored_append:
  assumes "stored m as st" and "ha_alloc a = fst s" and "holds m a (snd s)"
  shows "stored m (as @ [a]) (st @ [s])"
  using assms by (auto simp: stored_def intro: list_all2_appendI)

lemma stored_remove: "stored m as st \<Longrightarrow> stored m (take i as @ drop (Suc i) as) (take i st @ drop (Suc i) st)"
  by (auto simp: stored_def intro!: list_all2_appendI list_all2_takeI list_all2_dropI)

lemma stored_cong:
  assumes "stored m as st" and "\<And>p. p \<in># owners as \<Longrightarrow> mem_blocks m' p = mem_blocks m p"
  shows "stored m' as st"
proof -
  have "holds m' (as ! i) (snd (st ! i))" if "i < length as" for i
  proof (rule holds_cong)
    show "holds m (as ! i) (snd (st ! i))" using stored_nth(2) [OF assms(1), of i] stored_length [OF assms(1)] that by simp
    show "mem_blocks m' p = mem_blocks m p" if "p \<in># own (as ! i)" for p
      using that \<open>i < length as\<close> own_le_owners [of "as ! i" as] assms(2) by (auto dest: mset_subset_eqD)
  qed
  with assms(1) show ?thesis by (simp add: stored_def list_all2_conv_all_nth)
qed

text \<open>The same but for one position, whose array may lose its block.\<close>

lemma stored_cong_but:
  assumes "stored m as st" and "i < length as" and "ha_alloc a = fst s" and "holds m' a (snd s)"
    and "\<And>p. p \<in># owners (take i as @ drop (Suc i) as) \<Longrightarrow> mem_blocks m' p = mem_blocks m p"
  shows "stored m' (as[i := a]) (st[i := s])"
proof -
  have len: "i < length st" using assms(1,2) stored_length by metis
  have "stored m' (take i as @ drop (Suc i) as) (take i st @ drop (Suc i) st)"
    by (rule stored_cong [OF stored_remove [OF assms(1)] assms(5)])
  then have s: "list_all2 (\<lambda>a s. ha_alloc a = fst s \<and> holds m' a (snd s)) (take i as) (take i st)"
    "list_all2 (\<lambda>a s. ha_alloc a = fst s \<and> holds m' a (snd s)) (drop (Suc i) as) (drop (Suc i) st)"
    using assms(2) len unfolding stored_def by (simp_all add: list_all2_append)
  show ?thesis
    unfolding stored_def upd_conv_take_nth_drop [OF assms(2)] upd_conv_take_nth_drop [OF len]
    by (rule list_all2_appendI [OF s(1)]) (simp add: s(2) assms(3,4))
qed

lemma arrays_okD:
  assumes "arrays_ok m as st"
  shows "stored m as st" "finite (dom (mem_blocks m))" "owners as = mset_set (dom (mem_blocks m))"
    "p \<in># owners as \<Longrightarrow> p < mem_next m" "mem_blocks m (mem_next m) = None"
  using assms by (auto simp: arrays_ok_def)

text \<open>No block has two owners.\<close>

lemma owned_once:
  assumes "arrays_ok m as st" and "i < length as" and "p \<in># own (as ! i)"
  shows "p \<notin># owners (take i as @ drop (Suc i) as)"
proof
  assume "p \<in># owners (take i as @ drop (Suc i) as)"
  then have "count (owners (take i as @ drop (Suc i) as)) p \<noteq> 0" by (simp only: count_eq_zero_iff not_not)
  moreover have "count (own (as ! i)) p \<noteq> 0" using assms(3) by (simp only: count_eq_zero_iff not_not)
  moreover have "count (owners as) p = count (own (as ! i)) p + count (owners (take i as @ drop (Suc i) as)) p"
    unfolding owners_split [OF assms(2)] count_union by (rule refl)
  moreover have "count (owners as) p \<le> 1"
    unfolding arrays_okD(3) [OF assms(1)] by (simp add: count_mset_set')
  ultimately show False by linarith
qed

lemma owner_unique:
  assumes "arrays_ok m as st" and "i < length as" and "j < length as" and "i \<noteq> j" and "p \<in># own (as ! i)"
  shows "p \<notin># own (as ! j)"
proof
  assume "p \<in># own (as ! j)"
  with own_le_others [OF assms(2,3,4)] owned_once [OF assms(1,2,5)] show False by (auto dest: mset_subset_eqD)
qed

lemma own_mset_set: "own a = mset_set (set_mset (own a))"
  by (cases "ha_data a") (simp_all add: own_def)

lemma owned_in_dom:
  assumes "arrays_ok m as st" and "i < length as"
  shows "set_mset (own (as ! i)) \<subseteq> dom (mem_blocks m)"
proof
  fix p
  assume "p \<in># own (as ! i)"
  then have "p \<in># owners as" unfolding owners_split [OF assms(2)] by simp
  then show "p \<in> dom (mem_blocks m)" using arrays_okD(2) [OF assms(1)] unfolding arrays_okD(3) [OF assms(1)] by simp
qed

lemma others_own:
  assumes "arrays_ok m as st" and "i < length as"
  shows "owners (take i as @ drop (Suc i) as) = mset_set (dom (mem_blocks m) - set_mset (own (as ! i)))"
proof -
  note sub = owned_in_dom [OF assms] and fin = arrays_okD(2) [OF assms(1)]
  have "own (as ! i) + owners (take i as @ drop (Suc i) as) = mset_set (dom (mem_blocks m))"
    using arrays_okD(3) [OF assms(1)] owners_split [OF assms(2)] by simp
  then have "owners (take i as @ drop (Suc i) as) = mset_set (dom (mem_blocks m)) - own (as ! i)"
    by (metis add_diff_cancel_left')
  also have "\<dots> = mset_set (dom (mem_blocks m)) - mset_set (set_mset (own (as ! i)))"
    using own_mset_set [of "as ! i"] by simp
  also have "\<dots> = mset_set (dom (mem_blocks m) - set_mset (own (as ! i)))"
    by (rule mset_set_Diff [OF fin sub, symmetric])
  finally show ?thesis .
qed

lemma owners_replaced:
  "i < length as \<Longrightarrow> owners (as[i := a]) = own a + owners (take i as @ drop (Suc i) as)"
  by (simp add: upd_conv_take_nth_drop union_ac)

text \<open>
  The steps every call is made of: an array at one position gives up its block and gets
  another; blocks change hands; an array is added or, when it owns nothing, removed.
\<close>

lemma arrays_ok_replace:
  assumes ok: "arrays_ok m as st" and i: "i < length as" and a: "ha_alloc a = fst s" "holds m' a (snd s)"
    and same: "same_but (set_mset (own (as ! i)) \<union> set_mset (own a)) m m'"
    and fresh: "\<And>p. p \<in># own a \<Longrightarrow> p \<notin> dom (mem_blocks m) - set_mset (own (as ! i)) \<and> p < mem_next m'"
    and gone: "\<And>p. p \<in># own (as ! i) \<Longrightarrow> p \<notin># own a \<Longrightarrow> mem_blocks m' p = None"
    and later: "mem_next m \<le> mem_next m'"
  shows "arrays_ok m' (as[i := a]) (st[i := s])"
proof -
  let ?D = "dom (mem_blocks m) - set_mset (own (as ! i))"
  note D = arrays_okD [OF ok] and others = others_own [OF ok i]
  have dom: "dom (mem_blocks m') = ?D \<union> set_mset (own a)"
  proof (rule set_eqI)
    fix p
    show "p \<in> dom (mem_blocks m') \<longleftrightarrow> p \<in> ?D \<union> set_mset (own a)"
      using same gone [of p] holds_own [OF a(2), of p]
      by (cases "p \<in># own a"; cases "p \<in># own (as ! i)") (auto simp: same_but_def domIff)
  qed
  have "mem_blocks m' p = mem_blocks m p" if "p \<in># owners (take i as @ drop (Suc i) as)" for p
    using that D(2) same fresh [of p] unfolding others by (auto simp: same_but_def)
  then have "stored m' (as[i := a]) (st[i := s])" by (intro stored_cong_but [OF D(1) i a])
  moreover have "owners (as[i := a]) = mset_set (dom (mem_blocks m'))"
    unfolding owners_replaced [OF i] others dom
    using D(2) fresh own_mset_set [of a] by (subst mset_set_Union) auto
  moreover have "p < mem_next m'" if "p \<in> dom (mem_blocks m')" for p
  proof (cases "p \<in># own a")
    case False
    with that ok have "p < mem_next m" unfolding dom by (auto simp: arrays_ok_def)
    with later show ?thesis by simp
  qed (use fresh in blast)
  ultimately show ?thesis using D(2) by (simp add: arrays_ok_def dom)
qed

lemma arrays_ok_rearrange:
  "arrays_ok m as st \<Longrightarrow> stored m as' st' \<Longrightarrow> owners as' = owners as \<Longrightarrow> arrays_ok m as' st'"
  by (simp add: arrays_ok_def)

lemma arrays_ok_add_empty:
  assumes "arrays_ok m as st" and "ha_alloc a = al" and "holds m a []" and "own a = {#}"
  shows "arrays_ok m (as @ [a]) (st @ [(al, [])])"
  using assms by (intro arrays_ok_rearrange [OF assms(1)] stored_append) (auto dest: arrays_okD)

lemma arrays_ok_remove_empty:
  assumes "arrays_ok m as st" and "i < length as" and "own (as ! i) = {#}"
  shows "arrays_ok m (take i as @ drop (Suc i) as) (take i st @ drop (Suc i) st)"
  using owners_split [OF assms(2)] assms(3)
  by (intro arrays_ok_rearrange [OF assms(1)] stored_remove arrays_okD(1) [OF assms(1)]) simp

lemma without_simps [simp]:
  "p \<notin># own a \<Longrightarrow> mem_blocks (without a m) p = mem_blocks m p"
  "p \<in># own a \<Longrightarrow> mem_blocks (without a m) p = None" "mem_next (without a m) = mem_next m"
  by (auto simp: without_def own_def split: option.splits if_splits)

lemma arrays_ok_release:
  assumes "arrays_ok m as st" and "i < length st"
  shows "arrays_ok (without (as ! i) m) (as[i := emptied (as ! i)]) (st[i := (fst (st ! i), [])])"
  using stored_nth [OF arrays_okD(1) [OF assms(1)] assms(2)] stored_length [OF arrays_okD(1) [OF assms(1)]] assms(2)
  by (intro arrays_ok_replace [OF assms(1)]) (simp_all add: same_but_def)

lemma with_block_facts:
  assumes "with_block al vs m = (p, m')"
  shows "holds m' \<lparr>ha_data = p, ha_size = length vs, ha_alloc = al\<rparr> vs" "same_but {mem_next m} m m'"
    "mem_next m \<le> mem_next m'"
    "q \<in># own \<lparr>ha_data = p, ha_size = length vs, ha_alloc = al\<rparr> \<Longrightarrow> q = mem_next m \<and> q < mem_next m'"
    "vs = [] \<Longrightarrow> m' = m"
  using assms by (auto simp: with_block_def holds_def same_but_def own_def split: if_splits)

lemma arrays_ok_add:
  assumes "arrays_ok m as st" and w: "with_block al vs m = (p, m')"
  shows "arrays_ok m' (as @ [\<lparr>ha_data = p, ha_size = length vs, ha_alloc = al\<rparr>]) (st @ [(al, vs)])"
proof -
  let ?a = "\<lparr>ha_data = p, ha_size = length vs, ha_alloc = al\<rparr>"
  have "arrays_ok m (as @ [ha_empty al]) (st @ [(al, [])])" by (rule arrays_ok_add_empty [OF assms(1)]) simp_all
  then have "arrays_ok m' ((as @ [ha_empty al])[length as := ?a]) ((st @ [(al, [])])[length as := (al, vs)])"
  proof (rule arrays_ok_replace)
    show "same_but (set_mset (own ((as @ [ha_empty al]) ! length as)) \<union> set_mset (own ?a)) m m'"
      using w by (auto simp: with_block_def same_but_def own_def split: if_splits)
  qed (use w arrays_okD(5) [OF assms(1)] with_block_facts [OF w] in \<open>auto dest!: with_block_facts(4) [OF w]\<close>)
  moreover have "(as @ [ha_empty al])[length as := ?a] = as @ [?a]" by simp
  moreover have "(st @ [(al, [])])[length as := (al, vs)] = st @ [(al, vs)]"
    unfolding stored_length [OF arrays_okD(1) [OF assms(1)]] by simp
  ultimately show ?thesis by simp
qed

lemma holds_with_block:
  assumes "arrays_ok m as st" and "i < length st" and "with_block al vs m = (p, m')"
  shows "holds m' (as ! i) (snd (st ! i))"
proof (rule holds_cong [OF stored_nth(2) [OF arrays_okD(1) [OF assms(1)] assms(2)]])
  fix q
  assume "q \<in># own (as ! i)"
  with owned_in_dom [OF assms(1), of i] assms(2) stored_length [OF arrays_okD(1) [OF assms(1)]]
  have "q \<in> dom (mem_blocks m)" by auto
  with arrays_okD(5) [OF assms(1)] have "q \<noteq> mem_next m" by auto
  with with_block_facts(2) [OF assms(3)] show "mem_blocks m' q = mem_blocks m q" by (simp add: same_but_def)
qed

lemma arrays_ok_exchange:
  assumes "arrays_ok m as st" and "i < length st" and w: "with_block al vs m = (p, m')"
  shows "arrays_ok (without (as ! i) m') (as[i := \<lparr>ha_data = p, ha_size = length vs, ha_alloc = al\<rparr>]) (st[i := (al, vs)])"
proof -
  let ?a = "\<lparr>ha_data = p, ha_size = length vs, ha_alloc = al\<rparr>"
  have i: "i < length as" using assms(2) stored_length [OF arrays_okD(1) [OF assms(1)]] by simp
  note new = arrays_okD(5) [OF assms(1)]
  have apart: "mem_next m \<notin># own (as ! i)" using owned_in_dom [OF assms(1) i] new by auto
  show ?thesis
  proof (rule arrays_ok_replace [OF assms(1) i])
    have "holds (without (as ! i) m') ?a vs"
    proof (rule holds_cong [OF with_block_facts(1) [OF w]])
      fix q
      assume "q \<in># own ?a"
      with with_block_facts(4) [OF w] apart have "q \<notin># own (as ! i)" by blast
      then show "mem_blocks (without (as ! i) m') q = mem_blocks m' q" by simp
    qed
    then show "holds (without (as ! i) m') ?a (snd (al, vs))" by simp
    show "same_but (set_mset (own (as ! i)) \<union> set_mset (own ?a)) m (without (as ! i) m')"
      using w by (auto simp: with_block_def same_but_def split: if_splits)
    show "q \<notin> dom (mem_blocks m) - set_mset (own (as ! i)) \<and> q < mem_next (without (as ! i) m')"
      if "q \<in># own ?a" for q
      using with_block_facts(4) [OF w that] new by auto
    show "mem_blocks (without (as ! i) m') q = None" if "q \<in># own (as ! i)" for q
      using that by (rule without_simps)
  qed (use with_block_facts(3) [OF w] in simp_all)
qed

lemma rewritten_simps [simp]:
  "p \<notin># own a \<Longrightarrow> mem_blocks (rewritten a ys m) p = mem_blocks m p" "mem_next (rewritten a ys m) = mem_next m"
  by (auto simp: rewritten_def own_def split: option.splits)

lemma arrays_ok_rewritten:
  assumes "arrays_ok m as st" and "i < length st" and "length ys = length (snd (st ! i))"
  shows "arrays_ok (rewritten (as ! i) ys m) as (st[i := (fst (st ! i), ys)])"
proof -
  have i: "i < length as" using assms(2) stored_length [OF arrays_okD(1) [OF assms(1)]] by simp
  note s = stored_nth [OF arrays_okD(1) [OF assms(1)] assms(2)]
  have "arrays_ok (rewritten (as ! i) ys m) (as[i := as ! i]) (st[i := (fst (st ! i), ys)])"
  proof (rule arrays_ok_replace [OF assms(1) i])
    show "holds (rewritten (as ! i) ys m) (as ! i) (snd (fst (st ! i), ys))"
      using holds_rewritten [OF s(2) assms(3)] by simp
    show "p \<notin> dom (mem_blocks m) - set_mset (own (as ! i)) \<and> p < mem_next (rewritten (as ! i) ys m)"
      if "p \<in># own (as ! i)" for p
      using that owners_split [OF i] arrays_okD(4) [OF assms(1), of p] by simp
  qed (use s in \<open>simp_all add: same_but_def\<close>)
  then show ?thesis by simp
qed

lemma stored_spilled: "arrays_ok m as st \<Longrightarrow> stored (spilled al cells m) as st"
proof (rule stored_cong)
  assume "arrays_ok m as st"
  then show "stored m as st" "p \<in># owners as \<Longrightarrow> mem_blocks (spilled al cells m) p = mem_blocks m p" for p
    using arrays_okD(4) [of m as st p] by (auto simp: spilled_def dest: arrays_okD(1))
qed

lemma dom_rewritten: "holds m a xs \<Longrightarrow> dom (mem_blocks (rewritten a ys m)) = dom (mem_blocks m)"
  by (auto simp: rewritten_def holds_def split: option.splits if_splits)

subsection \<open>One call\<close>

text \<open>
  What a call does on storage \<open>m\<close>: it has its effect, or it throws and leaves the row \<open>thr\<close>. It
  throws only when the allocator refuses (not \<open>fits\<close>) or an element can throw (not \<open>quiet\<close>);
  refused, it changes nothing, and what it leaves behind else is at most the new block.
\<close>

definition call_ok :: "'a mem \<Rightarrow> heap_array list \<Rightarrow> 'a row \<Rightarrow> 'a row \<Rightarrow> bool \<Rightarrow> bool \<Rightarrow> (heap_array list, 'a) ha_result \<Rightarrow> bool" where
  "call_ok m as thr st' fits quiet res \<longleftrightarrow>
     (case res of
        None \<Rightarrow> False
      | Some (Inl e, m') \<Rightarrow> stored m' as thr \<and> \<not> (fits \<and> quiet) \<and> (quiet \<longrightarrow> m' = m) \<and>
          dom (mem_blocks m') \<subseteq> insert (mem_next m) (dom (mem_blocks m))
      | Some (Inr as', m') \<Rightarrow> arrays_ok m' as' st' \<and> fits)"

lemma call_ok_simps [simp]:
  "call_ok m as thr st' fits quiet (Some (Inr as', m')) \<longleftrightarrow> arrays_ok m' as' st' \<and> fits"
  "call_ok m as thr st' fits quiet (Some (Inl e, m')) \<longleftrightarrow> stored m' as thr \<and> \<not> (fits \<and> quiet) \<and> (quiet \<longrightarrow> m' = m) \<and>
     dom (mem_blocks m') \<subseteq> insert (mem_next m) (dom (mem_blocks m))"
  by (simp_all add: call_ok_def)

text \<open>Building a block from values that do not depend on storage, or are read from an array.\<close>

lemma build_values:
  assumes "arrays_ok m as st"
    and init: "\<And>j m'. j < n \<Longrightarrow> same_but {mem_next m} m m' \<Longrightarrow> init j m' = Some (r j, m')"
    and vs: "length vs = n" "\<And>j v. j < n \<Longrightarrow> r j = Inr v \<Longrightarrow> v = vs ! j"
  obtains (built) p m' where "build_block tr al n init m = Some (Inr p, m')" and "with_block al vs m = (p, m')"
      and "room tr al n"
  | (threw) e m' where "build_block tr al n init m = Some (Inl e, m')" and "stored m' as st"
      and "dom (mem_blocks m') \<subseteq> insert (mem_next m) (dom (mem_blocks m))"
      and "if room tr al n then \<exists>j<n. isl (r j) else m' = m"
proof (cases "room tr al n \<and> (\<forall>j<n. \<not> isl (r j))")
  case True
  have "projr (r j) = vs ! j" if "j < n" for j
    using True vs(2) [of j "projr (r j)"] that by (cases "r j") auto
  then have "map (\<lambda>j. projr (r j)) [0..<n] = vs" using vs(1) by (intro nth_equalityI) simp_all
  moreover obtain p m' where "with_block al vs m = (p, m')" by fastforce
  ultimately show ?thesis using build_block_pure [of n m init r tr al, OF init] True built by simp
next
  case False
  with build_block_pure [of n m init r tr al, OF init] obtain e m' where
    b: "build_block tr al n init m = Some (Inl e, m')" and s: "same_but {mem_next m} m m'"
    and refused: "\<not> room tr al n \<longrightarrow> m' = m" by (auto split: if_splits)
  have "dom (mem_blocks m') \<subseteq> insert (mem_next m) (dom (mem_blocks m))"
  proof
    fix q
    assume "q \<in> dom (mem_blocks m')"
    with s show "q \<in> insert (mem_next m) (dom (mem_blocks m))"
      by (cases "q = mem_next m") (auto simp: same_but_def domIff)
  qed
  moreover
  have "stored m' as st"
  proof (rule stored_cong [OF arrays_okD(1) [OF assms(1)]])
    fix p
    assume "p \<in># owners as"
    then have "p \<noteq> mem_next m" using arrays_okD(4) [OF assms(1)] by auto
    with s show "mem_blocks m' p = mem_blocks m p" by (simp add: same_but_def)
  qed
  ultimately show ?thesis using threw [OF b] False refused by auto
qed

lemma added_ok:
  assumes "arrays_ok m as st"
    and "\<And>j m'. j < n \<Longrightarrow> same_but {mem_next m} m m' \<Longrightarrow> init j m' = Some (r j, m')"
    and "length vs = n" and "\<And>j v. j < n \<Longrightarrow> r j = Inr v \<Longrightarrow> v = vs ! j"
    and "\<And>j. quiet \<Longrightarrow> j < n \<Longrightarrow> \<not> isl (r j)"
  shows "call_ok m as st (st @ [(al, vs)]) (room tr al n) quiet (added as (ha_built tr al n init m))"
  using assms(1-4)
proof (rule build_values [where tr = tr and al = al])
  fix p m'
  assume "build_block tr al n init m = Some (Inr p, m')" "with_block al vs m = (p, m')" "room tr al n"
  with arrays_ok_add [OF assms(1)] assms(3) show ?thesis by (auto simp: added_def ha_built_def)
next
  fix e m'
  assume "build_block tr al n init m = Some (Inl e, m')" "stored m' as st"
    "dom (mem_blocks m') \<subseteq> insert (mem_next m) (dom (mem_blocks m))"
    "if room tr al n then \<exists>j<n. isl (r j) else m' = m"
  with assms(5) show ?thesis by (auto simp: added_def ha_built_def split: if_splits)
qed

text \<open>Building a block first and releasing the old one then.\<close>

lemma exchanged_ok:
  assumes "arrays_ok m as st" and "i < length st"
    and "\<And>j m'. j < n \<Longrightarrow> same_but {mem_next m} m m' \<Longrightarrow> init j m' = Some (r j, m')"
    and "length vs = n" and "\<And>j v. j < n \<Longrightarrow> r j = Inr v \<Longrightarrow> v = vs ! j"
    and "\<And>j. quiet \<Longrightarrow> j < n \<Longrightarrow> \<not> isl (r j)"
  shows "call_ok m as st (st[i := (al, vs)]) (room tr al n) quiet (on_ok (build_block tr al n init m) (\<lambda>p m.
    Option.bind (destroy_and_deallocate (as ! i) m) (\<lambda>m.
      Some (Inr (as[i := \<lparr>ha_data = p, ha_size = n, ha_alloc = al\<rparr>]), m))))"
  using assms(1,3-5)
proof (rule build_values [where tr = tr and al = al])
  fix p m'
  assume b: "build_block tr al n init m = Some (Inr p, m')" and w: "with_block al vs m = (p, m')"
    and "room tr al n"
  with destroy_holds [OF holds_with_block [OF assms(1,2) w]] arrays_ok_exchange [OF assms(1,2) w] assms(4)
  show ?thesis by auto
next
  fix e m'
  assume "build_block tr al n init m = Some (Inl e, m')" "stored m' as st"
    "dom (mem_blocks m') \<subseteq> insert (mem_next m) (dom (mem_blocks m))"
    "if room tr al n then \<exists>j<n. isl (r j) else m' = m"
  with assms(6) show ?thesis by (auto split: if_splits)
qed

lemma read_holds: "holds m a xs \<Longrightarrow> j < length xs \<Longrightarrow> read_cell (ha_data a) j m = Some (xs ! j)"
  by (cases "ha_data a") (auto simp: holds_def read_cell_def)

lemma init_copy_holds:
  assumes "arrays_ok m as st" and "i < length st" and "j < length (snd (st ! i))" and "same_but {mem_next m} m m'"
  shows "init_copy el (ha_data (as ! i)) j m' = Some (el_copy el (snd (st ! i) ! j), m')"
proof -
  have "holds m' (as ! i) (snd (st ! i))"
  proof (rule holds_cong [OF stored_nth(2) [OF arrays_okD(1) [OF assms(1)] assms(2)]])
    fix q
    assume "q \<in># own (as ! i)"
    with owned_in_dom [OF assms(1), of i] assms(2) stored_length [OF arrays_okD(1) [OF assms(1)]]
    have "q \<in> dom (mem_blocks m)" by auto
    with arrays_okD(5) [OF assms(1)] have "q \<noteq> mem_next m" by auto
    with assms(4) show "mem_blocks m' q = mem_blocks m q" by (simp add: same_but_def)
  qed
  from read_holds [OF this assms(3)] show ?thesis by (simp add: init_copy_def)
qed

lemma size_of_stored: "stored m as st \<Longrightarrow> i < length st \<Longrightarrow> ha_size (as ! i) = length (snd (st ! i))"
  using stored_nth(2) [of m as st i] by (simp add: holds_def)

lemma never_throwsD: "never_throws el \<Longrightarrow> \<not> isl (el_copy el x)" "never_throws el \<Longrightarrow> \<not> isl (el_default el)"
  by (auto simp: never_throws_def)

lemma copies_equalD: "copies_equal el \<Longrightarrow> el_copy el x = Inr y \<Longrightarrow> y = x"
  by (simp add: copies_equal_def)

lemma never_throws_moved: "never_throws el \<Longrightarrow> \<exists>vs. fst (moved el xs) = Inr vs"
proof (induction xs)
  case (Cons x xs)
  then obtain vs where vs: "fst (moved el xs) = Inr vs" by blast
  obtain v y where "el_move el x = (Inr v, y)"
    using Cons.prems unfolding never_throws_def by (cases "el_move el x"; cases "fst (el_move el x)") (auto dest: spec [of _ x])
  from moved_cases(2) [OF this, of xs] vs show ?case by simp
qed simp

text \<open>The constructors.\<close>

lemma construct_ok:
  assumes "arrays_ok m as st" and "copies_equal el"
  shows "call_ok m as st (st @ [(al, replicate n (projr (el_default el)))]) (room tr al n) (never_throws el)
      (added as (ha_count tr el n al m))"
    and "call_ok m as st (st @ [(al, map garbage [0..<n])]) (room tr al n) (never_throws el)
      (added as (ha_for_overwrite tr garbage n al m))"
    and "call_ok m as st (st @ [(al, replicate n v)]) (room tr al n) (never_throws el)
      (added as (ha_fill tr el n v al m))"
    and "call_ok m as st (st @ [(al, xs)]) (room tr al (length xs)) (never_throws el)
      (added as (ha_list tr el xs al m))"
  unfolding ha_count_def ha_for_overwrite_def ha_fill_def ha_list_def
  by (rule added_ok [OF assms(1), where r = "\<lambda>_. el_default el"]
      added_ok [OF assms(1), where r = "\<lambda>j. Inr (garbage j)"]
      added_ok [OF assms(1), where r = "\<lambda>_. el_copy el v"]
      added_ok [OF assms(1), where r = "\<lambda>j. el_copy el (xs ! j)"];
    simp add: init_value_def init_garbage_def init_range_def never_throwsD copies_equalD [OF assms(2)])+

lemma copy_ok:
  assumes "arrays_ok m as st" and "copies_equal el" and "i < length st"
  shows "call_ok m as st (st @ [(al, snd (st ! i))]) (room tr al (length (snd (st ! i)))) (never_throws el)
      (added as (ha_built tr al (ha_size (as ! i)) (init_copy el (ha_data (as ! i))) m))"
  unfolding size_of_stored [OF arrays_okD(1) [OF assms(1)] assms(3)]
  by (rule added_ok [OF assms(1), where r = "\<lambda>j. el_copy el (snd (st ! i) ! j)"])
    (simp_all add: init_copy_holds [OF assms(1,3)] never_throwsD copies_equalD [OF assms(2)])

lemma on_ok_on_ok: "on_ok (on_ok r f) g = on_ok r (\<lambda>x m. on_ok (f x m) g)"
  by (auto simp: on_ok_def split: option.splits sum.splits)

lemma on_ok_bind: "on_ok (Option.bind x f) g = Option.bind x (\<lambda>y. on_ok (f y) g)"
  by (cases x) simp_all

lemmas on_ok_chain = on_ok_on_ok on_ok_bind

lemma assign_ok:
  assumes ok: "arrays_ok m as st" and "copies_equal el" and i: "i < length st" and j: "j < length st"
  shows "call_ok m as st (row_op tr el garbage (HaAssign i j) st) (op_fits tr (HaAssign i j) st) (never_throws el)
    (do_op tr el garbage (HaAssign i j) as m)"
proof (cases "i = j")
  case True
  with ok show ?thesis by (simp add: ha_assign_def)
next
  case False
  note s = stored_nth [OF arrays_okD(1) [OF ok]] and size = size_of_stored [OF arrays_okD(1) [OF ok] j]
  define al where "al = (if tr_pocca tr then fst (st ! j) else fst (st ! i))"
  have run: "do_op tr el garbage (HaAssign i j) as m =
      on_ok (build_block tr al (length (snd (st ! j))) (init_copy el (ha_data (as ! j))) m) (\<lambda>p m.
        Option.bind (destroy_and_deallocate (as ! i) m) (\<lambda>m.
          Some (Inr (as[i := \<lparr>ha_data = p, ha_size = length (snd (st ! j)), ha_alloc = al\<rparr>]), m)))"
    using False s [OF i] s [OF j] size by (simp add: ha_assign_def al_def on_ok_chain)
  have "call_ok m as st (st[i := (al, snd (st ! j))]) (room tr al (length (snd (st ! j)))) (never_throws el)
      (do_op tr el garbage (HaAssign i j) as m)"
    unfolding run
    by (rule exchanged_ok [OF ok i, where r = "\<lambda>k. el_copy el (snd (st ! j) ! k)"])
      (simp_all add: init_copy_holds [OF ok j] never_throwsD copies_equalD [OF assms(2)])
  with False show ?thesis by (simp add: al_def)
qed

lemma assign_list_ok:
  assumes ok: "arrays_ok m as st" and "copies_equal el" and i: "i < length st"
  shows "call_ok m as st (st[i := (fst (st ! i), xs)]) (room tr (fst (st ! i)) (length xs)) (never_throws el)
    (do_op tr el garbage (HaAssignList i xs) as m)"
proof -
  have rec: "(as ! i)\<lparr>ha_data := p, ha_size := n\<rparr> = \<lparr>ha_data = p, ha_size = n, ha_alloc = fst (st ! i)\<rparr>" for p n
    using stored_nth(1) [OF arrays_okD(1) [OF ok] i] by (cases "as ! i") simp
  have run: "do_op tr el garbage (HaAssignList i xs) as m =
      on_ok (build_block tr (fst (st ! i)) (length xs) (init_range (el_copy el) xs) m) (\<lambda>p m.
        Option.bind (destroy_and_deallocate (as ! i) m) (\<lambda>m.
          Some (Inr (as[i := \<lparr>ha_data = p, ha_size = length xs, ha_alloc = fst (st ! i)\<rparr>]), m)))"
    using stored_nth(1) [OF arrays_okD(1) [OF ok] i] by (simp add: ha_assign_list_def on_ok_chain rec)
  show ?thesis
    unfolding run
    by (rule exchanged_ok [OF ok i, where r = "\<lambda>j. el_copy el (xs ! j)"])
      (simp_all add: init_range_def never_throwsD copies_equalD [OF assms(2)])
qed

lemma destroy_ok:
  assumes ok: "arrays_ok m as st" and i: "i < length st"
  shows "call_ok m as st (take i st @ drop (Suc i) st) True quiet (do_op tr el garbage (HaDestroy i) as m)"
proof -
  note rel = arrays_ok_release [OF ok i]
  have len: "i < length as" using i stored_length [OF arrays_okD(1) [OF ok]] by simp
  have "arrays_ok (without (as ! i) m) (take i as @ drop (Suc i) as) (take i st @ drop (Suc i) st)"
    using arrays_ok_remove_empty [OF rel, of i] len i by simp
  with destroy_holds [OF stored_nth(2) [OF arrays_okD(1) [OF ok] i]] show ?thesis by simp
qed

text \<open>Storage that changes hands: \<open>b\<close> is the array that takes it over from position \<open>j\<close>.\<close>

lemma holds_emptied: "holds m a [] \<Longrightarrow> own a = {#}"
  by (cases "ha_data a") (auto simp: holds_def own_def)

lemma holds_fields:
  "ha_data b = ha_data a \<Longrightarrow> ha_size b = ha_size a \<Longrightarrow> ha_alloc b = ha_alloc a \<Longrightarrow> holds m a xs \<Longrightarrow> holds m b xs"
  by (auto simp: holds_def split: option.splits)

lemma handed_over:
  assumes ok: "arrays_ok m as st" and i: "i < length st" and j: "j < length st" "i \<noteq> j"
    and e: "snd (st ! i) = []" and b: "ha_data b = ha_data (as ! j)" "ha_size b = ha_size (as ! j)" "ha_alloc b = fst (st ! j)"
  shows "arrays_ok m ((as[j := emptied (as ! j)])[i := b]) ((st[j := (fst (st ! j), [])])[i := st ! j])"
proof (rule arrays_ok_rearrange [OF ok])
  note len = stored_length [OF arrays_okD(1) [OF ok]] and s = stored_nth [OF arrays_okD(1) [OF ok] j(1)]
  have h: "holds m b (snd (st ! j))" by (rule holds_fields [OF b(1,2) _ s(2)]) (simp add: s(1) b(3))
  show "stored m ((as[j := emptied (as ! j)])[i := b]) ((st[j := (fst (st ! j), [])])[i := st ! j])"
    using s h b by (intro stored_update arrays_okD(1) [OF ok]) simp_all
  have "own (as ! i) = {#}" using holds_emptied stored_nth(2) [OF arrays_okD(1) [OF ok] i] e by metis
  moreover have "own b = own (as ! j)" using b by (simp add: own_def)
  ultimately show "owners ((as[j := emptied (as ! j)])[i := b]) = owners as"
    using owners_update [of i "as[j := emptied (as ! j)]" b] owners_update [of j as "emptied (as ! j)"] i j len by simp
qed

lemma handed_to_new:
  assumes ok: "arrays_ok m as st" and i: "i < length st"
    and b: "ha_data b = ha_data (as ! i)" "ha_size b = ha_size (as ! i)" "ha_alloc b = fst (st ! i)"
  shows "arrays_ok m (as[i := emptied (as ! i)] @ [b]) (st[i := (fst (st ! i), [])] @ [st ! i])"
proof (rule arrays_ok_rearrange [OF ok])
  note len = stored_length [OF arrays_okD(1) [OF ok]] and s = stored_nth [OF arrays_okD(1) [OF ok] i]
  have "holds m b (snd (st ! i))" by (rule holds_fields [OF b(1,2) _ s(2)]) (simp add: s(1) b(3))
  then show "stored m (as[i := emptied (as ! i)] @ [b]) (st[i := (fst (st ! i), [])] @ [st ! i])"
    using s b by (intro stored_update stored_append arrays_okD(1) [OF ok]) simp_all
  have "own b = own (as ! i)" using b by (simp add: own_def)
  then show "owners (as[i := emptied (as ! i)] @ [b]) = owners as"
    using owners_update [of i as "emptied (as ! i)"] i len by (simp add: union_ac)
qed

lemma move_ok:
  assumes ok: "arrays_ok m as st" and i: "i < length st"
  shows "call_ok m as st (row_op tr el garbage (HaMove i) st) True quiet (do_op tr el garbage (HaMove i) as m)"
  using handed_to_new [OF ok i, of "\<lparr>ha_data = ha_data (as ! i), ha_size = ha_size (as ! i), ha_alloc = ha_alloc (as ! i)\<rparr>"]
    stored_nth(1) [OF arrays_okD(1) [OF ok] i]
  by (simp add: ha_move_def)

text \<open>Building a block by moving: refused, stopped by an element that throws, or done.\<close>

lemma moves_build:
  assumes ok: "arrays_ok m as st" and j: "j < length st"
  obtains (refused) e where "build_block tr al (length (snd (st ! j))) (init_move el (ha_data (as ! j))) m = Some (Inl e, m)"
      and "\<not> room tr al (length (snd (st ! j)))"
  | (threw) e m' where "build_block tr al (length (snd (st ! j))) (init_move el (ha_data (as ! j))) m = Some (Inl e, m')"
      and "room tr al (length (snd (st ! j)))" and "\<not> never_throws el"
      and "stored m' as (st[j := (fst (st ! j), left el (snd (st ! j)))])"
      and "dom (mem_blocks m') \<subseteq> insert (mem_next m) (dom (mem_blocks m))"
  | (built) p m' where "build_block tr al (length (snd (st ! j))) (init_move el (ha_data (as ! j))) m = Some (Inr p, m')"
      and "room tr al (length (snd (st ! j)))" and "length (taken el (snd (st ! j))) = length (snd (st ! j))"
      and "with_block al (taken el (snd (st ! j))) (rewritten (as ! j) (left el (snd (st ! j))) m) = (p, m')"
proof -
  let ?xs = "snd (st ! j)"
  let ?m1 = "rewritten (as ! j) (left el ?xs) m"
  note size = size_of_stored [OF arrays_okD(1) [OF ok] j]
  have len: "j < length as" using j stored_length [OF arrays_okD(1) [OF ok]] by simp
  have older: "p < mem_next m" if "ha_data (as ! j) = Some p" for p
  proof (rule arrays_okD(4) [OF ok])
    show "p \<in># owners as" unfolding owners_split [OF len] using that by (simp add: own_def)
  qed
  note holds = stored_nth(2) [OF arrays_okD(1) [OF ok] j]
  note b = build_block_moves [OF holds older, of tr al el, unfolded size]
  show thesis
  proof (cases "room tr al (length ?xs)")
    case False
    with b refused show thesis by auto
  next
    case True
    show thesis
    proof (cases "fst (moved el ?xs)")
      case (Inl e)
      with b True obtain cells where
        run: "build_block tr al (length ?xs) (init_move el (ha_data (as ! j))) m = Some (Inl e, spilled al cells ?m1)" by auto
      have "arrays_ok ?m1 as (st[j := (fst (st ! j), left el ?xs)])" by (rule arrays_ok_rewritten [OF ok j]) simp
      from stored_spilled [OF this] have "stored (spilled al cells ?m1) as (st[j := (fst (st ! j), left el ?xs)])" .
      moreover have "dom (mem_blocks (spilled al cells ?m1)) \<subseteq> insert (mem_next m) (dom (mem_blocks m))"
        using dom_rewritten [OF holds, of "left el ?xs"] by (auto simp: spilled_def)
      moreover have "\<not> never_throws el" using never_throws_moved [of el ?xs] Inl by auto
      ultimately show thesis using threw [OF run True] by blast
    next
      case (Inr vs)
      obtain p m' where w: "with_block al (taken el ?xs) ?m1 = (p, m')" by fastforce
      have "taken el ?xs = vs" using Inr by (simp add: taken_def)
      with b True Inr w built moved_length [OF Inr] show thesis by simp
    qed
  qed
qed

lemma move_with_ok:
  assumes ok: "arrays_ok m as st" and i: "i < length st"
  shows "call_ok m as (row_thrown tr el (HaMoveWith i al) st) (row_op tr el garbage (HaMoveWith i al) st)
    (op_fits tr (HaMoveWith i al) st) (never_throws el) (do_op tr el garbage (HaMoveWith i al) as m)"
proof (cases "al = fst (st ! i)")
  case True
  note h = handed_to_new [OF ok i, of "\<lparr>ha_data = ha_data (as ! i), ha_size = ha_size (as ! i), ha_alloc = al\<rparr>"]
  with True stored_nth(1) [OF arrays_okD(1) [OF ok] i] show ?thesis by (simp add: ha_move_with_def)
next
  case False
  let ?xs = "snd (st ! i)"
  have run: "do_op tr el garbage (HaMoveWith i al) as m =
      on_ok (build_block tr al (length ?xs) (init_move el (ha_data (as ! i))) m) (\<lambda>p m.
        Some (Inr (as @ [\<lparr>ha_data = p, ha_size = length ?xs, ha_alloc = al\<rparr>]), m))"
    using False stored_nth(1) [OF arrays_okD(1) [OF ok] i] size_of_stored [OF arrays_okD(1) [OF ok] i]
    by (simp add: ha_move_with_def ha_built_def on_ok_chain)
  show ?thesis
  proof (rule moves_build [OF ok i, of tr al el], goal_cases refused threw built)
    case (refused e)
    with run False arrays_okD(1) [OF ok] show ?thesis by auto
  next
    case (threw e m')
    with run False show ?thesis by simp
  next
    case (built p m')
    have "arrays_ok (rewritten (as ! i) (left el ?xs) m) as (st[i := (fst (st ! i), left el ?xs)])"
      by (rule arrays_ok_rewritten [OF ok i]) simp
    from arrays_ok_add [OF this built(4)] run False built show ?thesis by simp
  qed
qed

lemma move_assign_ok:
  assumes ok: "arrays_ok m as st" and i: "i < length st" and j: "j < length st"
  shows "call_ok m as (row_thrown tr el (HaMoveAssign i j) st) (row_op tr el garbage (HaMoveAssign i j) st)
    (op_fits tr (HaMoveAssign i j) st) (never_throws el) (do_op tr el garbage (HaMoveAssign i j) as m)"
proof (cases "i = j")
  case True
  with ok show ?thesis by (simp add: ha_move_assign_def)
next
  case ij: False
  note s = stored_nth [OF arrays_okD(1) [OF ok]] and len = stored_length [OF arrays_okD(1) [OF ok]]
  note size = size_of_stored [OF arrays_okD(1) [OF ok] j]
  show ?thesis
  proof (cases "tr_pocma tr \<or> fst (st ! i) = fst (st ! j)")
    case True
    let ?b = "\<lparr>ha_data = ha_data (as ! j), ha_size = ha_size (as ! j), ha_alloc = ha_alloc (as ! j)\<rparr>"
    have b: "(as ! i)\<lparr>ha_data := d, ha_size := n\<rparr> = \<lparr>ha_data = d, ha_size = n, ha_alloc = fst (st ! i)\<rparr>" for d n
      using s(1) [OF i] by (cases "as ! i") simp
    have run: "do_op tr el garbage (HaMoveAssign i j) as m =
        Some (Inr ((as[j := emptied (as ! j)])[i := ?b]), without (as ! i) m)"
      using True ij s(1) [OF i] s(1) [OF j] destroy_holds [OF s(2) [OF i]]
      by (auto simp: ha_move_assign_def b)
    have "arrays_ok (without (as ! i) m) (((as[i := emptied (as ! i)])[j := emptied (as ! j)])[i := ?b])
        (((st[i := (fst (st ! i), [])])[j := (fst (st ! j), [])])[i := st ! j])"
      using handed_over [OF arrays_ok_release [OF ok i], of i j ?b] i j ij s(1) [OF j] by simp
    then have "arrays_ok (without (as ! i) m) ((as[j := emptied (as ! j)])[i := ?b])
        ((st[j := (fst (st ! j), [])])[i := st ! j])"
      using ij by (simp add: list_update_swap [of i j])
    with run True ij show ?thesis by auto
  next
    case False
    let ?xs = "snd (st ! j)"
    let ?al = "fst (st ! i)"
    let ?m1 = "rewritten (as ! j) (left el ?xs) m"
    let ?st1 = "st[j := (fst (st ! j), left el ?xs)]"
    have rec: "(as ! i)\<lparr>ha_data := d, ha_size := n\<rparr> = \<lparr>ha_data = d, ha_size = n, ha_alloc = ?al\<rparr>" for d n
      using s(1) [OF i] by (cases "as ! i") simp
    have run: "do_op tr el garbage (HaMoveAssign i j) as m =
        on_ok (build_block tr ?al (length ?xs) (init_move el (ha_data (as ! j))) m) (\<lambda>p m.
          Option.bind (destroy_and_deallocate (as ! i) m) (\<lambda>m.
            Option.bind (destroy_and_deallocate (as ! j) m) (\<lambda>m.
              Some (Inr ((as[j := emptied (as ! j)])[i := \<lparr>ha_data = p, ha_size = length ?xs, ha_alloc = ?al\<rparr>]), m))))"
      using False ij s(1) [OF i] s(1) [OF j] size by (simp add: ha_move_assign_def on_ok_chain rec)
    show ?thesis
    proof (rule moves_build [OF ok j, of tr ?al el], goal_cases refused threw built)
      case (refused e)
      with run False ij arrays_okD(1) [OF ok] show ?thesis by auto
    next
      case (threw e m')
      with run False ij show ?thesis by simp
    next
      case (built p m2)
      let ?b = "\<lparr>ha_data = p, ha_size = length ?xs, ha_alloc = ?al\<rparr>"
      have r: "arrays_ok ?m1 as ?st1" by (rule arrays_ok_rewritten [OF ok j]) simp
      have i1: "i < length ?st1" using i by simp
      have free_i: "destroy_and_deallocate (as ! i) m2 = Some (without (as ! i) m2)"
        by (rule destroy_holds [OF holds_with_block [OF r i1 built(4)]])
      note x = arrays_ok_exchange [OF r i1 built(4), unfolded built(3)]
      have free_j: "destroy_and_deallocate (as ! j) (without (as ! i) m2) = Some (without (as ! j) (without (as ! i) m2))"
        using stored_nth(2) [OF arrays_okD(1) [OF x], of j] j ij by (intro destroy_holds) simp
      have "arrays_ok (without (as ! j) (without (as ! i) m2)) ((as[i := ?b])[j := emptied (as ! j)])
          ((?st1[i := (?al, taken el ?xs)])[j := (fst (st ! j), [])])"
        using arrays_ok_release [OF x, of j] j ij by simp
      then have "arrays_ok (without (as ! j) (without (as ! i) m2)) ((as[j := emptied (as ! j)])[i := ?b])
          ((st[j := (fst (st ! j), [])])[i := (?al, taken el ?xs)])"
        using ij by (simp add: list_update_swap [of i j])
      with run False ij built show ?thesis by (simp add: free_i free_j)
    qed
  qed
qed

lemma swap_ok:
  assumes ok: "arrays_ok m as st" and i: "i < length st" and j: "j < length st"
    and al: "tr_pocs tr \<or> fst (st ! i) = fst (st ! j)"
  shows "call_ok m as st (row_op tr el garbage (HaSwap i j) st) True quiet (do_op tr el garbage (HaSwap i j) as m)"
proof -
  note s = stored_nth [OF arrays_okD(1) [OF ok]] and len = stored_length [OF arrays_okD(1) [OF ok]]
  obtain a b where ab: "ha_swap tr (as ! i) (as ! j) = (a, b)" by fastforce
  have a: "ha_data a = ha_data (as ! j)" "ha_size a = ha_size (as ! j)" "ha_alloc a = ha_alloc (as ! j)"
    and b: "ha_data b = ha_data (as ! i)" "ha_size b = ha_size (as ! i)" "ha_alloc b = ha_alloc (as ! i)"
    using ab al s(1) [OF i] s(1) [OF j] by (auto simp: ha_swap_def Let_def split: if_splits)
  have "arrays_ok m ((as[j := b])[i := a]) ((st[j := st ! i])[i := st ! j])"
  proof (rule arrays_ok_rearrange [OF ok])
    show "stored m ((as[j := b])[i := a]) ((st[j := st ! i])[i := st ! j])"
      using s [OF i] s [OF j] holds_fields [OF a] holds_fields [OF b] a b
      by (intro stored_update arrays_okD(1) [OF ok]) simp_all
    have "own a = own (as ! j)" "own b = own (as ! i)" using a b by (simp_all add: own_def)
    then show "owners ((as[j := b])[i := a]) = owners as"
      using owners_update [of i "as[j := b]" a] owners_update [of j as b] i j len
      by (cases "i = j") (simp_all add: union_ac)
  qed
  with ab show ?thesis by simp
qed

lemma do_op_ok:
  assumes ok: "arrays_ok m as st" and eq: "copies_equal el" and "op_valid tr c st"
  shows "call_ok m as (row_thrown tr el c st) (row_op tr el garbage c st) (op_fits tr c st) (never_throws el)
    (do_op tr el garbage c as m)"
proof (cases c)
  case (HaEmpty al)
  with arrays_ok_add_empty [OF ok, of "ha_empty al" al] show ?thesis by simp
next
  case (HaCount n al)
  with construct_ok(1) [OF ok eq] show ?thesis by simp
next
  case (HaOverwrite n al)
  with construct_ok(2) [OF ok eq] show ?thesis by simp
next
  case (HaFill n v al)
  with construct_ok(3) [OF ok eq] show ?thesis by simp
next
  case (HaList xs al)
  with construct_ok(4) [OF ok eq] show ?thesis by simp
next
  case (HaCopy i)
  with copy_ok [OF ok eq, of i] stored_nth(1) [OF arrays_okD(1) [OF ok], of i] assms(3)
  show ?thesis by (simp add: ha_copy_def)
next
  case (HaCopyWith i al)
  with copy_ok [OF ok eq, of i] assms(3) show ?thesis by (simp add: ha_copy_with_def)
next
  case (HaMove i)
  with move_ok [OF ok, of i] assms(3) show ?thesis by simp
next
  case (HaMoveWith i al)
  show ?thesis unfolding HaMoveWith by (rule move_with_ok [OF ok]) (use assms(3) HaMoveWith in simp)
next
  case (HaDestroy i)
  with destroy_ok [OF ok, of i] assms(3) show ?thesis by simp
next
  case (HaAssign i j)
  with assign_ok [OF ok eq, of i j] assms(3) show ?thesis by simp
next
  case (HaMoveAssign i j)
  show ?thesis unfolding HaMoveAssign by (rule move_assign_ok [OF ok]) (use assms(3) HaMoveAssign in auto)
next
  case (HaAssignList i xs)
  with assign_list_ok [OF ok eq, of i] assms(3) show ?thesis by simp
next
  case (HaSwap i j)
  with swap_ok [OF ok, of i j] assms(3) show ?thesis by simp
qed

lemma never_throws_copies: "never_throws el \<Longrightarrow> copies_equal el"
  by (simp add: never_throws_def copies_equal_def)

definition no_mem :: "'a mem" where
  "no_mem = \<lparr>mem_blocks = Map.empty, mem_next = 0\<rparr>"

lemma arrays_ok_start: "arrays_ok no_mem [] []"
  by (simp add: arrays_ok_def no_mem_def stored_def)

text \<open>
  C34: for elements whose default, copy and move do not throw, any series of constructions,
  copies, moves, assignments, swaps and destructions that satisfies the preconditions of its
  calls runs through, whichever requests the allocators refuse: no object is used before it is
  constructed or after it is destroyed, no block is freed twice or by another allocator than
  its own. At the end the arrays hold what the same series does to lists, where a call that is
  refused does nothing, and each block that is still allocated belongs to exactly one of
  them: nothing is leaked.
\<close>

theorem arrays_behave_as_lists:
  assumes "arrays_ok m as st" and "never_throws el" and "tries_valid tr el garbage cs st"
  shows "\<exists>as' m'. try_ops tr el garbage cs as m = Some (as', m') \<and>
    arrays_ok m' as' (row_tries tr el garbage cs st)"
  using assms(1,3)
proof (induction cs arbitrary: m as st)
  case Nil
  then show ?case by simp
next
  case (Cons c cs)
  have step: "call_ok m as (row_thrown tr el c st) (row_op tr el garbage c st) (op_fits tr c st) (never_throws el)
      (do_op tr el garbage c as m)"
    by (rule do_op_ok [OF Cons.prems(1) never_throws_copies [OF assms(2)]]) (use Cons.prems(2) in simp)
  then obtain r m1 where run: "do_op tr el garbage c as m = Some (r, m1)" by (auto simp: call_ok_def split: option.splits)
  show ?case
  proof (cases r)
    case (Inl e)
    with step run assms(2) have "m1 = m" "row_try tr el garbage c st = st" by (simp_all add: row_try_def)
    with Cons.IH [OF Cons.prems(1)] Cons.prems(2) run Inl show ?thesis by simp
  next
    case (Inr as1)
    with step run have "arrays_ok m1 as1 (row_try tr el garbage c st)" by (simp add: row_try_def)
    from Cons.IH [OF this] Cons.prems(2) run Inr show ?thesis by simp
  qed
qed

text \<open>
  C35: whatever is asked of the allocators and whether or not defaults, copies and moves of
  elements throw, a call on arrays in order comes to an end. It has its effect, or it throws,
  which it does only when an allocator refuses or an element can throw. Then every array holds
  the elements it held, with one exception: the source of an element-wise move between
  different allocators has lost those moved before the one that threw. Storage is left behind
  only when an element threw, and at most the one block that was being built.
\<close>

theorem failed_call_keeps_arrays:
  assumes "arrays_ok m as st" and "copies_equal el" and "op_valid tr c st"
  shows "\<exists>r m'. do_op tr el garbage c as m = Some (r, m') \<and>
    (case r of
       Inr as' \<Rightarrow> op_fits tr c st \<and> arrays_ok m' as' (row_op tr el garbage c st)
     | Inl e \<Rightarrow> \<not> (op_fits tr c st \<and> never_throws el) \<and> stored m' as (row_thrown tr el c st) \<and>
         (never_throws el \<longrightarrow> m' = m) \<and> dom (mem_blocks m') \<subseteq> insert (mem_next m) (dom (mem_blocks m)))"
  using do_op_ok [OF assms, of garbage]
  by (auto simp: call_ok_def split: option.splits sum.splits)

subsection \<open>Where the code gives less\<close>

text \<open>
  When an element cannot be copied, \<open>BuildBlock\<close> leaves the block and the elements already
  made behind: no array owns them.
\<close>

definition picky :: "nat element" where
  "picky = \<lparr>el_default = Inr 0, el_copy = (\<lambda>x. if x = 2 then Inl ElementThrew else Inr x), el_move = (\<lambda>x. (Inr x, 0))\<rparr>"

definition std_traits :: traits where
  "std_traits = \<lparr>tr_pocca = False, tr_pocma = False, tr_pocs = False, tr_select = (\<lambda>al. al),
     tr_max_size = (\<lambda>al. 100), tr_refuses = (\<lambda>al n. False)\<rparr>"

lemmas ha_run_defs = ha_list_def ha_built_def build_block_def allocate_block_def allocate_def ha_max_size_def
  init_range_def construct_def write_cell_def added_def

lemma build_block_leaks:
  "do_op std_traits picky (\<lambda>_. 0) (HaList [1, 2] 0) [] no_mem =
     Some (Inl ElementThrew, \<lparr>mem_blocks = [0 \<mapsto> \<lparr>bl_alloc = 0, bl_cells = [Some 1, None]\<rparr>], mem_next = 1\<rparr>)"
  by (simp add: ha_run_defs std_traits_def picky_def no_mem_def)

text \<open>Moving into another allocator leaves the source with its elements, moved from.\<close>

lemma move_with_keeps_source:
  assumes "al \<noteq> ha_alloc other" and "ha_move_with tr el other al m = Some (Inr (a, other'), m')"
  shows "other' = other"
  using assms by (auto simp: ha_move_with_def on_ok_def split: option.splits sum.splits)

subsection \<open>A run\<close>

definition plain :: "nat element" where
  "plain = \<lparr>el_default = Inr 0, el_copy = Inr, el_move = (\<lambda>x. (Inr x, 0))\<rparr>"

definition some_calls :: "nat ha_op list" where
  "some_calls = [HaList [1, 2] 0, HaCount 101 0, HaCopy 0, HaEmpty 1, HaMoveAssign 2 0, HaAssign 0 1, HaSwap 0 1, HaDestroy 1]"

text \<open>The array of 101 elements is refused.\<close>

theorem arrays_behave_as_lists_witness:
  "\<exists>as' m'. try_ops std_traits plain (\<lambda>_. 0) some_calls [] no_mem = Some (as', m') \<and>
    arrays_ok m' as' [(0, [1, 2]), (1, [1, 2])]"
proof -
  have "never_throws plain" by (simp add: never_throws_def plain_def)
  moreover have "tries_valid std_traits plain (\<lambda>_. 0) some_calls []"
    by (simp add: some_calls_def row_try_def std_traits_def plain_def room_def ha_max_size_def taken_def)
  moreover have "row_tries std_traits plain (\<lambda>_. 0) some_calls [] = [(0, [1, 2]), (1, [1, 2])]"
    by (simp add: some_calls_def row_try_def std_traits_def plain_def room_def ha_max_size_def taken_def)
  ultimately show ?thesis using arrays_behave_as_lists [OF arrays_ok_start, of plain std_traits "\<lambda>_. 0" some_calls] by simp
qed

text \<open>
  The move of 2 throws: of the array that is moved to another allocator the first element is
  gone, the second is not, and the block begun for the new array stays behind.
\<close>

definition touchy :: "nat element" where
  "touchy = \<lparr>el_default = Inr 0, el_copy = Inr, el_move = (\<lambda>x. if x = 2 then (Inl ElementThrew, 2) else (Inr x, 0))\<rparr>"

lemma two_cells: "build_elems init p i 2 m = build_elems init p i (Suc (Suc 0)) m" "replicate 2 x = [x, x]"
  by (simp_all add: numeral_2_eq_2)

definition one_array :: "heap_array list" where
  "one_array = [\<lparr>ha_data = Some 0, ha_size = 2, ha_alloc = 0\<rparr>]"

definition one_array_mem :: "nat mem" where
  "one_array_mem = \<lparr>mem_blocks = [0 \<mapsto> \<lparr>bl_alloc = 0, bl_cells = [Some 1, Some 2]\<rparr>], mem_next = 1\<rparr>"

lemma one_array_ok: "arrays_ok one_array_mem one_array [(0, [1, 2])]"
  by (simp add: arrays_ok_def stored_def holds_def one_array_def one_array_mem_def owners_def own_def)

theorem failed_call_keeps_arrays_witness:
  "\<exists>m'. do_op std_traits touchy (\<lambda>_. 0) (HaMoveWith 0 1) one_array one_array_mem = Some (Inl ElementThrew, m') \<and>
    stored m' one_array [(0, [0, 2])] \<and> dom (mem_blocks m') = {0, 1}"
proof -
  let ?m = "\<lparr>mem_blocks = [0 \<mapsto> \<lparr>bl_alloc = 0, bl_cells = [Some 0, Some 2]\<rparr>, 1 \<mapsto> \<lparr>bl_alloc = 1, bl_cells = [Some 1, None]\<rparr>],
    mem_next = 2\<rparr>"
  have run: "do_op std_traits touchy (\<lambda>_. 0) (HaMoveWith 0 1) one_array one_array_mem = Some (Inl ElementThrew, ?m)"
    by (simp add: ha_run_defs ha_move_with_def init_move_def read_cell_def std_traits_def touchy_def one_array_def
        one_array_mem_def two_cells fun_upd_twist)
  have "copies_equal touchy" by (simp add: copies_equal_def touchy_def)
  from failed_call_keeps_arrays [OF one_array_ok this, of std_traits "HaMoveWith 0 1" "\<lambda>_. 0"] run
  have "stored ?m one_array (row_thrown std_traits touchy (HaMoveWith 0 1) [(0, [1, 2])])" by auto
  moreover have "row_thrown std_traits touchy (HaMoveWith 0 1) [(0, [1, 2])] = [(0, [0, 2])]"
    by (simp add: room_def ha_max_size_def std_traits_def left_def touchy_def)
  moreover have "dom (mem_blocks ?m) = {0, 1}" by auto
  ultimately show ?thesis using run by metis
qed

end
