(* ===== verification/Heap_Array_Access.thy ===== *)
theory Heap_Array_Access
  imports Heap_Array
begin

section \<open>Iterators, access and comparison of heap arrays\<close>

text \<open>
  \<open>HeapArrayIterator\<close>, the element access of \<open>HeapArray\<close> and its comparisons. An iterator is
  a block and an offset into it; leaving the block goes unnoticed until it is dereferenced,
  which has no result (\<^const>\<open>None\<close>) outside the elements. The iterator to constant
  elements is the same pair.
\<close>

subsection \<open>The iterator\<close>

datatype ha_iter = HaIter (it_block: "nat option") (it_off: int)

text \<open>Iterators into one block are ordered by their offsets; others are not comparable.\<close>

instantiation ha_iter :: order
begin

definition less_eq_ha_iter :: "ha_iter \<Rightarrow> ha_iter \<Rightarrow> bool" where
  "less_eq_ha_iter a b \<longleftrightarrow> it_block a = it_block b \<and> it_off a \<le> it_off b"

definition less_ha_iter :: "ha_iter \<Rightarrow> ha_iter \<Rightarrow> bool" where
  "less_ha_iter a b \<longleftrightarrow> it_block a = it_block b \<and> it_off a < it_off b"

instance
  by standard (auto simp: less_eq_ha_iter_def less_ha_iter_def ha_iter.expand)

end

definition it_default :: ha_iter where "it_default = HaIter None 0"

definition it_deref :: "ha_iter \<Rightarrow> 'a mem \<Rightarrow> 'a option" where
  "it_deref it m = (if it_off it < 0 then None else read_cell (it_block it) (nat (it_off it)) m)"

definition it_add_assign :: "int \<Rightarrow> ha_iter \<Rightarrow> ha_iter" where
  "it_add_assign n it = HaIter (it_block it) (it_off it + n)"

definition it_sub_assign :: "int \<Rightarrow> ha_iter \<Rightarrow> ha_iter" where
  "it_sub_assign n it = HaIter (it_block it) (it_off it - n)"

definition it_index :: "ha_iter \<Rightarrow> int \<Rightarrow> 'a mem \<Rightarrow> 'a option" where
  "it_index it n m = it_deref (HaIter (it_block it) (it_off it + n)) m"

definition it_inc :: "ha_iter \<Rightarrow> ha_iter" where
  "it_inc it = HaIter (it_block it) (it_off it + 1)"

definition it_dec :: "ha_iter \<Rightarrow> ha_iter" where
  "it_dec it = HaIter (it_block it) (it_off it - 1)"

text \<open>The result and the iterator after the call.\<close>

definition it_post_inc :: "ha_iter \<Rightarrow> ha_iter \<times> ha_iter" where
  "it_post_inc it = (let tmp = it in (tmp, it_inc it))"

definition it_post_dec :: "ha_iter \<Rightarrow> ha_iter \<times> ha_iter" where
  "it_post_dec it = (let tmp = it in (tmp, it_dec it))"

definition it_plus :: "ha_iter \<Rightarrow> int \<Rightarrow> ha_iter" where
  "it_plus it n = it_add_assign n it"

definition plus_it :: "int \<Rightarrow> ha_iter \<Rightarrow> ha_iter" where
  "plus_it n it = it_add_assign n it"

definition it_minus :: "ha_iter \<Rightarrow> int \<Rightarrow> ha_iter" where
  "it_minus it n = it_sub_assign n it"

definition it_diff :: "ha_iter \<Rightarrow> ha_iter \<Rightarrow> int option" where
  "it_diff a b = (if it_block a = it_block b then Some (it_off a - it_off b) else None)"

text \<open>The laws of a random access iterator.\<close>

lemma iterator_laws:
  "it_minus (it_plus it n) n = it" "it_plus it n = plus_it n it" "it_diff (it_plus it n) it = Some n"
  "it_index it n m = it_deref (it_plus it n) m" "(it_inc ^^ k) it = it_plus it (int k)"
  "(it_dec ^^ k) it = it_minus it (int k)" "it_post_inc it = (it, it_plus it 1)" "it_post_dec it = (it, it_minus it 1)"
proof -
  show "(it_inc ^^ k) it = it_plus it (int k)" "(it_dec ^^ k) it = it_minus it (int k)"
    by (induction k) (simp_all add: it_inc_def it_dec_def it_plus_def it_minus_def it_add_assign_def it_sub_assign_def)
qed (simp_all add: it_plus_def plus_it_def it_minus_def it_add_assign_def it_sub_assign_def it_diff_def it_index_def
  it_post_inc_def it_post_dec_def it_inc_def it_dec_def Let_def)

subsection \<open>Access\<close>

definition ha_get :: "heap_array \<Rightarrow> nat \<Rightarrow> 'a mem \<Rightarrow> 'a option" where
  "ha_get a pos m = read_cell (ha_data a) pos m"

definition ha_at :: "heap_array \<Rightarrow> nat \<Rightarrow> 'a mem \<Rightarrow> ('a, ha_error) expected option" where
  "ha_at a pos m = (if pos \<ge> ha_size a then Some (Inl OutOfRange) else map_option Inr (ha_get a pos m))"

definition ha_front :: "heap_array \<Rightarrow> 'a mem \<Rightarrow> 'a option" where
  "ha_front a m = ha_get a 0 m"

definition ha_back :: "heap_array \<Rightarrow> 'a mem \<Rightarrow> 'a option" where
  "ha_back a m = ha_get a (nat ((int (ha_size a) - 1) mod 2 ^ 64)) m"

definition ha_get_allocator :: "heap_array \<Rightarrow> nat" where
  "ha_get_allocator a = ha_alloc a"

definition ha_max :: "traits \<Rightarrow> heap_array \<Rightarrow> nat" where
  "ha_max tr a = ha_max_size tr (ha_alloc a)"

definition ha_begin :: "heap_array \<Rightarrow> ha_iter" where
  "ha_begin a = HaIter (ha_data a) 0"

definition ha_end :: "heap_array \<Rightarrow> ha_iter" where
  "ha_end a = HaIter (ha_data a) (int (ha_size a))"

text \<open>A \<open>std::reverse_iterator\<close> holds the iterator after the element it stands for.\<close>

datatype ha_reverse = HaReverse (rit_base: ha_iter)

definition ha_rbegin :: "heap_array \<Rightarrow> ha_reverse" where
  "ha_rbegin a = HaReverse (ha_end a)"

definition ha_rend :: "heap_array \<Rightarrow> ha_reverse" where
  "ha_rend a = HaReverse (ha_begin a)"

definition ha_is_empty :: "heap_array \<Rightarrow> bool" where
  "ha_is_empty a \<longleftrightarrow> ha_size a = 0"

definition ha_as_span :: "heap_array \<Rightarrow> nat option \<times> nat" where
  "ha_as_span a = (ha_data a, ha_size a)"

text \<open>Reading from one iterator up to another, with the operations a loop uses.\<close>

function read_range :: "ha_iter \<Rightarrow> ha_iter \<Rightarrow> 'a mem \<Rightarrow> 'a list option" where
  "read_range it stop m =
     (if it = stop then Some []
      else if it < stop then
        Option.bind (it_deref it m) (\<lambda>x. map_option (Cons x) (read_range (it_inc it) stop m))
      else None)"
  by pat_completeness auto
termination
  by (relation "measure (\<lambda>(it, stop, m). nat (it_off stop - it_off it))")
    (auto simp: less_ha_iter_def it_inc_def)

function read_reversed :: "ha_reverse \<Rightarrow> ha_reverse \<Rightarrow> 'a mem \<Rightarrow> 'a list option" where
  "read_reversed it stop m =
     (if it = stop then Some []
      else if rit_base stop < rit_base it then
        Option.bind (it_deref (it_dec (rit_base it)) m) (\<lambda>x.
          map_option (Cons x) (read_reversed (HaReverse (it_dec (rit_base it))) stop m))
      else None)"
  by pat_completeness auto
termination
  by (relation "measure (\<lambda>(it, stop, m). nat (it_off (rit_base it) - it_off (rit_base stop)))")
    (auto simp: less_ha_iter_def it_dec_def)

declare read_range.simps [simp del] read_reversed.simps [simp del]

subsection \<open>Comparison\<close>

datatype three_way = Less | Equivalent | Greater | Unordered

text \<open>\<open>spaceship\<close>: the element's own three-way comparison, when it has one.\<close>

definition synth_three_way :: "('a \<Rightarrow> 'a \<Rightarrow> three_way) option \<Rightarrow> ('a \<Rightarrow> 'a \<Rightarrow> bool) \<Rightarrow> 'a \<Rightarrow> 'a \<Rightarrow> three_way" where
  "synth_three_way spaceship lt a b =
     (case spaceship of
        Some f \<Rightarrow> f a b
      | None \<Rightarrow> if lt a b then Less else if lt b a then Greater else Equivalent)"

text \<open>\<open>std::lexicographical_compare_three_way\<close> and \<open>std::equal\<close> on what the ranges hold.\<close>

fun lexicographic :: "('a \<Rightarrow> 'a \<Rightarrow> three_way) \<Rightarrow> 'a list \<Rightarrow> 'a list \<Rightarrow> three_way" where
  "lexicographic cmp [] [] = Equivalent"
| "lexicographic cmp [] (y # ys) = Less"
| "lexicographic cmp (x # xs) [] = Greater"
| "lexicographic cmp (x # xs) (y # ys) =
     (let c = cmp x y in if c = Equivalent then lexicographic cmp xs ys else c)"

definition on_ranges :: "('a list \<Rightarrow> 'a list \<Rightarrow> 'r) \<Rightarrow> heap_array \<Rightarrow> heap_array \<Rightarrow> 'a mem \<Rightarrow> 'r option" where
  "on_ranges f a b m =
     Option.bind (read_range (ha_begin a) (ha_end a) m) (\<lambda>xs.
       Option.bind (read_range (ha_begin b) (ha_end b) m) (\<lambda>ys. Some (f xs ys)))"

definition ha_equal :: "('a \<Rightarrow> 'a \<Rightarrow> bool) \<Rightarrow> heap_array \<Rightarrow> heap_array \<Rightarrow> 'a mem \<Rightarrow> bool option" where
  "ha_equal eq = on_ranges (list_all2 eq)"

definition ha_compare :: "('a \<Rightarrow> 'a \<Rightarrow> three_way) option \<Rightarrow> ('a \<Rightarrow> 'a \<Rightarrow> bool) \<Rightarrow> heap_array \<Rightarrow> heap_array
    \<Rightarrow> 'a mem \<Rightarrow> three_way option" where
  "ha_compare spaceship lt = on_ranges (lexicographic (synth_three_way spaceship lt))"

subsection \<open>What a loop sees\<close>

lemma read_cell_holds:
  assumes "holds m a xs"
  shows "ha_get a pos m = (if pos < length xs then Some (xs ! pos) else None)"
  using assms by (cases "ha_data a") (auto simp: holds_def ha_get_def read_cell_def)

lemma read_range_from:
  assumes "holds m a xs" and "i + k = length xs"
  shows "read_range (HaIter (ha_data a) (int i)) (ha_end a) m = Some (drop i xs)"
  using assms(2)
proof (induction k arbitrary: i)
  case 0
  with assms(1) show ?case by (simp add: read_range.simps ha_end_def holds_def)
next
  case (Suc k)
  have size: "ha_size a = length xs" using assms(1) by (simp add: holds_def)
  have "it_deref (HaIter (ha_data a) (int i)) m = Some (xs ! i)"
    using read_cell_holds [OF assms(1), of i] Suc.prems by (simp add: it_deref_def ha_get_def)
  moreover have "it_inc (HaIter (ha_data a) (int i)) = HaIter (ha_data a) (int (Suc i))" by (simp add: it_inc_def)
  moreover have "read_range (HaIter (ha_data a) (int (Suc i))) (ha_end a) m = Some (drop (Suc i) xs)"
    using Suc.IH [of "Suc i"] Suc.prems by simp
  moreover have "HaIter (ha_data a) (int i) < ha_end a" using Suc.prems size by (simp add: less_ha_iter_def ha_end_def)
  ultimately show ?case
    using Suc.prems by (subst read_range.simps) (auto simp: Cons_nth_drop_Suc)
qed

lemma read_range_holds: "holds m a xs \<Longrightarrow> read_range (ha_begin a) (ha_end a) m = Some xs"
  using read_range_from [of m a xs 0 "length xs"] by (simp add: ha_begin_def)

lemma read_reversed_from:
  assumes "holds m a xs" and "i \<le> length xs"
  shows "read_reversed (HaReverse (HaIter (ha_data a) (int i))) (ha_rend a) m = Some (rev (take i xs))"
  using assms(2)
proof (induction i)
  case 0
  show ?case by (simp add: read_reversed.simps ha_rend_def ha_begin_def)
next
  case (Suc i)
  have d: "it_dec (HaIter (ha_data a) (int (Suc i))) = HaIter (ha_data a) (int i)" by (simp add: it_dec_def)
  have "it_deref (HaIter (ha_data a) (int i)) m = Some (xs ! i)"
    using read_cell_holds [OF assms(1), of i] Suc.prems by (simp add: it_deref_def ha_get_def)
  with Suc d show ?case
    by (subst read_reversed.simps)
      (simp add: ha_rend_def ha_begin_def less_ha_iter_def take_Suc_conv_app_nth)
qed

lemma read_reversed_holds: "holds m a xs \<Longrightarrow> read_reversed (ha_rbegin a) (ha_rend a) m = Some (rev xs)"
  using read_reversed_from [of m a xs "length xs"] by (simp add: ha_rbegin_def ha_end_def holds_def)

lemma at_holds:
  assumes "holds m a xs"
  shows "ha_at a pos m = Some (if pos < length xs then Inr (xs ! pos) else Inl OutOfRange)"
  using read_cell_holds [OF assms] assms by (simp add: ha_at_def holds_def)

lemma front_back_holds:
  assumes "holds m a xs" and "xs \<noteq> []" and "length xs \<le> 2 ^ 64"
  shows "ha_front a m = Some (hd xs)" "ha_back a m = Some (last xs)"
proof -
  have s: "ha_size a = length xs" "0 < length xs" using assms by (simp_all add: holds_def)
  then have "nat ((int (ha_size a) - 1) mod 2 ^ 64) = length xs - 1"
    using assms(3) by (subst mod_pos_pos_trivial) (auto simp: nat_diff_distrib')
  then show "ha_back a m = Some (last xs)"
    using read_cell_holds [OF assms(1)] s(2) assms(2) by (simp add: ha_back_def last_conv_nth)
  show "ha_front a m = Some (hd xs)"
    using read_cell_holds [OF assms(1)] s(2) assms(2) by (simp add: ha_front_def hd_conv_nth)
qed

text \<open>
  On arrays in order a loop from \<open>begin\<close> to \<open>end\<close> sees the elements, one from \<open>rbegin\<close> to
  \<open>rend\<close> sees them in reverse, and \<open>at\<close> returns the element at an index or the error when
  there is none.
\<close>

theorem loops_see_the_elements:
  assumes "holds m a xs"
  shows "read_range (ha_begin a) (ha_end a) m = Some xs \<and>
    read_reversed (ha_rbegin a) (ha_rend a) m = Some (rev xs) \<and>
    ha_at a pos m = Some (if pos < length xs then Inr (xs ! pos) else Inl OutOfRange)"
  using read_range_holds [OF assms] read_reversed_holds [OF assms] at_holds [OF assms] by simp

lemma synth_three_way_own: "synth_three_way (Some f) lt = f"
  by (intro ext) (simp add: synth_three_way_def)

lemma lexicographic_linorder:
  fixes xs ys :: "'a::linorder list"
  shows "lexicographic (synth_three_way None (<)) xs ys =
    (if xs = ys then Equivalent else if ord_class.lexordp xs ys then Less else Greater)"
  by (induction xs ys rule: list_induct2') (auto simp: synth_three_way_def Let_def)

text \<open>
  Two arrays compare equal exactly when they have the same elements, and \<open>operator<=>\<close>,
  made from the \<open>operator<\<close> of the elements, is the lexicographic order; when the elements
  have an \<open>operator<=>\<close> of their own, the first pair it finds apart decides.
\<close>

theorem comparison_is_lexicographic:
  fixes xs ys :: "'a::linorder list"
  assumes "holds m a xs" and "holds m b ys"
  shows "ha_equal (=) a b m = Some (xs = ys) \<and>
    ha_compare None (<) a b m = Some (if xs = ys then Equivalent else if ord_class.lexordp xs ys then Less else Greater) \<and>
    ha_compare (Some f) (<) a b m = Some (lexicographic f xs ys)"
  using read_range_holds [OF assms(1)] read_range_holds [OF assms(2)]
  by (simp add: ha_equal_def ha_compare_def on_ranges_def lexicographic_linorder list.rel_eq synth_three_way_own)

subsection \<open>An example\<close>

definition two_arrays :: "nat mem" where
  "two_arrays = \<lparr>mem_blocks = [0 \<mapsto> \<lparr>bl_alloc = 0, bl_cells = [Some 1, Some 2]\<rparr>, 1 \<mapsto> \<lparr>bl_alloc = 0, bl_cells = [Some 3]\<rparr>],
     mem_next = 2\<rparr>"

lemma two_arrays_hold:
  "holds two_arrays \<lparr>ha_data = Some 0, ha_size = 2, ha_alloc = 0\<rparr> [1, 2]"
  "holds two_arrays \<lparr>ha_data = Some 1, ha_size = 1, ha_alloc = 0\<rparr> [3]"
  by (simp_all add: holds_def two_arrays_def)

theorem loops_see_the_elements_witness:
  "read_range (ha_begin \<lparr>ha_data = Some 0, ha_size = 2, ha_alloc = 0\<rparr>) (ha_end \<lparr>ha_data = Some 0, ha_size = 2, ha_alloc = 0\<rparr>)
      two_arrays = Some [1, 2] \<and>
    read_reversed (ha_rbegin \<lparr>ha_data = Some 0, ha_size = 2, ha_alloc = 0\<rparr>) (ha_rend \<lparr>ha_data = Some 0, ha_size = 2, ha_alloc = 0\<rparr>)
      two_arrays = Some [2, 1] \<and>
    ha_at \<lparr>ha_data = Some 0, ha_size = 2, ha_alloc = 0\<rparr> 2 two_arrays = Some (Inl OutOfRange)"
  using loops_see_the_elements [OF two_arrays_hold(1), of 2] by simp

theorem comparison_is_lexicographic_witness:
  "ha_compare None (<) \<lparr>ha_data = Some 0, ha_size = 2, ha_alloc = 0\<rparr> \<lparr>ha_data = Some 1, ha_size = 1, ha_alloc = 0\<rparr>
      two_arrays = Some Less \<and>
    ha_equal (=) \<lparr>ha_data = Some 0, ha_size = 2, ha_alloc = 0\<rparr> \<lparr>ha_data = Some 1, ha_size = 1, ha_alloc = 0\<rparr>
      two_arrays = Some False"
  using comparison_is_lexicographic [OF two_arrays_hold] by simp

end
