(* ===== verification/Spec2Isabelle.thy ===== *)
theory Spec2Isabelle
  imports Run_Crew Scan_Bytes Parallel_Removal Heap_Array_Access
begin

section \<open>remmy, a parallel rm(1)\<close>

text \<open>
  The program removes its operands the way BSD \<open>rm\<close> does. \<open>main\<close> parses the command line and
  runs \<open>RunUnlink\<close> or \<open>RunRm\<close> (\<open>src/src\<close>). \<open>RunRm\<close> asks the question of \<open>-I\<close>, removes the
  operands that are no directories itself, and hands each directory, as the root of a tree
  of \<open>DirNode\<close>s, to a scheduler whose workers scan directories, unlink what they find, hand
  on the subdirectories and remove a directory when the last reference to its node is
  dropped. Everything below rests on the library \<open>src/cutils\<close>: the scheduler and its
  work-stealing queues, descriptors and their pool, directory reading, readers, writers,
  formatting, environment variables.

  \<^bold>\<open>Conventions.\<close> A system call is a field of the record \<open>sys\<close> of \<open>Syscalls\<close>, a function of
  its arguments and a world of any type; what the code relies on is a named predicate on
  that record (\<open>reads_stream\<close>, \<open>writev_appends\<close>, \<open>records_advance\<close>), and each property
  with such a premise has a witness on a concrete record. A fallible call returns
  \<^const>\<open>Inl\<close> an error or \<^const>\<open>Inr\<close> a value. \<^const>\<open>None\<close> is a call that does not return,
  or a use of memory the code is not entitled to; that neither occurs is part of what is
  proved. Loops that may not end are \<open>partial_function\<close>s, all others terminate by a measure;
  there is no fuel. Machine integers are words where they wrap (\<open>Fd_Limits\<close>, \<open>Print\<close>),
  \<^typ>\<open>nat\<close> and \<^typ>\<open>int\<close> with the width written out where it matters.

  \<^bold>\<open>Theories\<close>, each opening with what it holds:

  \<^item> \<open>Prelude\<close>: error codes, operations of string views, lemmas on lists and words.
    \<open>Charconv\<close>: \<open>std::from_chars\<close> and \<open>std::to_chars\<close>. \<open>Syscalls\<close>: the record of system calls.
  \<^item> \<open>Env\<close> (\<open>os/env.hpp\<close>), \<open>Print\<close> (\<open>io/print.hpp\<close>), \<open>Warn\<close> (\<open>io/warn.hpp\<close>), \<open>Cli\<close>
    (\<open>cli.hpp\<close>, \<open>cli.cpp\<close>): pure code. Parsing equals a reference scanner, formatted and
    escaped messages are what their specification says, a variable is read exactly when it
    spells a value in range.
  \<^item> \<open>Fd_Limits\<close> (\<open>os/limits/fd.hpp\<close>, \<open>fd.cpp\<close>): the lease counter packed in a word, the limit
    raised once, refused reservations. \<open>Fd\<close> (\<open>os/fd.hpp\<close>): owned descriptors and their niche
    optional; the pool counts the open ones. \<open>Os\<close> (\<open>os/os.hpp\<close>, \<open>os.cpp\<close>): directory reading
    as a buffered loop, refined to the list of records. \<open>Dirent_Bytes\<close>: the same reader over
    the bytes of its buffer, refined to \<open>Os\<close>; \<open>Scan_Bytes\<close>: the scan of the workers over it.
  \<^item> \<open>Dir_Node\<close> (\<open>dir_node.hpp\<close>, \<open>dir_node.cpp\<close>): nodes on a heap, paths written backwards
    into a buffer, opening paths longer than \<open>PATH_MAX\<close>, removal by name.
    \<open>Walk_Protocol\<close>: the workers as interleaved atomic steps on the nodes, with the reference
    counts; invariants by rule induction. \<open>Walk\<close>: the handlers of \<open>FileUnlinkWorker\<close> as
    written, refined to that protocol, total, and with exact failure counts.
  \<^item> \<open>Writers\<close> (\<open>io/fd_writer.hpp\<close>), \<open>Buffered_Writer\<close> (buffered, mutex, reference, standard
    error and concurrent writers), \<open>Readers\<close> (descriptor, buffered and standard input
    readers): the locales \<open>writer\<close> and \<open>reader\<close> state the contracts, interpreted on each
    writer and reader of the program. What a reader has left to read is what comes before
    the end of the file or the first error, so a closed standard input is an empty one.
  \<^item> \<open>Chase_Lev\<close> (\<open>workstealing_queue\<close>): the queue as functions refined to a list, and as
    interleaved accesses of an owner and thieves. \<open>Scheduler\<close> (\<open>task_scheduler\<close>): all threads
    as one step relation on top of it; no task lost. \<open>Scheduler_Progress\<close>: a measure of what
    is left to do, and from every reachable state a run to the return of \<open>Wait\<close>.
    \<open>Parallel_Removal\<close>: those threads running the workers of \<open>main.cpp\<close>, one system of the
    scheduler and the node protocol; at the return of \<open>Wait\<close> every directory is finished.
  \<^item> \<open>Heap_Array\<close> (\<open>collections/heap_array.hpp\<close>): storage blocks and the arrays that own them,
    refined to lists; allocators may refuse, and defaults, copies and moves of elements may
    throw. \<open>Heap_Array_Access\<close>: their iterators, element access and comparisons.
    The other theories use a list of a fixed length for such an array.
  \<^item> \<open>Run_Rm\<close> (\<open>main.cpp\<close>): the rest of the program, down to \<open>main\<close>. \<open>Whole_Run\<close>: operands and
    tasks together keep the pool's count equal to the descriptors the nodes hold and follow
    the node protocol, so that nothing is left at the end. \<open>Run_Ends\<close>: no task is ever stuck,
    and a run ends when the system's records and refusals do, by a lexicographic measure of
    what the system still has to answer and the tasks left. \<open>Run_Crew\<close>: the same for every
    schedule of the tasks among any number of workers that count their own failures.

  \<^bold>\<open>Bounds.\<close> Indices of the queue are integers: \<open>int64_t\<close> would need \<open>2^63\<close> insertions to
  wrap. A reference count has 32 bits, so theorems on whole runs ask for fewer than \<open>2^32\<close>
  addresses (\<open>few\<close>). Counters of tasks, leases below \<open>2^32\<close> apart, and failures are unbounded. The
  operands of \<open>-I\<close> are fewer than \<open>2^64\<close>, and the theorem on exit codes asks for fewer than
  \<open>2^31\<close> arguments, what \<open>argc\<close> can hold.

  \<^bold>\<open>Not modelled.\<close> Memory orders: accesses to atomics are sequentially consistent. In
  \<open>Run_Rm\<close> the system calls and messages of the workers are those of a schedule of whole
  tasks that starts once every operand was seen; the interleavings are in
  \<open>Parallel_Removal\<close>, over the node protocol that each call of \<open>Process\<close> refines. The
  layout of \<open>struct dirent\<close> and what the kernel writes are arguments and hypotheses of
  \<open>Dirent_Bytes\<close>. The destructor of the scheduler, which finds every thread joined after
  \<open>Wait\<close>. C++ concepts, type aliases and compile-time assertions; tests, benchmarks and build
  files.
\<close>

end
